(* ===== verification/Prelude.thy ===== *)
theory Prelude
  imports Main "HOL-Library.Word" "HOL-Library.Multiset"
begin

unbundle bit_operations_syntax

text \<open>
  Shared vocabulary of the aRTOS development.

  \<^item> The C integer types: \<open>u8\<close> and \<open>u32\<close> are machine words, so every \<open>+\<close>, \<open>-\<close>
    and shift of the model wraps exactly where the C code wraps.
  \<^item> The addresses of the statically allocated kernel objects. aRTOS never allocates,
    so a C pointer to a kernel object is either NULL (\<open>None\<close>) or one of finitely many
    kinds of names: \<open>tcb_ref\<close>, \<open>list_ref\<close>, \<open>item_ref\<close>.
  \<^item> The outcome type \<open>res\<close> of a kernel function: it returns, it halts the machine
    (a failed \<open>ARTOS_ASSERT\<close>, a recorded failure, a NULL dereference), or it loops for
    ever. \<open>res_bind\<close> is sequential composition.
  \<^item> Generic lemmas about words, bitmaps and lists that several components use.
\<close>

section \<open>Machine types and object addresses\<close>

type_synonym u8 = "8 word"
type_synonym u32 = "32 word"

text \<open>\<open>&_task_pool[i]\<close> and \<open>&idle_task\<close>.\<close>

datatype tcb_ref = Pool nat | IdleTask

text \<open>
  The \<open>rtos_list_t\<close> objects: \<open>_ready_l[p]\<close>, \<open>_delayed_l\<close>, \<open>_delayed_overflow_l\<close>,
  \<open>_suspend_l\<close>, and the wait lists embedded in semaphore, queue and mutex control blocks.
\<close>

datatype list_ref =
  ReadyL nat | DelayedL | DelayedOverflowL | SuspendL
| SemWaitL nat | QueueReadL nat | QueueWriteL nat | MutexLockL nat

text \<open>
  The \<open>rtos_list_item_t\<close> objects: \<open>&list->sentinel\<close>, \<open>&tcb->state_item\<close>,
  \<open>&tcb->event_item\<close>.
\<close>

datatype item_ref = Sentinel list_ref | StateItem tcb_ref | EventItem tcb_ref

fun is_sentinel :: "item_ref \<Rightarrow> bool" where
  "is_sentinel (Sentinel l) = True"
| "is_sentinel (StateItem t) = False"
| "is_sentinel (EventItem t) = False"

text \<open>The wait list of a synchronisation object, as opposed to a list of the scheduler.\<close>

fun is_wait_list :: "list_ref \<Rightarrow> bool" where
  "is_wait_list (SemWaitL n) = True"
| "is_wait_list (QueueReadL n) = True"
| "is_wait_list (QueueWriteL n) = True"
| "is_wait_list (MutexLockL n) = True"
| "is_wait_list (ReadyL p) = False"
| "is_wait_list DelayedL = False"
| "is_wait_list DelayedOverflowL = False"
| "is_wait_list SuspendL = False"

section \<open>Outcomes\<close>

datatype src_file = LIST_C | TASKS_C | QUEUE_C | MUTEX_C

text \<open>\<open>artos_failure_reason_t\<close> of \<open>diagnostics.h\<close>.\<close>

datatype artos_failure_reason =
  ARTOS_FAILURE_NONE
| ARTOS_FAILURE_ASSERT
| ARTOS_FAILURE_TASK_RETURN
| ARTOS_FAILURE_STACK_OVERFLOW
| ARTOS_FAILURE_SCHEDULER_CORRUPTION
| ARTOS_FAILURE_PORT_FAULT

text \<open>
  Why the machine stopped: \<open>rtos_record_failure(reason, file, line)\<close> (file NULL is
  \<open>None\<close>), or a load or store through a NULL pointer, which C leaves undefined.
\<close>

datatype halt_cause =
  Failure artos_failure_reason "src_file option" nat
| NullDeref

datatype ('a, 's) res = Ret 'a | Halt halt_cause 's | Loops

fun res_bind :: "('a, 's) res \<Rightarrow> ('a \<Rightarrow> ('b, 's) res) \<Rightarrow> ('b, 's) res" where
  "res_bind (Ret a) f = f a"
| "res_bind (Halt c s) f = Halt c s"
| "res_bind Loops f = Loops"

text \<open>
  The \<open>ARTOS_ASSERT\<close>s of a function, in source order, with their line numbers
  (\<open>ARTOS_ENABLE_ASSERTS\<close> is 1). The first condition that fails halts the machine.
\<close>

fun asserts :: "src_file \<Rightarrow> (nat \<times> bool) list \<Rightarrow> 's \<Rightarrow> ('a, 's) res \<Rightarrow> ('a, 's) res" where
  "asserts f [] s k = k"
| "asserts f ((line, c) # cs) s k =
     (if c then asserts f cs s k else Halt (Failure ARTOS_FAILURE_ASSERT (Some f) line) s)"

text \<open>Dereferencing a pointer the source does not test.\<close>

fun deref :: "'p option \<Rightarrow> 's \<Rightarrow> ('p \<Rightarrow> ('a, 's) res) \<Rightarrow> ('a, 's) res" where
  "deref None s k = Halt NullDeref s"
| "deref (Some p) s k = k p"

fun returns :: "('a, 's) res \<Rightarrow> bool" where
  "returns (Ret a) = True"
| "returns (Halt c s) = False"
| "returns Loops = False"

lemma res_bind_eq_Ret:
  "res_bind r f = Ret b \<longleftrightarrow> (\<exists>a. r = Ret a \<and> f a = Ret b)"
  by (cases r) auto

lemma res_bind_assoc [simp]: "res_bind (res_bind r f) g = res_bind r (\<lambda>a. res_bind (f a) g)"
  by (cases r) auto

lemma asserts_all: "list_all snd cs \<Longrightarrow> asserts f cs s k = k"
  by (induction cs) auto

lemma asserts_eq_Ret: "asserts f cs s k = Ret a \<longleftrightarrow> list_all snd cs \<and> k = Ret a"
  by (induction cs) (auto split: if_splits)

lemma returns_iff: "returns r \<longleftrightarrow> (\<exists>a. r = Ret a)"
  by (cases r) auto

section \<open>Words\<close>

lemma of_nat_u32_eq_0: "n < 2 ^ 32 \<Longrightarrow> (of_nat n :: u32) = 0 \<longleftrightarrow> n = 0"
  by (auto simp: word_of_nat_eq_0_iff dest: nat_dvd_not_less[rotated])

lemma u32_bound: "unat (n :: u32) < 2 ^ 32"
  by (rule order_less_le_trans[OF unsigned_less]) simp

text \<open>Ready-bitmap updates; \<open>0x1U << p\<close> stays \<open>push_bit p 1\<close>.\<close>

declare push_bit_of_1 [simp del]

lemma bit_set_iff: "p < 32 \<Longrightarrow> bit ((b :: u32) OR push_bit p 1) q \<longleftrightarrow> bit b q \<or> q = p"
  by (auto simp: bit_simps)

lemma bit_clear_iff: "bit ((b :: u32) AND NOT (push_bit p 1)) q \<longleftrightarrow> bit b q \<and> q \<noteq> p"
  by (auto simp: bit_simps dest: bit_imp_le_length)

lemma bit_test_iff: "p < 32 \<Longrightarrow> ((b :: u32) AND push_bit p 1 \<noteq> 0) \<longleftrightarrow> bit b p"
  by (simp add: and_exp_eq_0_iff_not_bit push_bit_of_1)

end
