(* ===== verification/Rtos_List.thy ===== *)
theory Rtos_List
  imports Prelude
begin

text \<open>
  The intrusive doubly linked lists of \<open>src/rtos/list.h\<close> and \<open>src/rtos/list.c\<close>, on an
  explicit store of list items. Every field write of the C code is one store update.
\<close>

section \<open>The store of list items\<close>

record rtos_list_item =
  item_value :: u32
  item_prev :: "item_ref option"
  item_next :: "item_ref option"
  item_owner :: "tcb_ref option"
  item_container :: "list_ref option"

text \<open>
  \<open>items\<close> holds every \<open>rtos_list_item_t\<close>, sentinels included; \<open>counts l\<close> is the
  \<open>count\<close> field of the \<open>rtos_list_t\<close> at \<open>l\<close>.
\<close>

record list_mem =
  items :: "item_ref \<Rightarrow> rtos_list_item"
  counts :: "list_ref \<Rightarrow> u32"

type_synonym list_res = "(list_mem, list_mem) res"

text \<open>An all-zero item: static storage at boot, and the \<open>(rtos_tcb_t){0}\<close> of \<open>rtos_system_init\<close>.\<close>

definition zero_item :: rtos_list_item where
  "zero_item = \<lparr>item_value = 0, item_prev = None, item_next = None, item_owner = None, item_container = None\<rparr>"

definition zero_list_mem :: list_mem where
  "zero_list_mem = \<lparr>items = (\<lambda>_. zero_item), counts = (\<lambda>_. 0)\<rparr>"

definition upd_item :: "item_ref \<Rightarrow> (rtos_list_item \<Rightarrow> rtos_list_item) \<Rightarrow> list_mem \<Rightarrow> list_mem" where
  "upd_item i f m = m\<lparr>items := (items m)(i := f (items m i))\<rparr>"

definition set_value :: "item_ref \<Rightarrow> u32 \<Rightarrow> list_mem \<Rightarrow> list_mem" where
  "set_value i v = upd_item i (\<lambda>x. x\<lparr>item_value := v\<rparr>)"

definition set_prev :: "item_ref \<Rightarrow> item_ref option \<Rightarrow> list_mem \<Rightarrow> list_mem" where
  "set_prev i p = upd_item i (\<lambda>x. x\<lparr>item_prev := p\<rparr>)"

definition set_next :: "item_ref \<Rightarrow> item_ref option \<Rightarrow> list_mem \<Rightarrow> list_mem" where
  "set_next i p = upd_item i (\<lambda>x. x\<lparr>item_next := p\<rparr>)"

definition set_owner :: "item_ref \<Rightarrow> tcb_ref option \<Rightarrow> list_mem \<Rightarrow> list_mem" where
  "set_owner i t = upd_item i (\<lambda>x. x\<lparr>item_owner := t\<rparr>)"

definition set_container :: "item_ref \<Rightarrow> list_ref option \<Rightarrow> list_mem \<Rightarrow> list_mem" where
  "set_container i l = upd_item i (\<lambda>x. x\<lparr>item_container := l\<rparr>)"

definition set_count :: "list_ref \<Rightarrow> u32 \<Rightarrow> list_mem \<Rightarrow> list_mem" where
  "set_count l n m = m\<lparr>counts := (counts m)(l := n)\<rparr>"

section \<open>The operations of list.c\<close>

definition rtos_init_list :: "list_ref option \<Rightarrow> list_mem \<Rightarrow> list_mem" where
  "rtos_init_list list m =
     (case list of None \<Rightarrow> m
      | Some l \<Rightarrow>
          (let m = set_count l 0 m;
               m = set_value (Sentinel l) 0 m;
               m = set_next (Sentinel l) (Some (Sentinel l)) m;
               m = set_prev (Sentinel l) (Some (Sentinel l)) m;
               m = set_owner (Sentinel l) None m
           in set_container (Sentinel l) (Some l) m))"

definition rtos_init_list_item :: "item_ref option \<Rightarrow> tcb_ref option \<Rightarrow> list_mem \<Rightarrow> list_mem" where
  "rtos_init_list_item item owner m =
     (case item of None \<Rightarrow> m
      | Some i \<Rightarrow>
          (if owner = None then m
           else let m = set_container i None m;
                    m = set_value i 0 m;
                    m = set_next i None m;
                    m = set_prev i None m
                in set_owner i owner m))"

definition rtos_list_append :: "item_ref option \<Rightarrow> item_ref option \<Rightarrow> list_mem \<Rightarrow> list_res" where
  "rtos_list_append dst item m =
     asserts LIST_C
       [(30, item \<noteq> None),
        (31, item_container (items m (the item)) = None),
        (32, item_owner (items m (the item)) \<noteq> None),
        (34, dst \<noteq> None),
        (35, item_container (items m (the dst)) \<noteq> None),
        (36, item_next (items m (the dst)) \<noteq> None),
        (37, item_prev (items m (the (item_next (items m (the dst))))) = dst)] m
     (if dst = None \<or> item = None \<or> item_container (items m (the dst)) = None \<or>
         item_container (items m (the item)) \<noteq> None
      then Ret m
      else let d = the dst; i = the item;
               next = item_next (items m d);
               m = set_next d (Some i) m;
               m = set_prev i (Some d) m;
               m = set_next i next m
           in deref next m (\<lambda>n.
              let m = set_prev n (Some i) m;
                  m = set_container i (item_container (items m d)) m
              in deref (item_container (items m d)) m (\<lambda>l.
                 Ret (set_count l (counts m l + 1) m))))"

definition rtos_list_prepend :: "item_ref option \<Rightarrow> item_ref option \<Rightarrow> list_mem \<Rightarrow> list_res" where
  "rtos_list_prepend dst item m =
     asserts LIST_C
       [(55, item \<noteq> None),
        (56, item_container (items m (the item)) = None),
        (57, item_owner (items m (the item)) \<noteq> None),
        (59, dst \<noteq> None),
        (60, item_container (items m (the dst)) \<noteq> None),
        (61, item_prev (items m (the dst)) \<noteq> None),
        (62, item_next (items m (the (item_prev (items m (the dst))))) = dst)] m
     (if dst = None \<or> item = None \<or> item_container (items m (the dst)) = None \<or>
         item_container (items m (the item)) \<noteq> None
      then Ret m
      else let d = the dst; i = the item;
               prev = item_prev (items m d);
               m = set_prev d (Some i) m;
               m = set_next i (Some d) m;
               m = set_prev i prev m
           in deref prev m (\<lambda>p.
              let m = set_next p (Some i) m;
                  m = set_container i (item_container (items m d)) m
              in deref (item_container (items m d)) m (\<lambda>l.
                 Ret (set_count l (counts m l + 1) m))))"

definition rtos_list_remove :: "item_ref option \<Rightarrow> list_mem \<Rightarrow> list_res" where
  "rtos_list_remove item m =
     asserts LIST_C
       [(80, item \<noteq> None),
        (81, item_container (items m (the item)) \<noteq> None),
        (82, item_next (items m (the item)) \<noteq> None),
        (83, item_prev (items m (the item)) \<noteq> None),
        (84, item_prev (items m (the (item_next (items m (the item))))) = item),
        (85, item_next (items m (the (item_prev (items m (the item))))) = item),
        (86, counts m (the (item_container (items m (the item)))) > 0),
        (87, Some (Sentinel (the (item_container (items m (the item))))) \<noteq> item)] m
     (if item = None \<or> item_container (items m (the item)) = None \<or>
         item_next (items m (the item)) = None \<or> item_prev (items m (the item)) = None \<or>
         Some (Sentinel (the (item_container (items m (the item))))) = item
      then Ret m
      else let i = the item;
               p = the (item_prev (items m i));
               n = the (item_next (items m i));
               m = set_next p (Some n) m;
               m = set_prev n (Some p) m
           in deref (item_container (items m i)) m (\<lambda>l.
              let m = set_count l (counts m l - 1) m;
                  m = set_container i None m;
                  m = set_next i None m
              in Ret (set_prev i None m)))"

definition rtos_list_insert_end :: "list_ref option \<Rightarrow> item_ref option \<Rightarrow> list_mem \<Rightarrow> list_res" where
  "rtos_list_insert_end list item m =
     (case list of None \<Rightarrow> Ret m
      | Some l \<Rightarrow> rtos_list_prepend (Some (Sentinel l)) item m)"

text \<open>
  The search loop of \<open>rtos_list_insert_sorted\<close>: \<open>None\<close> if it does not end,
  \<open>Some None\<close> if it dereferences a NULL \<open>current\<close>, otherwise where it stops.
\<close>

partial_function (option) sorted_search ::
    "list_mem \<Rightarrow> list_ref \<Rightarrow> u32 \<Rightarrow> item_ref option \<Rightarrow> item_ref option option" where
  "sorted_search m l v current =
     (if current = Some (Sentinel l) then Some current
      else case current of None \<Rightarrow> Some None
      | Some c \<Rightarrow> (if item_value (items m c) \<le> v
                    then sorted_search m l v (item_next (items m c))
                    else Some (Some c)))"

definition rtos_list_insert_sorted :: "list_ref option \<Rightarrow> item_ref option \<Rightarrow> list_mem \<Rightarrow> list_res" where
  "rtos_list_insert_sorted list item m =
     asserts LIST_C
       [(111, item \<noteq> None),
        (112, item_container (items m (the item)) = None),
        (113, item_owner (items m (the item)) \<noteq> None)] m
     (if list = None \<or> item = None \<or>
         item_next (items m (Sentinel (the list))) = None \<or>
         item_prev (items m (Sentinel (the list))) = None \<or>
         item_container (items m (the item)) \<noteq> None
      then Ret m
      else case sorted_search m (the list) (item_value (items m (the item)))
                  (item_next (items m (Sentinel (the list)))) of
             None \<Rightarrow> Loops
           | Some current \<Rightarrow> deref current m (\<lambda>c. rtos_list_prepend (Some c) item m))"

partial_function (option) reversed_search ::
    "list_mem \<Rightarrow> list_ref \<Rightarrow> u32 \<Rightarrow> item_ref option \<Rightarrow> item_ref option option" where
  "reversed_search m l v current =
     (if current = Some (Sentinel l) then Some current
      else case current of None \<Rightarrow> Some None
      | Some c \<Rightarrow> (if v > item_value (items m c)
                    then reversed_search m l v (item_prev (items m c))
                    else Some (Some c)))"

definition rtos_list_insert_reversed_sorted ::
    "list_ref option \<Rightarrow> item_ref option \<Rightarrow> list_mem \<Rightarrow> list_res" where
  "rtos_list_insert_reversed_sorted list item m =
     asserts LIST_C
       [(129, item \<noteq> None),
        (130, item_container (items m (the item)) = None),
        (131, item_owner (items m (the item)) \<noteq> None)] m
     (if list = None \<or> item = None \<or>
         item_next (items m (Sentinel (the list))) = None \<or>
         item_prev (items m (Sentinel (the list))) = None \<or>
         item_container (items m (the item)) \<noteq> None
      then Ret m
      else case reversed_search m (the list) (item_value (items m (the item)))
                  (item_prev (items m (Sentinel (the list)))) of
             None \<Rightarrow> Loops
           | Some current \<Rightarrow> deref current m (\<lambda>c. rtos_list_append (Some c) item m))"

section \<open>Representation of a list in the store\<close>

abbreviation val :: "list_mem \<Rightarrow> item_ref \<Rightarrow> u32" where "val m i \<equiv> item_value (items m i)"
abbreviation prv :: "list_mem \<Rightarrow> item_ref \<Rightarrow> item_ref option" where "prv m i \<equiv> item_prev (items m i)"
abbreviation nxt :: "list_mem \<Rightarrow> item_ref \<Rightarrow> item_ref option" where "nxt m i \<equiv> item_next (items m i)"
abbreviation own :: "list_mem \<Rightarrow> item_ref \<Rightarrow> tcb_ref option" where "own m i \<equiv> item_owner (items m i)"
abbreviation cont :: "list_mem \<Rightarrow> item_ref \<Rightarrow> list_ref option" where "cont m i \<equiv> item_container (items m i)"

lemmas store_defs =
  upd_item_def set_value_def set_prev_def set_next_def set_owner_def set_container_def set_count_def

text \<open>Consecutive items point at each other, forwards and backwards.\<close>

fun linked :: "list_mem \<Rightarrow> item_ref list \<Rightarrow> bool" where
  "linked m [] = True"
| "linked m [a] = True"
| "linked m (a # b # zs) \<longleftrightarrow> nxt m a = Some b \<and> prv m b = Some a \<and> linked m (b # zs)"

definition dll :: "list_mem \<Rightarrow> list_ref \<Rightarrow> item_ref list \<Rightarrow> bool" where
  "dll m l xs \<longleftrightarrow>
     linked m (Sentinel l # xs @ [Sentinel l]) \<and> distinct xs \<and>
     (\<forall>i \<in> set xs. \<not> is_sentinel i \<and> cont m i = Some l \<and> own m i \<noteq> None) \<and>
     cont m (Sentinel l) = Some l \<and> counts m l = of_nat (length xs)"

type_synonym list_view = "list_ref \<rightharpoonup> item_ref list"

definition lists_wf :: "list_mem \<Rightarrow> list_view \<Rightarrow> bool" where
  "lists_wf m C \<longleftrightarrow>
     (\<forall>l xs. C l = Some xs \<longrightarrow> dll m l xs) \<and>
     (\<forall>i l. \<not> is_sentinel i \<longrightarrow> cont m i = Some l \<longrightarrow> (\<exists>xs. C l = Some xs \<and> i \<in> set xs))"

lemma linked_append:
  "linked m (ys @ a # zs) \<longleftrightarrow> linked m (ys @ [a]) \<and> linked m (a # zs)"
  by (induction ys rule: linked.induct) auto

lemma linked_cong:
  assumes "\<And>i. i \<in> set (butlast zs) \<Longrightarrow> nxt m' i = nxt m i"
    and "\<And>i. i \<in> set (tl zs) \<Longrightarrow> prv m' i = prv m i"
  shows "linked m' zs = linked m zs"
  using assms by (induction zs rule: linked.induct[of _ m]) (auto split: if_splits)

text \<open>The store after splicing item \<open>i\<close> between the neighbours \<open>a\<close> and \<open>b\<close> of list \<open>l\<close>.\<close>

definition link_in :: "item_ref \<Rightarrow> item_ref \<Rightarrow> item_ref \<Rightarrow> list_ref \<Rightarrow> list_mem \<Rightarrow> list_mem" where
  "link_in a i b l m = m\<lparr>
     items := (\<lambda>j. if j = i then (items m i)\<lparr>item_prev := Some a, item_next := Some b, item_container := Some l\<rparr>
                   else (items m j)\<lparr>item_next := (if j = a then Some i else nxt m j),
                                    item_prev := (if j = b then Some i else prv m j)\<rparr>),
     counts := (counts m)(l := counts m l + 1)\<rparr>"

definition link_out :: "item_ref \<Rightarrow> item_ref \<Rightarrow> item_ref \<Rightarrow> list_ref \<Rightarrow> list_mem \<Rightarrow> list_mem" where
  "link_out a i b l m = m\<lparr>
     items := (\<lambda>j. if j = i then (items m i)\<lparr>item_prev := None, item_next := None, item_container := None\<rparr>
                   else (items m j)\<lparr>item_next := (if j = a then Some b else nxt m j),
                                    item_prev := (if j = b then Some a else prv m j)\<rparr>),
     counts := (counts m)(l := counts m l - 1)\<rparr>"

lemma link_in_fields [simp]:
  "val (link_in a i b l m) j = val m j"
  "own (link_in a i b l m) j = own m j"
  "cont (link_in a i b l m) j = (if j = i then Some l else cont m j)"
  "counts (link_in a i b l m) = (counts m)(l := counts m l + 1)"
  "nxt (link_in a i b l m) j = (if j = i then Some b else if j = a then Some i else nxt m j)"
  "prv (link_in a i b l m) j = (if j = i then Some a else if j = b then Some i else prv m j)"
  by (auto simp: link_in_def)

lemma link_out_fields [simp]:
  "val (link_out a i b l m) j = val m j"
  "own (link_out a i b l m) j = own m j"
  "cont (link_out a i b l m) j = (if j = i then None else cont m j)"
  "counts (link_out a i b l m) = (counts m)(l := counts m l - 1)"
  "nxt (link_out a i b l m) j = (if j = i then None else if j = a then Some b else nxt m j)"
  "prv (link_out a i b l m) j = (if j = i then None else if j = b then Some a else prv m j)"
  by (auto simp: link_out_def)

lemma rtos_list_prepend_link_in:
  assumes "prv m b = Some a" "nxt m a = Some b" "cont m b = Some l" "cont m a = Some l"
    and "cont m i = None" "own m i \<noteq> None"
  shows "rtos_list_prepend (Some b) (Some i) m = Ret (link_in a i b l m)"
proof -
  have "i \<noteq> a" "i \<noteq> b" using assms by auto
  with assms show ?thesis
    by (auto simp: rtos_list_prepend_def Let_def store_defs link_in_def fun_eq_iff)
qed

lemma rtos_list_append_link_in:
  assumes "prv m b = Some a" "nxt m a = Some b" "cont m b = Some l" "cont m a = Some l"
    and "cont m i = None" "own m i \<noteq> None"
  shows "rtos_list_append (Some a) (Some i) m = Ret (link_in a i b l m)"
proof -
  have "i \<noteq> a" "i \<noteq> b" using assms by auto
  with assms show ?thesis
    by (auto simp: rtos_list_append_def Let_def store_defs link_in_def fun_eq_iff)
qed

lemma rtos_list_remove_link_out:
  assumes "prv m i = Some a" "nxt m i = Some b" "nxt m a = Some i" "prv m b = Some i"
    and "cont m i = Some l" "counts m l > 0" "\<not> is_sentinel i" "i \<noteq> a" "i \<noteq> b"
  shows "rtos_list_remove (Some i) m = Ret (link_out a i b l m)"
proof -
  have "i \<noteq> Sentinel l" using assms by auto
  with assms show ?thesis
    by (auto simp: rtos_list_remove_def Let_def store_defs link_out_def fun_eq_iff)
qed

lemma dll_no_sentinel: "dll m l xs \<Longrightarrow> Sentinel k \<notin> set xs"
  unfolding dll_def by (metis is_sentinel.simps(1))

lemma in_set_tlD: "x \<in> set (tl xs) \<Longrightarrow> x \<in> set xs"
  by (cases xs) auto

lemma dll_distinct_ends:
  assumes "dll m l (xs @ ys)" "a = last (Sentinel l # xs)" "b = hd (ys @ [Sentinel l])"
  shows "a \<notin> set ys" "b \<notin> set xs" "a \<notin> set (butlast (Sentinel l # xs))" "b \<notin> set (tl (ys @ [Sentinel l]))"
    "cont m a = Some l" "cont m b = Some l"
proof -
  have d: "distinct (Sentinel l # xs)" "distinct (ys @ [Sentinel l])" "set xs \<inter> set ys = {}"
    using assms(1) dll_no_sentinel[OF assms(1)] by (auto simp: dll_def)
  have ys: "Sentinel l \<notin> set ys" "Sentinel l \<notin> set xs" using dll_no_sentinel[OF assms(1)] by auto
  show "a \<notin> set ys" using d ys assms(2) by (cases xs rule: rev_cases) auto
  show "b \<notin> set xs" using d ys assms(3) by (cases ys) auto
  show "a \<notin> set (butlast (Sentinel l # xs))"
    using d(1) assms(2) by (cases xs rule: rev_cases) (auto simp: butlast_append)
  show "b \<notin> set (tl (ys @ [Sentinel l]))" using d(2) assms(3) by (cases ys) auto
  show "cont m a = Some l" using assms(1,2) by (cases xs rule: rev_cases) (auto simp: dll_def)
  show "cont m b = Some l" using assms(1,3) by (cases ys) (auto simp: dll_def)
qed

lemma linked_split:
  assumes "a = last (Sentinel l # xs)" "b = hd (ys @ [Sentinel l])"
  shows "linked m (Sentinel l # xs @ ys @ [Sentinel l]) \<longleftrightarrow>
         linked m (Sentinel l # xs) \<and> nxt m a = Some b \<and> prv m b = Some a \<and> linked m (ys @ [Sentinel l])"
proof -
  obtain P where P: "Sentinel l # xs = P @ [a]"
    using assms(1) by (metis append_butlast_last_id list.discI)
  obtain Q where Q: "ys @ [Sentinel l] = b # Q"
    using assms(2) by (metis append_is_Nil_conv list.collapse not_Cons_self2)
  have "Sentinel l # xs @ ys @ [Sentinel l] = P @ a # b # Q"
    using P Q by (metis append.assoc append_Cons append_Nil)
  then show ?thesis unfolding P Q by (simp only: linked_append[of m P a "b # Q"] linked.simps)
qed

lemma dll_neighbours:
  assumes "dll m l (xs @ ys)" "a = last (Sentinel l # xs)" "b = hd (ys @ [Sentinel l])"
  shows "nxt m a = Some b" "prv m b = Some a"
  using assms linked_split[OF assms(2,3), of m] by (auto simp: dll_def)

lemma linked_split_item:
  assumes "a = last (Sentinel l # xs)" "b = hd (ys @ [Sentinel l])"
  shows "linked m (Sentinel l # xs @ i # ys @ [Sentinel l]) \<longleftrightarrow>
         linked m (Sentinel l # xs) \<and> nxt m a = Some i \<and> prv m i = Some a \<and>
         nxt m i = Some b \<and> prv m b = Some i \<and> linked m (ys @ [Sentinel l])"
proof -
  have "linked m (i # ys @ [Sentinel l]) \<longleftrightarrow>
        nxt m i = Some b \<and> prv m b = Some i \<and> linked m (ys @ [Sentinel l])"
    using assms(2) by (cases ys) auto
  then show ?thesis using linked_split[OF assms(1), of "i" "i # ys" m] by auto
qed

lemma dll_link_in:
  assumes d: "dll m l (xs @ ys)" and a: "a = last (Sentinel l # xs)" and b: "b = hd (ys @ [Sentinel l])"
    and i: "cont m i = None" "own m i \<noteq> None" "\<not> is_sentinel i"
  shows "dll (link_in a i b l m) l (xs @ i # ys)"
proof -
  note e = dll_distinct_ends[OF d a b]
  have ni: "i \<notin> set xs" "i \<notin> set ys" "i \<noteq> Sentinel l" "i \<noteq> a" "i \<noteq> b" using d i e by (auto simp: dll_def)
  let ?m = "link_in a i b l m"
  have 1: "linked ?m (Sentinel l # xs) = linked m (Sentinel l # xs)"
    using e ni by (intro linked_cong) (auto dest: in_set_butlastD simp: if_distrib split: if_splits)
  have 2: "linked ?m (ys @ [Sentinel l]) = linked m (ys @ [Sentinel l])"
    using e ni by (intro linked_cong) (auto dest: in_set_tlD)
  show ?thesis
    using d ni i 1 2 unfolding dll_def
    by (auto simp: linked_split[OF a b] linked_split_item[OF a b])
qed

lemma dll_link_out:
  assumes d: "dll m l (xs @ i # ys)" and a: "a = last (Sentinel l # xs)" and b: "b = hd (ys @ [Sentinel l])"
  shows "dll (link_out a i b l m) l (xs @ ys)"
proof -
  have ni: "i \<notin> set xs" "i \<notin> set ys" "i \<noteq> Sentinel l" "\<not> is_sentinel i" using d by (auto simp: dll_def)
  have dis: "distinct (Sentinel l # xs)" "distinct (ys @ [Sentinel l])" "set xs \<inter> set ys = {}"
     using d dll_no_sentinel[OF d] by (auto simp: dll_def)
  have ab: "a \<notin> set ys" "b \<notin> set xs" "a \<notin> set (butlast (Sentinel l # xs))" "b \<notin> set (tl (ys @ [Sentinel l]))"
    using dis a b by (cases xs rule: rev_cases; cases ys; auto simp: butlast_append)+
  let ?m = "link_out a i b l m"
  have 1: "linked ?m (Sentinel l # xs) = linked m (Sentinel l # xs)"
    using ab ni by (intro linked_cong) (auto dest: in_set_butlastD simp: if_distrib split: if_splits)
  have 2: "linked ?m (ys @ [Sentinel l]) = linked m (ys @ [Sentinel l])"
    using ab ni by (intro linked_cong) (auto dest: in_set_tlD)
  have nab: "a \<noteq> i" "b \<noteq> i" using ni a b by (cases xs rule: rev_cases; cases ys; auto)+
  show ?thesis
    using d ni nab 1 2 unfolding dll_def
    by (auto simp: linked_split[OF a b] linked_split_item[OF a b])
qed

section \<open>Every live list at once\<close>

text \<open>The data of items that list operations never touch.\<close>

definition same_data :: "list_mem \<Rightarrow> list_mem \<Rightarrow> bool" where
  "same_data m m' \<longleftrightarrow> (\<forall>j. val m' j = val m j \<and> own m' j = own m j)"

lemma same_data_refl [simp]: "same_data m m"
  by (simp add: same_data_def)

lemma same_data_trans [trans]: "same_data m m' \<Longrightarrow> same_data m' m'' \<Longrightarrow> same_data m m''"
  by (simp add: same_data_def)

lemma same_data_link [simp]: "same_data m (link_in a i b l m)" "same_data m (link_out a i b l m)"
  by (auto simp: same_data_def)

lemma lists_wf_dll: "lists_wf m C \<Longrightarrow> C l = Some xs \<Longrightarrow> dll m l xs"
  by (simp add: lists_wf_def)

lemma lists_wf_container: "lists_wf m C \<Longrightarrow> C l = Some xs \<Longrightarrow> i \<in> set xs \<Longrightarrow> cont m i = Some l"
  by (auto simp: lists_wf_def dll_def)

lemma lists_wf_node: "lists_wf m C \<Longrightarrow> C l = Some xs \<Longrightarrow> i \<in> set xs \<Longrightarrow> \<not> is_sentinel i \<and> own m i \<noteq> None"
  by (simp add: lists_wf_def dll_def)

lemma lists_wf_distinct: "lists_wf m C \<Longrightarrow> C l = Some xs \<Longrightarrow> distinct xs"
  by (auto simp: lists_wf_def dll_def)

lemma lists_wf_mem:
  "lists_wf m C \<Longrightarrow> \<not> is_sentinel i \<Longrightarrow> cont m i = Some l \<Longrightarrow> \<exists>xs. C l = Some xs \<and> i \<in> set xs"
  by (simp add: lists_wf_def)

lemma lists_wf_container_iff:
  "lists_wf m C \<Longrightarrow> C l = Some xs \<Longrightarrow> \<not> is_sentinel i \<Longrightarrow> cont m i = Some l \<longleftrightarrow> i \<in> set xs"
  using lists_wf_container lists_wf_mem by fastforce

lemma lists_wf_count: "lists_wf m C \<Longrightarrow> C l = Some xs \<Longrightarrow> counts m l = of_nat (length xs)"
  by (auto simp: lists_wf_def dll_def)

lemma dll_first: "dll m l xs \<Longrightarrow> nxt m (Sentinel l) = Some (hd (xs @ [Sentinel l]))"
  by (cases xs) (auto simp: dll_def)

lemma dll_last: "dll m l xs \<Longrightarrow> prv m (Sentinel l) = Some (last (Sentinel l # xs))"
  using dll_neighbours[of m l xs "[]"] by simp

lemma lists_wf_first: "lists_wf m C \<Longrightarrow> C l = Some xs \<Longrightarrow> nxt m (Sentinel l) = Some (hd (xs @ [Sentinel l]))"
  by (rule dll_first) (rule lists_wf_dll)

lemma dll_other_list:
  assumes "dll m k zs" "k \<noteq> l" "cont m a = Some l" "cont m b = Some l" "cont m i \<noteq> Some k"
  shows "dll (link_in a i b l m) k zs" "dll (link_out a i b l m) k zs"
proof -
  have n: "a \<notin> set (Sentinel k # zs @ [Sentinel k])" "b \<notin> set (Sentinel k # zs @ [Sentinel k])"
    "i \<notin> set (Sentinel k # zs @ [Sentinel k])"
    using assms by (auto simp: dll_def)
  have "linked (link_in a i b l m) (Sentinel k # zs @ [Sentinel k]) = linked m (Sentinel k # zs @ [Sentinel k])"
    using n by (intro linked_cong) (auto dest: in_set_butlastD in_set_tlD simp: if_distrib split: if_splits)
  moreover have "linked (link_out a i b l m) (Sentinel k # zs @ [Sentinel k]) = linked m (Sentinel k # zs @ [Sentinel k])"
    using n by (intro linked_cong) (auto dest: in_set_butlastD in_set_tlD simp: if_distrib split: if_splits)
  ultimately show "dll (link_in a i b l m) k zs" "dll (link_out a i b l m) k zs"
    using assms n unfolding dll_def by auto
qed

lemma lists_wf_link_in:
  assumes wf: "lists_wf m C" and l: "C l = Some (xs @ ys)"
    and i: "cont m i = None" "own m i \<noteq> None" "\<not> is_sentinel i"
    and a: "a = last (Sentinel l # xs)" and b: "b = hd (ys @ [Sentinel l])"
  shows "lists_wf (link_in a i b l m) (C(l \<mapsto> xs @ i # ys))"
proof -
  note d = lists_wf_dll[OF wf l]
  note e = dll_distinct_ends[OF d a b]
  have "dll (link_in a i b l m) k zs" if "(C(l \<mapsto> xs @ i # ys)) k = Some zs" for k zs
    using that dll_link_in[OF d a b i] dll_other_list(1)[OF lists_wf_dll[OF wf] _ e(5,6)] i
    by (cases "k = l") auto
  moreover have "\<exists>zs. (C(l \<mapsto> xs @ i # ys)) k = Some zs \<and> j \<in> set zs"
    if "\<not> is_sentinel j" "cont (link_in a i b l m) j = Some k" for j k
    using that lists_wf_mem[OF wf that(1)] l by (force split: if_splits)
  ultimately show ?thesis unfolding lists_wf_def by blast
qed

lemma lists_wf_link_out:
  assumes wf: "lists_wf m C" and l: "C l = Some (xs @ i # ys)"
    and a: "a = last (Sentinel l # xs)" and b: "b = hd (ys @ [Sentinel l])"
  shows "lists_wf (link_out a i b l m) (C(l \<mapsto> xs @ ys))"
proof -
  note d = lists_wf_dll[OF wf l]
  have e: "cont m a = Some l" "cont m b = Some l" "cont m i = Some l"
    using d a b by (cases xs rule: rev_cases; cases ys; auto simp: dll_def)+
  have "dll (link_out a i b l m) k zs" if "(C(l \<mapsto> xs @ ys)) k = Some zs" for k zs
    using that dll_link_out[OF d a b] dll_other_list(2)[OF lists_wf_dll[OF wf] _ e(1,2)] e(3)
    by (cases "k = l") auto
  moreover have "\<exists>zs. (C(l \<mapsto> xs @ ys)) k = Some zs \<and> j \<in> set zs"
    if "\<not> is_sentinel j" "cont (link_out a i b l m) j = Some k" for j k
    using that lists_wf_mem[OF wf that(1)] l by (force split: if_splits)
  ultimately show ?thesis unfolding lists_wf_def by blast
qed

subsection \<open>What each operation does to the live lists\<close>

text \<open>The abstract insertions: after every item with a value not above, before every item with a smaller value.\<close>

definition ins_sorted :: "(item_ref \<Rightarrow> u32) \<Rightarrow> item_ref \<Rightarrow> item_ref list \<Rightarrow> item_ref list" where
  "ins_sorted f i xs = takeWhile (\<lambda>j. f j \<le> f i) xs @ i # dropWhile (\<lambda>j. f j \<le> f i) xs"

definition ins_reversed :: "(item_ref \<Rightarrow> u32) \<Rightarrow> item_ref \<Rightarrow> item_ref list \<Rightarrow> item_ref list" where
  "ins_reversed f i xs =
     rev (dropWhile (\<lambda>j. f j < f i) (rev xs)) @ i # rev (takeWhile (\<lambda>j. f j < f i) (rev xs))"

lemma insert_before:
  assumes wf: "lists_wf m C" and l: "C l = Some (xs @ ys)"
    and i: "cont m i = None" "own m i \<noteq> None" "\<not> is_sentinel i"
  shows "\<exists>m'. rtos_list_prepend (Some (hd (ys @ [Sentinel l]))) (Some i) m = Ret m' \<and>
              rtos_list_append (Some (last (Sentinel l # xs))) (Some i) m = Ret m' \<and>
              lists_wf m' (C(l \<mapsto> xs @ i # ys)) \<and> same_data m m'"
proof -
  note d = lists_wf_dll[OF wf l]
  note n = dll_neighbours[OF d refl refl] and e = dll_distinct_ends[OF d refl refl]
  show ?thesis
    using rtos_list_prepend_link_in[OF n(2,1) e(6,5) i(1,2)] rtos_list_append_link_in[OF n(2,1) e(6,5) i(1,2)]
      lists_wf_link_in[OF wf l i refl refl] by auto
qed

lemma insert_end_law:
  assumes "lists_wf m C" "C l = Some xs" "cont m i = None" "own m i \<noteq> None" "\<not> is_sentinel i"
  shows "\<exists>m'. rtos_list_insert_end (Some l) (Some i) m = Ret m' \<and>
              lists_wf m' (C(l \<mapsto> xs @ [i])) \<and> same_data m m'"
  using insert_before[of m C l xs "[]" i] assms by (auto simp: rtos_list_insert_end_def)

lemma sorted_search_finds:
  assumes "linked m (ys @ [Sentinel l])" "Sentinel l \<notin> set ys"
  shows "sorted_search m l v (Some (hd (ys @ [Sentinel l]))) =
         Some (Some (hd (dropWhile (\<lambda>j. val m j \<le> v) ys @ [Sentinel l])))"
  using assms
proof (induction ys)
  case Nil
  then show ?case by (simp add: sorted_search.simps)
next
  case (Cons y ys)
  then have "nxt m y = Some (hd (ys @ [Sentinel l]))" "linked m (ys @ [Sentinel l])"
    by (cases ys; auto)+
  with Cons show ?case by (subst sorted_search.simps) auto
qed

lemma linked_snoc: "linked m (zs @ [a, b]) \<longleftrightarrow> linked m (zs @ [a]) \<and> nxt m a = Some b \<and> prv m b = Some a"
  using linked_append[of m zs a "[b]"] by simp

lemma reversed_search_finds:
  assumes "linked m (Sentinel l # ys)" "Sentinel l \<notin> set ys"
  shows "reversed_search m l v (Some (last (Sentinel l # ys))) =
         Some (Some (last (Sentinel l # rev (dropWhile (\<lambda>j. val m j < v) (rev ys)))))"
  using assms
proof (induction ys rule: rev_induct)
  case Nil
  then show ?case by (simp add: reversed_search.simps)
next
  case (snoc y ys)
  have *: "prv m y = Some (last (Sentinel l # ys)) \<and> linked m (Sentinel l # ys)"
  proof -
    obtain P a where P: "Sentinel l # ys = P @ [a]" by (metis append_butlast_last_id list.discI)
    then have "linked m (P @ [a, y])" using snoc.prems(1) by (metis append_Cons append_Nil append_assoc)
    then show ?thesis unfolding linked_snoc P by simp
  qed
  with snoc show ?case by (subst reversed_search.simps) auto
qed

lemma insert_sorted_law:
  assumes wf: "lists_wf m C" and l: "C l = Some xs"
    and i: "cont m i = None" "own m i \<noteq> None" "\<not> is_sentinel i"
  shows "\<exists>m'. rtos_list_insert_sorted (Some l) (Some i) m = Ret m' \<and>
              lists_wf m' (C(l \<mapsto> ins_sorted (val m) i xs)) \<and> same_data m m'"
proof -
  let ?P = "\<lambda>j. val m j \<le> val m i"
  note d = lists_wf_dll[OF wf l]
  have "sorted_search m l (val m i) (nxt m (Sentinel l)) = Some (Some (hd (dropWhile ?P xs @ [Sentinel l])))"
    using d sorted_search_finds[of m xs l] dll_no_sentinel[OF d] linked_split[of "Sentinel l" l "[]" _ xs m]
    by (simp add: dll_first[OF d]) (auto simp: dll_def)
  then have "rtos_list_insert_sorted (Some l) (Some i) m =
             rtos_list_prepend (Some (hd (dropWhile ?P xs @ [Sentinel l]))) (Some i) m"
    using i dll_first[OF d] dll_last[OF d] by (simp add: rtos_list_insert_sorted_def)
  then show ?thesis
    using insert_before[OF wf _ i, of l "takeWhile ?P xs" "dropWhile ?P xs"] l by (auto simp: ins_sorted_def)
qed

lemma insert_reversed_law:
  assumes wf: "lists_wf m C" and l: "C l = Some xs"
    and i: "cont m i = None" "own m i \<noteq> None" "\<not> is_sentinel i"
  shows "\<exists>m'. rtos_list_insert_reversed_sorted (Some l) (Some i) m = Ret m' \<and>
              lists_wf m' (C(l \<mapsto> ins_reversed (val m) i xs)) \<and> same_data m m'"
proof -
  let ?P = "\<lambda>j. val m j < val m i"
  let ?a = "rev (dropWhile ?P (rev xs))" and ?b = "rev (takeWhile ?P (rev xs))"
  note d = lists_wf_dll[OF wf l]
  have xs: "xs = ?a @ ?b" by (metis rev_append rev_rev_ident takeWhile_dropWhile_id)
  have "reversed_search m l (val m i) (prv m (Sentinel l)) = Some (Some (last (Sentinel l # ?a)))"
    using d reversed_search_finds[of m l xs] dll_no_sentinel[OF d] linked_split[of _ l xs "Sentinel l" "[]" m]
    unfolding dll_last[OF d] by (auto simp: dll_def)
  then have "rtos_list_insert_reversed_sorted (Some l) (Some i) m =
             rtos_list_append (Some (last (Sentinel l # ?a))) (Some i) m"
    using i dll_first[OF d] dll_last[OF d] by (simp add: rtos_list_insert_reversed_sorted_def)
  moreover have "C l = Some (?a @ ?b)" using l xs by simp
  ultimately show ?thesis
    unfolding ins_reversed_def using insert_before[OF wf _ i, of l ?a ?b] by metis
qed

lemma remove_law:
  assumes wf: "lists_wf m C" and l: "C l = Some xs" and i: "i \<in> set xs" and len: "length xs < 2 ^ 32"
  shows "\<exists>m'. rtos_list_remove (Some i) m = Ret m' \<and>
              lists_wf m' (C(l \<mapsto> remove1 i xs)) \<and> same_data m m' \<and> cont m' i = None"
proof -
  obtain ys zs where xs: "xs = ys @ i # zs" "i \<notin> set ys" using i by (meson split_list_first)
  define a b where "a = last (Sentinel l # ys)" and "b = hd (zs @ [Sentinel l])"
  note d = lists_wf_dll[OF wf l, unfolded xs]
  have n: "nxt m a = Some i" "prv m i = Some a" "nxt m i = Some b" "prv m b = Some i"
    using d linked_split_item[OF a_def b_def, of m i] by (auto simp: dll_def)
  have "i \<noteq> a" "i \<noteq> b"
    using d unfolding a_def b_def by (cases ys rule: rev_cases; cases zs; auto simp: dll_def)+
  moreover have "counts m l > 0"
    using lists_wf_count[OF wf l] of_nat_u32_eq_0[OF len] i by (auto simp: word_gt_0)
  ultimately have "rtos_list_remove (Some i) m = Ret (link_out a i b l m)"
    using d n by (intro rtos_list_remove_link_out) (auto simp: dll_def)
  moreover have "remove1 i xs = ys @ zs" using xs by (simp add: remove1_append)
  ultimately show ?thesis
    using lists_wf_link_out[OF wf l[unfolded xs] a_def b_def] by auto
qed

subsection \<open>Initialisation and field writes\<close>

lemma linked_same_links:
  "(\<And>j. nxt m' j = nxt m j) \<Longrightarrow> (\<And>j. prv m' j = prv m j) \<Longrightarrow> linked m' zs = linked m zs"
  by (rule linked_cong) auto

lemma lists_wf_set_value [simp]: "lists_wf (set_value i v m) C = lists_wf m C"
proof -
  have "linked (set_value i v m) zs = linked m zs" for zs
    by (rule linked_same_links) (auto simp: store_defs)
  moreover have "cont (set_value i v m) j = cont m j" "own (set_value i v m) j = own m j" for j
    by (auto simp: store_defs)
  moreover have "counts (set_value i v m) = counts m" by (simp add: store_defs)
  ultimately show ?thesis by (simp only: lists_wf_def dll_def)
qed

lemma set_value_fields [simp]:
  "val (set_value i v m) j = (if j = i then v else val m j)"
  "own (set_value i v m) j = own m j" "cont (set_value i v m) j = cont m j"
  "nxt (set_value i v m) j = nxt m j" "prv (set_value i v m) j = prv m j"
  "counts (set_value i v m) = counts m"
  by (auto simp: store_defs)

lemma lists_wf_unlisted:
  assumes wf: "lists_wf m C" and i: "\<not> is_sentinel i" "cont m i = None"
    and m': "items m' = (items m)(i := x)" "item_container x = None" "counts m' = counts m"
  shows "lists_wf m' C"
proof -
  have "dll m' l xs" if l: "C l = Some xs" for l xs
  proof -
    note d = lists_wf_dll[OF wf l]
    have n: "i \<notin> set (Sentinel l # xs @ [Sentinel l])" using d i by (auto simp: dll_def)
    then have "linked m' (Sentinel l # xs @ [Sentinel l]) = linked m (Sentinel l # xs @ [Sentinel l])"
      using m' by (intro linked_cong) (auto dest: in_set_butlastD in_set_tlD split: if_splits)
    with d n m' show ?thesis by (auto simp: dll_def)
  qed
  moreover have "cont m' j = cont m j" for j using m' i by auto
  ultimately show ?thesis using wf by (simp add: lists_wf_def)
qed

lemma init_list_item_fields:
  "items (rtos_init_list_item (Some i) (Some t) m) =
     (items m)(i := \<lparr>item_value = 0, item_prev = None, item_next = None, item_owner = Some t, item_container = None\<rparr>)"
  "counts (rtos_init_list_item (Some i) (Some t) m) = counts m"
  by (auto simp: rtos_init_list_item_def store_defs Let_def)

lemma init_list_item_law:
  "lists_wf m C \<Longrightarrow> \<not> is_sentinel i \<Longrightarrow> cont m i = None \<Longrightarrow> lists_wf (rtos_init_list_item (Some i) (Some t) m) C"
  by (rule lists_wf_unlisted[OF _ _ _ init_list_item_fields(1)]) (auto simp: init_list_item_fields)

lemma init_list_fields:
  "items (rtos_init_list (Some l) m) = (items m)(Sentinel l :=
     \<lparr>item_value = 0, item_prev = Some (Sentinel l), item_next = Some (Sentinel l),
      item_owner = None, item_container = Some l\<rparr>)"
  "counts (rtos_init_list (Some l) m) = (counts m)(l := 0)"
  by (auto simp: rtos_init_list_def store_defs Let_def)

lemma init_list_law:
  assumes wf: "lists_wf m C" and l: "C l = None \<or> C l = Some []"
  shows "lists_wf (rtos_init_list (Some l) m) (C(l \<mapsto> []))"
proof -
  let ?m = "rtos_init_list (Some l) m"
  have "dll ?m k xs" if k: "(C(l \<mapsto> [])) k = Some xs" for k xs
  proof (cases "k = l")
    case True
    with k show ?thesis by (auto simp: dll_def init_list_fields)
  next
    case False
    with k have d: "dll m k xs" using lists_wf_dll[OF wf] by auto
    have n: "Sentinel l \<notin> set (Sentinel k # xs @ [Sentinel k])"
      using False dll_no_sentinel[OF d] by auto
    then have "linked ?m (Sentinel k # xs @ [Sentinel k]) = linked m (Sentinel k # xs @ [Sentinel k])"
      by (intro linked_cong) (auto simp: init_list_fields dest: in_set_butlastD in_set_tlD split: if_splits)
    with d n False show ?thesis by (auto simp: dll_def init_list_fields)
  qed
  moreover have "\<exists>xs. (C(l \<mapsto> [])) k = Some xs \<and> j \<in> set xs"
    if "\<not> is_sentinel j" "cont ?m j = Some k" for j k
    using that l lists_wf_mem[OF wf that(1), of k] by (auto simp: init_list_fields split: if_splits)
  ultimately show ?thesis unfolding lists_wf_def by blast
qed

section \<open>Order\<close>

text \<open>Ascending and descending in the item values; the latter is the order of a wait list.\<close>

definition asc :: "(item_ref \<Rightarrow> u32) \<Rightarrow> item_ref list \<Rightarrow> bool" where
  "asc f xs \<longleftrightarrow> sorted_wrt (\<lambda>a b. f a \<le> f b) xs"

definition desc :: "(item_ref \<Rightarrow> u32) \<Rightarrow> item_ref list \<Rightarrow> bool" where
  "desc f xs \<longleftrightarrow> sorted_wrt (\<lambda>a b. f b \<le> f a) xs"

lemma asc_simps [simp]:
  "asc f []" "asc f (x # xs) \<longleftrightarrow> (\<forall>y \<in> set xs. f x \<le> f y) \<and> asc f xs"
  "asc f (xs @ ys) \<longleftrightarrow> asc f xs \<and> asc f ys \<and> (\<forall>x \<in> set xs. \<forall>y \<in> set ys. f x \<le> f y)"
  by (auto simp: asc_def sorted_wrt_append)

lemma desc_simps [simp]:
  "desc f []" "desc f (x # xs) \<longleftrightarrow> (\<forall>y \<in> set xs. f y \<le> f x) \<and> desc f xs"
  "desc f (xs @ ys) \<longleftrightarrow> desc f xs \<and> desc f ys \<and> (\<forall>x \<in> set xs. \<forall>y \<in> set ys. f y \<le> f x)"
  by (auto simp: desc_def sorted_wrt_append)

lemma asc_cong: "(\<And>x. x \<in> set xs \<Longrightarrow> f x = g x) \<Longrightarrow> asc f xs = asc g xs"
  by (induction xs) auto

lemma desc_cong: "(\<And>x. x \<in> set xs \<Longrightarrow> f x = g x) \<Longrightarrow> desc f xs = desc g xs"
  by (induction xs) auto

lemma asc_remove1: "asc f xs \<Longrightarrow> asc f (remove1 i xs)"
  by (induction xs) (auto dest: set_remove1_subset[THEN subsetD])

lemma desc_remove1: "desc f xs \<Longrightarrow> desc f (remove1 i xs)"
  by (induction xs) (auto dest: set_remove1_subset[THEN subsetD])

lemma ins_sorted_split:
  "asc f xs \<Longrightarrow> \<exists>ys zs. xs = ys @ zs \<and> ins_sorted f i xs = ys @ i # zs \<and>
     (\<forall>y \<in> set ys. f y \<le> f i) \<and> (\<forall>z \<in> set zs. f i < f z)"
  unfolding ins_sorted_def
proof (induction xs)
  case (Cons x xs)
  show ?case
  proof (cases "f x \<le> f i")
    case True
    with Cons obtain ys zs where "xs = ys @ zs" "\<forall>y \<in> set ys. f y \<le> f i" "\<forall>z \<in> set zs. f i < f z"
      "takeWhile (\<lambda>j. f j \<le> f i) xs @ i # dropWhile (\<lambda>j. f j \<le> f i) xs = ys @ i # zs" by auto
    with True show ?thesis by (intro exI[of _ "x # ys"] exI[of _ zs]) auto
  next
    case False
    with Cons.prems have "\<forall>z \<in> set (x # xs). f i < f z" by force
    with False show ?thesis by (intro exI[of _ "[]"] exI[of _ "x # xs"]) auto
  qed
qed auto

lemma ins_reversed_split:
  "desc f xs \<Longrightarrow> \<exists>ys zs. xs = ys @ zs \<and> ins_reversed f i xs = ys @ i # zs \<and>
     (\<forall>y \<in> set ys. f i \<le> f y) \<and> (\<forall>z \<in> set zs. f z < f i)"
  unfolding ins_reversed_def
proof (induction xs rule: rev_induct)
  case (snoc x xs)
  show ?case
  proof (cases "f x < f i")
    case True
    with snoc obtain ys zs where "xs = ys @ zs" "\<forall>y \<in> set ys. f i \<le> f y" "\<forall>z \<in> set zs. f z < f i"
      "rev (dropWhile (\<lambda>j. f j < f i) (rev xs)) @ i # rev (takeWhile (\<lambda>j. f j < f i) (rev xs)) = ys @ i # zs"
      by auto
    with True show ?thesis by (intro exI[of _ ys] exI[of _ "zs @ [x]"]) auto
  next
    case False
    with snoc.prems have "\<forall>z \<in> set (xs @ [x]). f i \<le> f z" by force
    with False show ?thesis by (intro exI[of _ "xs @ [x]"] exI[of _ "[]"]) auto
  qed
qed auto

lemma mset_takeWhile_dropWhile: "mset (takeWhile P xs) + mset (dropWhile P xs) = mset xs"
  by (simp flip: mset_append)

lemma mset_ins_sorted [simp]: "mset (ins_sorted f i xs) = add_mset i (mset xs)"
  using mset_takeWhile_dropWhile[of "\<lambda>j. f j \<le> f i" xs] by (simp add: ins_sorted_def)

lemma mset_ins_reversed [simp]: "mset (ins_reversed f i xs) = add_mset i (mset xs)"
  using mset_takeWhile_dropWhile[of "\<lambda>j. f j < f i" "rev xs"] by (simp add: ins_reversed_def add.commute)

lemma set_ins_sorted [simp]: "set (ins_sorted f i xs) = insert i (set xs)"
  using mset_eq_setD[of "ins_sorted f i xs" "i # xs"] by simp

lemma set_ins_reversed [simp]: "set (ins_reversed f i xs) = insert i (set xs)"
  using mset_eq_setD[of "ins_reversed f i xs" "i # xs"] by simp

lemma asc_ins_sorted: "asc f xs \<Longrightarrow> asc f (ins_sorted f i xs)"
  using ins_sorted_split[of f xs i] by (auto simp: order.strict_implies_order)

lemma desc_ins_reversed: "desc f xs \<Longrightarrow> desc f (ins_reversed f i xs)"
  using ins_reversed_split[of f xs i] by (auto simp: order.strict_implies_order)

text \<open>Among equal values, insertion is first come, first served.\<close>

lemma filter_eq_insert:
  assumes "\<forall>z \<in> set zs. f z \<noteq> f i"
  shows "filter (\<lambda>j. f j = v) (ys @ i # zs) = filter (\<lambda>j. f j = v) (ys @ zs) @ (if f i = v then [i] else [])"
  using assms by (cases "f i = v") (auto simp: filter_empty_conv)

lemma ins_sorted_fifo:
  assumes "asc f xs"
  shows "filter (\<lambda>j. f j = v) (ins_sorted f i xs) = filter (\<lambda>j. f j = v) xs @ (if f i = v then [i] else [])"
proof -
  obtain ys zs where "xs = ys @ zs" "ins_sorted f i xs = ys @ i # zs" "\<forall>z \<in> set zs. f i < f z"
    using ins_sorted_split[OF assms, of i] by blast
  then show ?thesis using filter_eq_insert[of zs f i v ys] by force
qed

lemma ins_reversed_fifo:
  assumes "desc f xs"
  shows "filter (\<lambda>j. f j = v) (ins_reversed f i xs) = filter (\<lambda>j. f j = v) xs @ (if f i = v then [i] else [])"
proof -
  obtain ys zs where "xs = ys @ zs" "ins_reversed f i xs = ys @ i # zs" "\<forall>z \<in> set zs. f z < f i"
    using ins_reversed_split[OF assms, of i] by blast
  then show ?thesis using filter_eq_insert[of zs f i v ys] by force
qed

section \<open>The interface the kernel uses\<close>

text \<open>
  What the scheduler and the synchronisation objects rely on: which items a live list
  holds and in which order, never how they are linked. \<open>wf m C\<close> reads: in store \<open>m\<close>
  the live lists are exactly those of \<open>C\<close>, with these contents.
\<close>

locale intrusive_lists =
  fixes wf :: "'m \<Rightarrow> list_view \<Rightarrow> bool"
    and value_of :: "'m \<Rightarrow> item_ref \<Rightarrow> u32"
    and owner_of :: "'m \<Rightarrow> item_ref \<Rightarrow> tcb_ref option"
    and container_of :: "'m \<Rightarrow> item_ref \<Rightarrow> list_ref option"
    and count_of :: "'m \<Rightarrow> list_ref \<Rightarrow> u32"
    and first_of :: "'m \<Rightarrow> list_ref \<Rightarrow> item_ref option"
    and insert_end :: "list_ref option \<Rightarrow> item_ref option \<Rightarrow> 'm \<Rightarrow> ('m, 'm) res"
    and insert_sorted :: "list_ref option \<Rightarrow> item_ref option \<Rightarrow> 'm \<Rightarrow> ('m, 'm) res"
    and insert_reversed :: "list_ref option \<Rightarrow> item_ref option \<Rightarrow> 'm \<Rightarrow> ('m, 'm) res"
    and remove :: "item_ref option \<Rightarrow> 'm \<Rightarrow> ('m, 'm) res"
    and frame :: "'m \<Rightarrow> 'm \<Rightarrow> bool"
  assumes count: "wf m C \<Longrightarrow> C l = Some xs \<Longrightarrow> count_of m l = of_nat (length xs)"
    and first: "wf m C \<Longrightarrow> C l = Some xs \<Longrightarrow> first_of m l = Some (hd (xs @ [Sentinel l]))"
    and dist: "wf m C \<Longrightarrow> C l = Some xs \<Longrightarrow> distinct xs"
    and member: "wf m C \<Longrightarrow> \<not> is_sentinel i \<Longrightarrow>
           container_of m i = Some l \<longleftrightarrow> (\<exists>xs. C l = Some xs \<and> i \<in> set xs)"
    and node: "wf m C \<Longrightarrow> C l = Some xs \<Longrightarrow> i \<in> set xs \<Longrightarrow> \<not> is_sentinel i \<and> owner_of m i \<noteq> None"
    and frame_iff: "frame m m' \<longleftrightarrow> (\<forall>j. value_of m' j = value_of m j \<and> owner_of m' j = owner_of m j)"
    and end_law: "wf m C \<Longrightarrow> C l = Some xs \<Longrightarrow> container_of m i = None \<Longrightarrow> owner_of m i \<noteq> None \<Longrightarrow>
           \<not> is_sentinel i \<Longrightarrow>
           \<exists>m'. insert_end (Some l) (Some i) m = Ret m' \<and> wf m' (C(l \<mapsto> xs @ [i])) \<and> frame m m'"
    and sorted_law: "wf m C \<Longrightarrow> C l = Some xs \<Longrightarrow> container_of m i = None \<Longrightarrow> owner_of m i \<noteq> None \<Longrightarrow>
           \<not> is_sentinel i \<Longrightarrow>
           \<exists>m'. insert_sorted (Some l) (Some i) m = Ret m' \<and>
                wf m' (C(l \<mapsto> ins_sorted (value_of m) i xs)) \<and> frame m m'"
    and reversed_law: "wf m C \<Longrightarrow> C l = Some xs \<Longrightarrow> container_of m i = None \<Longrightarrow> owner_of m i \<noteq> None \<Longrightarrow>
           \<not> is_sentinel i \<Longrightarrow>
           \<exists>m'. insert_reversed (Some l) (Some i) m = Ret m' \<and>
                wf m' (C(l \<mapsto> ins_reversed (value_of m) i xs)) \<and> frame m m'"
    and remove_law: "wf m C \<Longrightarrow> C l = Some xs \<Longrightarrow> i \<in> set xs \<Longrightarrow> length xs < 2 ^ 32 \<Longrightarrow>
           \<exists>m'. remove (Some i) m = Ret m' \<and> wf m' (C(l \<mapsto> remove1 i xs)) \<and> frame m m'"
begin

lemma count_zero_iff:
  "wf m C \<Longrightarrow> C l = Some xs \<Longrightarrow> length xs < 2 ^ 32 \<Longrightarrow> count_of m l = 0 \<longleftrightarrow> xs = []"
  by (simp add: count of_nat_u32_eq_0)

lemma lists_disjoint:
  "wf m C \<Longrightarrow> C l = Some xs \<Longrightarrow> C k = Some ys \<Longrightarrow> i \<in> set xs \<Longrightarrow> i \<in> set ys \<Longrightarrow> k = l"
  by (metis member node option.inject)

lemma container_after_insert:
  assumes "wf m C" "C l = Some xs" "wf m' (C(l \<mapsto> ys))" "set ys = insert i (set xs)" "\<not> is_sentinel j"
  shows "container_of m' j = (if j = i then Some l else container_of m j)"
proof -
  have "container_of m' j = Some k \<longleftrightarrow> (if j = i then Some l else container_of m j) = Some k" for k
  proof (cases "j = i")
    case True
    then have "container_of m' j = Some l" using member[OF assms(3,5), of l] assms(4) by auto
    with True show ?thesis by simp
  next
    case False
    then show ?thesis using member[OF assms(1,5), of k] member[OF assms(3,5), of k] assms(2,4) by auto
  qed
  then show ?thesis by (metis not_Some_eq)
qed

lemma container_after_remove:
  assumes "wf m C" "C l = Some xs" "wf m' (C(l \<mapsto> remove1 i xs))" "i \<in> set xs" "\<not> is_sentinel j"
  shows "container_of m' j = (if j = i then None else container_of m j)"
proof -
  have s: "set (remove1 i xs) = set xs - {i}" using dist[OF assms(1,2)] by simp
  have "container_of m' j = Some k \<longleftrightarrow> (if j = i then None else container_of m j) = Some k" for k
  proof (cases "j = i")
    case True
    then show ?thesis
      using member[OF assms(3,5), of k] lists_disjoint[OF assms(1,2) _ assms(4), of k] assms(4) s
      by (auto split: if_splits)
  next
    case False
    then show ?thesis using member[OF assms(1,5), of k] member[OF assms(3,5), of k] assms(2) s by auto
  qed
  then show ?thesis by (metis not_Some_eq)
qed

lemma pop:
  assumes "wf m C" "C l = Some (x # xs)" "length (x # xs) < 2 ^ 32"
  shows "first_of m l = Some x \<and>
         (\<exists>m'. remove (Some x) m = Ret m' \<and> wf m' (C(l \<mapsto> xs)) \<and> frame m m' \<and> container_of m' x = None)"
  using first[OF assms(1,2)] remove_law[OF assms(1,2) _ assms(3), of x] node[OF assms(1,2), of x]
    container_after_remove[OF assms(1,2), of _ x x] by auto

text \<open>Linking an item in and out again gives the same lists back.\<close>

lemma insert_remove:
  assumes "wf m C" "C l = Some xs" "container_of m i = None" "wf m' (C(l \<mapsto> ys @ i # zs))"
    and "\<not> is_sentinel i" "xs = ys @ zs" "Suc (length xs) < 2 ^ 32"
  shows "\<exists>m''. remove (Some i) m' = Ret m'' \<and> wf m'' C \<and> frame m' m''"
proof -
  have "i \<notin> set ys" using member[OF assms(1,5), of l] assms(2,3,6) by auto
  then have "C(l \<mapsto> ys @ i # zs, l \<mapsto> remove1 i (ys @ i # zs)) = C"
    using assms(2,6) by (auto simp: remove1_append)
  then show ?thesis
    using remove_law[OF assms(4), of l "ys @ i # zs" i] assms(6,7) by auto
qed

end

lemma lists_wf_member_iff:
  "lists_wf m C \<Longrightarrow> \<not> is_sentinel i \<Longrightarrow> cont m i = Some l \<longleftrightarrow> (\<exists>xs. C l = Some xs \<and> i \<in> set xs)"
  using lists_wf_container lists_wf_mem by blast

interpretation rl: intrusive_lists lists_wf val own cont counts "\<lambda>m l. nxt m (Sentinel l)"
  rtos_list_insert_end rtos_list_insert_sorted rtos_list_insert_reversed_sorted rtos_list_remove same_data
proof (unfold_locales, goal_cases)
  case 1 then show ?case by (rule lists_wf_count)
next
  case 2 then show ?case by (rule lists_wf_first)
next
  case 3 then show ?case by (rule lists_wf_distinct)
next
  case 4 then show ?case by (rule lists_wf_member_iff)
next
  case 5 then show ?case by (rule lists_wf_node)
next
  case 6 then show ?case by (rule same_data_def)
next
  case 7 then show ?case by (rule insert_end_law)
next
  case 8 then show ?case by (rule insert_sorted_law)
next
  case 9 then show ?case by (rule insert_reversed_law)
next
  case (10 m C l xs i) then show ?case using remove_law[of m C l xs i] by blast
qed

section \<open>Correctness of list.c\<close>

lemma lists_wf_zero: "lists_wf zero_list_mem Map.empty"
  by (simp add: lists_wf_def zero_list_mem_def zero_item_def)

text \<open>A store with one live list and two initialised, unlisted items of values 7 and 3.\<close>

definition sample_mem :: list_mem where
  "sample_mem =
     set_value (StateItem (Pool 0)) 7 (set_value (StateItem (Pool 2)) 3
       (rtos_init_list_item (Some (StateItem (Pool 0))) (Some (Pool 0))
         (rtos_init_list_item (Some (StateItem (Pool 2))) (Some (Pool 2))
           (rtos_init_list (Some DelayedL) zero_list_mem))))"

lemma sample_mem_wf: "lists_wf sample_mem [DelayedL \<mapsto> []]"
  unfolding sample_mem_def lists_wf_set_value
  using init_list_law[OF lists_wf_zero, of DelayedL]
  by (intro init_list_item_law) (simp_all add: init_list_item_fields init_list_fields zero_list_mem_def zero_item_def)

lemma sample_mem_items [simp]:
  "cont sample_mem (StateItem (Pool 0)) = None" "own sample_mem (StateItem (Pool 0)) = Some (Pool 0)"
  "cont sample_mem (StateItem (Pool 2)) = None" "own sample_mem (StateItem (Pool 2)) = Some (Pool 2)"
  by (simp_all add: sample_mem_def init_list_item_fields init_list_fields)

text \<open>
  \<^bold>\<open>C25.\<close> \<open>rtos_list_insert_sorted\<close> on a live ascending list and an unlisted item returns
  (its search loop ends and no assertion of \<open>list.c\<close> fails); afterwards the list holds the
  item exactly once more, is ascending again, items of equal value keep their order of
  arrival, and every other list, and every value and owner, is unchanged.
\<close>

theorem list_insert_sorted_correct:
  assumes "lists_wf m C" "C l = Some xs" "asc (val m) xs"
    and "cont m i = None" "own m i \<noteq> None" "\<not> is_sentinel i"
  shows "\<exists>m' ys. rtos_list_insert_sorted (Some l) (Some i) m = Ret m' \<and> lists_wf m' (C(l \<mapsto> ys)) \<and>
           mset ys = add_mset i (mset xs) \<and> asc (val m') ys \<and> same_data m m' \<and>
           (\<forall>v. filter (\<lambda>j. val m' j = v) ys = filter (\<lambda>j. val m j = v) xs @ (if val m i = v then [i] else []))"
proof -
  obtain m' where m': "rtos_list_insert_sorted (Some l) (Some i) m = Ret m'"
    "lists_wf m' (C(l \<mapsto> ins_sorted (val m) i xs))" "same_data m m'"
    using rl.sorted_law[OF assms(1,2,4,5,6)] by blast
  moreover have "val m' j = val m j" for j using m'(3) by (auto simp: same_data_def)
  ultimately show ?thesis
    using asc_ins_sorted[OF assms(3)] ins_sorted_fifo[OF assms(3)]
    by (intro exI[of _ m'] exI[of _ "ins_sorted (val m) i xs"]) auto
qed

theorem list_insert_sorted_correct_witness:
  "\<exists>m' ys. rtos_list_insert_sorted (Some DelayedL) (Some (StateItem (Pool 0))) sample_mem = Ret m' \<and>
     lists_wf m' [DelayedL \<mapsto> ys] \<and> mset ys = {#StateItem (Pool 0)#}"
  using list_insert_sorted_correct[OF sample_mem_wf, of DelayedL "[]" "StateItem (Pool 0)"] by auto

text \<open>
  \<open>rtos_list_insert_reversed_sorted\<close>, which orders the waiters of a synchronisation
  object, returns on a live descending list and an unlisted item; afterwards the list holds
  the item once more, is descending again (the first item has the greatest value), and items
  of equal value keep their order of arrival.
\<close>

theorem list_insert_reversed_correct:
  assumes "lists_wf m C" "C l = Some xs" "desc (val m) xs"
    and "cont m i = None" "own m i \<noteq> None" "\<not> is_sentinel i"
  shows "\<exists>m' ys. rtos_list_insert_reversed_sorted (Some l) (Some i) m = Ret m' \<and> lists_wf m' (C(l \<mapsto> ys)) \<and>
           mset ys = add_mset i (mset xs) \<and> desc (val m') ys \<and> same_data m m' \<and>
           (\<forall>j \<in> set ys. val m' j \<le> val m' (hd ys)) \<and>
           (\<forall>v. filter (\<lambda>j. val m' j = v) ys = filter (\<lambda>j. val m j = v) xs @ (if val m i = v then [i] else []))"
proof -
  let ?ys = "ins_reversed (val m) i xs"
  obtain m' where m': "rtos_list_insert_reversed_sorted (Some l) (Some i) m = Ret m'"
    "lists_wf m' (C(l \<mapsto> ?ys))" "same_data m m'"
    using rl.reversed_law[OF assms(1,2,4,5,6)] by blast
  moreover have v: "val m' j = val m j" for j using m'(3) by (auto simp: same_data_def)
  moreover have d: "desc (val m) ?ys" by (rule desc_ins_reversed[OF assms(3)])
  moreover have "\<forall>j \<in> set ?ys. val m' j \<le> val m' (hd ?ys)" using d v by (cases ?ys) auto
  ultimately show ?thesis
    using ins_reversed_fifo[OF assms(3)] by (intro exI[of _ m'] exI[of _ ?ys]) auto
qed

theorem list_insert_reversed_correct_witness:
  "\<exists>m' ys. rtos_list_insert_reversed_sorted (Some DelayedL) (Some (StateItem (Pool 2))) sample_mem = Ret m' \<and>
     lists_wf m' [DelayedL \<mapsto> ys] \<and> mset ys = {#StateItem (Pool 2)#}"
  using list_insert_reversed_correct[OF sample_mem_wf, of DelayedL "[]" "StateItem (Pool 2)"] by auto

text \<open>
  Round trip: appending an unlisted item to a live list with
  \<open>rtos_list_insert_end\<close> and then unlinking it with \<open>rtos_list_remove\<close> succeeds and gives
  back every list exactly as it was; in between the item is the last of that list.
\<close>

theorem list_insert_end_remove_roundtrip:
  assumes "lists_wf m C" "C l = Some xs" "cont m i = None" "own m i \<noteq> None" "\<not> is_sentinel i"
    and "Suc (length xs) < 2 ^ 32"
  shows "\<exists>m' m''. rtos_list_insert_end (Some l) (Some i) m = Ret m' \<and> lists_wf m' (C(l \<mapsto> xs @ [i])) \<and>
           cont m' i = Some l \<and> rtos_list_remove (Some i) m' = Ret m'' \<and> lists_wf m'' C \<and>
           cont m'' i = None \<and> same_data m m''"
proof -
  obtain m' where m': "rtos_list_insert_end (Some l) (Some i) m = Ret m'" "lists_wf m' (C(l \<mapsto> xs @ [i]))"
    "same_data m m'" using rl.end_law[OF assms(1-5)] by blast
  then obtain m'' where m'': "rtos_list_remove (Some i) m' = Ret m''" "lists_wf m'' C" "same_data m' m''"
    using rl.insert_remove[OF assms(1-3), of m' xs "[]"] assms(5,6) by auto
  have "cont m' i = Some l" using m'(2) by (rule lists_wf_container) auto
  moreover have "cont m'' i = cont m i"
    using rl.member[OF assms(1,5)] rl.member[OF m''(2) assms(5)] by (metis not_Some_eq)
  ultimately show ?thesis
    using m' m'' assms(3) same_data_trans[OF m'(3) m''(3)] by (intro exI[of _ m'] exI[of _ m'']) simp
qed

theorem list_insert_end_remove_roundtrip_witness:
  "\<exists>m' m''. rtos_list_insert_end (Some DelayedL) (Some (StateItem (Pool 0))) sample_mem = Ret m' \<and>
     rtos_list_remove (Some (StateItem (Pool 0))) m' = Ret m'' \<and> lists_wf m'' [DelayedL \<mapsto> []]"
  using list_insert_end_remove_roundtrip[OF sample_mem_wf, of DelayedL "[]" "StateItem (Pool 0)"] by auto

text \<open>
  \<open>rtos_list_remove\<close> on an item of a live list returns, takes exactly that item out,
  decrements the count, and leaves the item unlinked (container, next and prev NULL), so that
  it can be inserted again.
\<close>

theorem list_remove_correct:
  assumes "lists_wf m C" "C l = Some xs" "i \<in> set xs" "length xs < 2 ^ 32"
  shows "\<exists>m'. rtos_list_remove (Some i) m = Ret m' \<and> lists_wf m' (C(l \<mapsto> remove1 i xs)) \<and>
           counts m' l = counts m l - 1 \<and> cont m' i = None \<and> nxt m' i = None \<and> prv m' i = None \<and> same_data m m'"
proof -
  obtain m' where m': "rtos_list_remove (Some i) m = Ret m'" "lists_wf m' (C(l \<mapsto> remove1 i xs))" "same_data m m'"
    using rl.remove_law[OF assms] by blast
  then have "cont m' i = None \<and> nxt m' i = None \<and> prv m' i = None"
    by (auto simp: rtos_list_remove_def asserts_eq_Ret Let_def store_defs split: if_splits)
  moreover have "counts m' l = counts m l - 1"
    using rl.count[OF m'(2), of l] rl.count[OF assms(1,2)] assms(3)
    by (cases "length xs") (auto simp: length_remove1)
  ultimately show ?thesis using m' by blast
qed

theorem list_remove_correct_witness:
  "\<exists>m' m''. rtos_list_insert_end (Some DelayedL) (Some (StateItem (Pool 0))) sample_mem = Ret m' \<and>
     rtos_list_remove (Some (StateItem (Pool 0))) m' = Ret m'' \<and> lists_wf m'' [DelayedL \<mapsto> []] \<and>
     cont m'' (StateItem (Pool 0)) = None"
proof -
  obtain m' where m': "rtos_list_insert_end (Some DelayedL) (Some (StateItem (Pool 0))) sample_mem = Ret m'"
    "lists_wf m' [DelayedL \<mapsto> [StateItem (Pool 0)]]"
    using rl.end_law[OF sample_mem_wf, of DelayedL "[]" "StateItem (Pool 0)"] by auto
  then show ?thesis using list_remove_correct[OF m'(2), of DelayedL _ "StateItem (Pool 0)"] by auto
qed

text \<open>
  Double insertion is caught: inserting an item that already is in some list stops the
  machine at the assertion \<open>item->container == NULL\<close> of the insertion that was called, before
  any field is written.
\<close>

theorem list_double_insert_halts:
  assumes "cont m i \<noteq> None"
  shows "rtos_list_insert_end (Some l) (Some i) m = Halt (Failure ARTOS_FAILURE_ASSERT (Some LIST_C) 56) m \<and>
     rtos_list_insert_sorted (Some l) (Some i) m = Halt (Failure ARTOS_FAILURE_ASSERT (Some LIST_C) 112) m \<and>
     rtos_list_insert_reversed_sorted (Some l) (Some i) m = Halt (Failure ARTOS_FAILURE_ASSERT (Some LIST_C) 130) m"
  using assms
  by (simp add: rtos_list_insert_end_def rtos_list_prepend_def rtos_list_insert_sorted_def
      rtos_list_insert_reversed_sorted_def)

theorem list_double_insert_halts_witness:
  "rtos_list_insert_end (Some DelayedL) (Some (Sentinel DelayedL)) sample_mem =
     Halt (Failure ARTOS_FAILURE_ASSERT (Some LIST_C) 56) sample_mem"
proof -
  have "cont sample_mem (Sentinel DelayedL) \<noteq> None"
    by (simp add: sample_mem_def init_list_item_fields init_list_fields)
  from list_double_insert_halts[OF this, of DelayedL] show ?thesis by blast
qed

end
