(* ===== verification/Port.thy ===== *)
theory Port
  imports Prelude
begin

unbundle bit_operations_syntax

text \<open>
  The Cortex-M4F port, \<open>src/rtos/ports/cortex-m4f/rtos_port.c\<close>: critical sections on
  PRIMASK, the PendSV request, the register set-up, the search for the most significant
  ready bit and the initial stack frame of a task.

  Hardware registers are fields of the record \<open>port\<close>; the barrier instructions DMB, DSB and
  ISB have no effect on them. CMSIS \<open>__CLZ\<close> is not part of the repository: it is the
  argument \<open>clz\<close> of the definitions that use it, with its documented behaviour
  \<open>clz_spec\<close> as a hypothesis.
\<close>

section \<open>Registers and stack memory\<close>

text \<open>
  \<open>pendsv\<close> is the PENDSVSET bit of ICSR. \<open>stack_mem\<close> is RAM as the port sees it, one
  \<open>artos_stack_word_t\<close> per word address. The last two fields are addresses fixed by the
  linker.
\<close>

record rtos_fault_info =
  fault_r0 :: u32
  fault_r1 :: u32
  fault_r2 :: u32
  fault_r3 :: u32
  fault_r12 :: u32
  fault_lr :: u32
  fault_pc :: u32
  fault_xpsr :: u32
  fault_exc_return :: u32
  fault_cfsr :: u32
  fault_hfsr :: u32
  fault_mmfar :: u32
  fault_bfar :: u32

record port =
  primask :: u32
  pendsv :: bool
  scb_shpr3 :: u32
  scb_cpacr :: u32
  scb_cfsr :: u32
  scb_hfsr :: u32
  scb_mmfar :: u32
  scb_bfar :: u32
  fpu_fpccr :: u32
  systick_load :: u32
  systick_val :: u32
  systick_ctrl :: u32
  psp :: u32
  fault_info :: rtos_fault_info
  stack_mem :: "u32 \<Rightarrow> u32"
  task_return_trap_addr :: u32
  idle_task_addr :: u32

definition ARTOS_CPU_CLOCK_HZ :: u32 where "ARTOS_CPU_CLOCK_HZ = 16000000"
definition ARTOS_TICK_HZ :: u32 where "ARTOS_TICK_HZ = 1000"
definition ARTOS_PORT_INITIAL_XPSR :: u32 where "ARTOS_PORT_INITIAL_XPSR = push_bit 24 1"
definition ARTOS_PORT_INITIAL_EXC_RETURN :: u32 where "ARTOS_PORT_INITIAL_EXC_RETURN = 0xFFFFFFFD"

section \<open>Operations\<close>

definition rtos_port_enter_critical :: "'z port_scheme \<Rightarrow> u32 \<times> 'z port_scheme" where
  "rtos_port_enter_critical s = (primask s, s\<lparr>primask := 1\<rparr>)"

definition rtos_port_exit_critical :: "u32 \<Rightarrow> 'z port_scheme \<Rightarrow> 'z port_scheme" where
  "rtos_port_exit_critical previous_state s = s\<lparr>primask := previous_state\<rparr>"

definition rtos_port_request_context_switch :: "'z port_scheme \<Rightarrow> 'z port_scheme" where
  "rtos_port_request_context_switch s = s\<lparr>pendsv := True\<rparr>"

definition rtos_port_request_context_switch_from_isr :: "'z port_scheme \<Rightarrow> 'z port_scheme" where
  "rtos_port_request_context_switch_from_isr s = s\<lparr>pendsv := True\<rparr>"

definition rtos_port_find_msb32 :: "(u32 \<Rightarrow> u8) \<Rightarrow> u32 \<Rightarrow> u8" where
  "rtos_port_find_msb32 clz bitmap =
     (if bitmap = 0 then 0 else ucast (31 - ucast (clz bitmap) :: u32))"

definition rtos_port_tick_init :: "'z port_scheme \<Rightarrow> 'z port_scheme" where
  "rtos_port_tick_init s =
     (let s = s\<lparr>systick_load := ARTOS_CPU_CLOCK_HZ div ARTOS_TICK_HZ - 1\<rparr>;
          s = s\<lparr>scb_shpr3 := scb_shpr3 s AND NOT (push_bit 24 0xFF)\<rparr>;
          s = s\<lparr>scb_shpr3 := scb_shpr3 s OR push_bit 28 14\<rparr>;
          s = s\<lparr>systick_val := 0\<rparr>
      in s\<lparr>systick_ctrl := 7\<rparr>)"

definition rtos_port_scheduler_init :: "'z port_scheme \<Rightarrow> 'z port_scheme" where
  "rtos_port_scheduler_init s =
     (let s = s\<lparr>scb_shpr3 := scb_shpr3 s AND NOT (push_bit 16 0xFF)\<rparr>;
          s = s\<lparr>scb_shpr3 := scb_shpr3 s OR push_bit 20 15\<rparr>;
          s = s\<lparr>scb_cpacr := scb_cpacr s OR push_bit 20 0xF\<rparr>
      in s\<lparr>fpu_fpccr := fpu_fpccr s OR push_bit 30 3\<rparr>)"

text \<open>\<open>*(--stack_top) = v\<close>: stack words are four bytes.\<close>

definition push_word :: "u32 \<Rightarrow> u32 \<times> 'z port_scheme \<Rightarrow> u32 \<times> 'z port_scheme" where
  "push_word v = (\<lambda>(sp, s). (sp - 4, s\<lparr>stack_mem := (stack_mem s)(sp - 4 := v)\<rparr>))"

definition rtos_port_initialize_stack ::
    "u32 \<Rightarrow> u32 \<Rightarrow> u32 \<Rightarrow> 'z port_scheme \<Rightarrow> u32 \<times> 'z port_scheme" where
  "rtos_port_initialize_stack stack_top entry argument s =
     (let p = (stack_top, s);
          p = push_word ARTOS_PORT_INITIAL_XPSR p;
          p = push_word (entry AND NOT 1) p;
          p = push_word (task_return_trap_addr s) p;
          p = push_word 0 p;
          p = push_word 0 p;
          p = push_word 0 p;
          p = push_word 0 p;
          p = push_word argument p;
          p = push_word ARTOS_PORT_INITIAL_EXC_RETURN p
      in fold (\<lambda>_. push_word 0) [0..<8] p)"

text \<open>
  Up to the \<open>svc 0\<close> that enters the first task: PSP is loaded, SysTick runs, interrupts are
  enabled.
\<close>

definition rtos_port_start_first_task :: "u32 \<Rightarrow> 'z port_scheme \<Rightarrow> 'z port_scheme" where
  "rtos_port_start_first_task saved_stack_pointer s =
     (rtos_port_tick_init (s\<lparr>psp := saved_stack_pointer\<rparr>))\<lparr>primask := 0\<rparr>"

definition frame_word :: "u32 \<Rightarrow> nat \<Rightarrow> 'z port_scheme \<Rightarrow> u32" where
  "frame_word frame i s = stack_mem s (frame + 4 * of_nat i)"

definition rtos_port_hard_fault_c :: "u32 \<Rightarrow> u32 \<Rightarrow> 'z port_scheme \<Rightarrow> ('a, 'z port_scheme) res" where
  "rtos_port_hard_fault_c frame exc_return s =
     (let frame = (if exc_return AND push_bit 4 1 = 0 then frame + 4 * 18 else frame);
          s = s\<lparr>fault_info := \<lparr>
            fault_r0 = frame_word frame 0 s, fault_r1 = frame_word frame 1 s,
            fault_r2 = frame_word frame 2 s, fault_r3 = frame_word frame 3 s,
            fault_r12 = frame_word frame 4 s, fault_lr = frame_word frame 5 s,
            fault_pc = frame_word frame 6 s, fault_xpsr = frame_word frame 7 s,
            fault_exc_return = exc_return, fault_cfsr = scb_cfsr s, fault_hfsr = scb_hfsr s,
            fault_mmfar = scb_mmfar s, fault_bfar = scb_bfar s\<rparr>\<rparr>
      in Halt (Failure ARTOS_FAILURE_PORT_FAULT None 0) s)"

definition rtos_port_task_return_trap :: "'z port_scheme \<Rightarrow> ('a, 'z port_scheme) res" where
  "rtos_port_task_return_trap s = Halt (Failure ARTOS_FAILURE_TASK_RETURN None 0) s"

section \<open>The most significant ready bit\<close>

text \<open>The documented result of the CLZ instruction on a nonzero word.\<close>

definition clz_spec :: "(u32 \<Rightarrow> u8) \<Rightarrow> bool" where
  "clz_spec clz \<longleftrightarrow> (\<forall>w. w \<noteq> 0 \<longrightarrow>
     unat (clz w) \<le> 31 \<and> bit w (31 - unat (clz w)) \<and> (\<forall>n. 31 - unat (clz w) < n \<longrightarrow> \<not> bit w n))"

text \<open>A function with that behaviour: the leading zeros, counted.\<close>

definition clz_count :: "u32 \<Rightarrow> u8" where
  "clz_count w = of_nat (length (takeWhile (\<lambda>n. \<not> bit w n) (rev [0..<32])))"

lemma takeWhile_rev_upt:
  assumes "bit w k" "k < n" "\<forall>j. k < j \<longrightarrow> \<not> bit w j"
  shows "length (takeWhile (\<lambda>j. \<not> bit w j) (rev [0..<n])) = n - Suc k"
  using assms
proof (induction n)
  case (Suc n)
  then show ?case by (cases "k = n") auto
qed simp

lemma highest_bit_exists:
  fixes w :: u32
  assumes "w \<noteq> 0"
  shows "\<exists>k < 32. bit w k \<and> (\<forall>j. k < j \<longrightarrow> \<not> bit w j)"
proof -
  let ?B = "{k. bit w k}"
  have sub: "?B \<subseteq> {..<32}" using bit_imp_le_length[of w] by auto
  then have fin: "finite ?B" by (rule finite_subset) simp
  have "?B \<noteq> {}" using assms by (auto simp: bit_eq_iff[of w 0])
  then have "Max ?B \<in> ?B" using fin by (rule Max_in[rotated])
  moreover have "\<forall>j. Max ?B < j \<longrightarrow> \<not> bit w j" using Max_ge[OF fin] by (metis leD mem_Collect_eq)
  ultimately show ?thesis using sub by blast
qed

lemma clz_count_spec: "clz_spec clz_count"
proof -
  have "unat (clz_count w) = 31 - k" if "bit w k" "k < 32" "\<forall>j. k < j \<longrightarrow> \<not> bit w j" for w k
    unfolding clz_count_def takeWhile_rev_upt[OF that] using that(2)
    by (simp add: unat_of_nat del: of_nat_diff)
  then show ?thesis unfolding clz_spec_def using highest_bit_exists by fastforce
qed

lemma find_msb32_highest:
  assumes "clz_spec clz" "w \<noteq> 0"
  shows "bit w (unat (rtos_port_find_msb32 clz w))"
    and "\<And>n. unat (rtos_port_find_msb32 clz w) < n \<Longrightarrow> \<not> bit w n"
    and "unat (rtos_port_find_msb32 clz w) < 32"
proof -
  have c: "unat (clz w) \<le> 31" "bit w (31 - unat (clz w))" "\<And>n. 31 - unat (clz w) < n \<Longrightarrow> \<not> bit w n"
    using assms by (auto simp: clz_spec_def)
  have "unat (rtos_port_find_msb32 clz w) = 31 - unat (clz w)"
  proof -
    have u: "unat (ucast (clz w) :: u32) = unat (clz w)" using c(1) by (simp add: unsigned_ucast_eq take_bit_nat_eq_self)
    have "unat (31 - ucast (clz w) :: u32) = 31 - unat (clz w)"
      using c(1) by (subst unat_sub) (simp_all add: u word_le_nat_alt)
    then show ?thesis using assms(2) c(1)
      by (simp add: rtos_port_find_msb32_def unsigned_ucast_eq take_bit_nat_eq_self)
  qed
  with c show "bit w (unat (rtos_port_find_msb32 clz w))"
    "\<And>n. unat (rtos_port_find_msb32 clz w) < n \<Longrightarrow> \<not> bit w n"
    "unat (rtos_port_find_msb32 clz w) < 32" by auto
qed


section \<open>The initial stack frame\<close>

lemma fold_push_const: "fold (\<lambda>_. push_word v) xs p = fold push_word (replicate (length xs) v) p"
  by (induction xs arbitrary: p) auto

lemma initialize_stack_pushes:
  "rtos_port_initialize_stack stk entry argument s =
     fold push_word ([ARTOS_PORT_INITIAL_XPSR, entry AND NOT 1, task_return_trap_addr s, 0, 0, 0, 0, argument,
       ARTOS_PORT_INITIAL_EXC_RETURN] @ replicate 8 0) (stk, s)"
  by (simp add: rtos_port_initialize_stack_def fold_push_const)

lemma four_mult_eq_0: "(4 :: u32) * of_nat n = 0 \<longleftrightarrow> 2 ^ 30 dvd n"
proof -
  have "(4 :: u32) * of_nat n = of_nat (4 * n)" by simp
  also have "\<dots> = 0 \<longleftrightarrow> 2 ^ 32 dvd 4 * n" by (simp only: word_of_nat_eq_0_iff) simp
  also have "\<dots> \<longleftrightarrow> 2 ^ 30 dvd n" using nat_mult_dvd_cancel1[of 4 "2 ^ 30" n] by simp
  finally show ?thesis .
qed

lemma push_word_apply: "push_word v (sp, s) = (sp', s') \<longleftrightarrow> sp' = sp - 4 \<and> s' = s\<lparr>stack_mem := (stack_mem s)(sp - 4 := v)\<rparr>"
  by (auto simp: push_word_def)

text \<open>Pushing words: the last one pushed is at the new stack pointer, the others above it.\<close>

lemma fold_push_word:
  "length vs < 2 ^ 30 \<Longrightarrow> fold push_word vs (stk, s) = (sp, s') \<Longrightarrow>
   sp = stk - 4 * of_nat (length vs) \<and> (\<exists>f. s' = s\<lparr>stack_mem := f\<rparr>) \<and>
   (\<forall>i < length vs. frame_word sp i s' = rev vs ! i) \<and>
   (\<forall>a. (\<forall>i < length vs. a \<noteq> sp + 4 * of_nat i) \<longrightarrow> stack_mem s' a = stack_mem s a)"
proof (induction vs arbitrary: sp s' rule: rev_induct)
  case Nil
  then show ?case by (intro conjI exI[of _ "stack_mem s"]) simp_all
next
  case (snoc v vs)
  obtain sp1 s1 where 1: "fold push_word vs (stk, s) = (sp1, s1)" by (cases "fold push_word vs (stk, s)")
  then have s': "sp = sp1 - 4" "s' = s1\<lparr>stack_mem := (stack_mem s1)(sp1 - 4 := v)\<rparr>"
    using snoc(3) by (simp_all add: push_word_apply)
  note IH = snoc.IH[OF _ 1]
  have ne: "sp1 + 4 * of_nat i \<noteq> sp1 - 4" if "i < length vs" for i
  proof
    assume "sp1 + 4 * of_nat i = sp1 - 4"
    then have "(4 :: u32) * of_nat (Suc i) = 0" by (simp add: algebra_simps eq_neg_iff_add_eq_0)
    then show False using that snoc(2) unfolding four_mult_eq_0 by (auto dest: dvd_imp_le)
  qed
  have "frame_word sp i s' = rev (vs @ [v]) ! i" if "i < length (vs @ [v])" for i
  proof (cases i)
    case (Suc k)
    then have "sp + 4 * of_nat i = sp1 + 4 * of_nat k" using s'(1) by (simp add: algebra_simps)
    then have "frame_word sp i s' = stack_mem s' (sp1 + 4 * of_nat k)" by (simp only: frame_word_def)
    also have "\<dots> = frame_word sp1 k s1" using ne[of k] Suc that by (simp add: s'(2) frame_word_def)
    also have "\<dots> = rev vs ! k" using IH snoc(2) Suc that by auto
    finally show ?thesis using Suc by simp
  qed (use s' in \<open>simp add: frame_word_def\<close>)
  moreover have "stack_mem s' a = stack_mem s a" if a: "\<forall>i < length (vs @ [v]). a \<noteq> sp + 4 * of_nat i" for a
  proof -
    have "a \<noteq> sp1 - 4" using a[rule_format, of 0] s'(1) by simp
    moreover have "a \<noteq> sp1 + 4 * of_nat i" if "i < length vs" for i
      using a[rule_format, of "Suc i"] that s'(1) by (simp add: algebra_simps)
    ultimately show ?thesis using IH snoc(2) s'(2) by simp
  qed
  moreover have "sp = stk - 4 * of_nat (length (vs @ [v]))"
    using conjunct1[OF IH] snoc(2) unfolding s'(1) by simp
  moreover have "\<exists>f. s' = s\<lparr>stack_mem := f\<rparr>" using IH snoc(2) s'(2) by auto
  ultimately show ?case by blast
qed

lemma fold_push_word_frame:
  "length vs < 2 ^ 30 \<Longrightarrow> fold push_word vs (stk, s) = (sp, s') \<Longrightarrow>
   map (\<lambda>i. frame_word sp i s') [0..<length vs] = rev vs"
  using fold_push_word[of vs stk s sp s'] by (intro nth_equalityI) auto

lemma initial_frame:
  "\<exists>s'. rtos_port_initialize_stack stk entry argument s = (stk - 68, s') \<and>
     map (\<lambda>i. frame_word (stk - 68) i s') [0..<17] =
       replicate 8 0 @ [ARTOS_PORT_INITIAL_EXC_RETURN] @
       [argument, 0, 0, 0, 0, task_return_trap_addr s, entry AND NOT 1, ARTOS_PORT_INITIAL_XPSR] \<and>
     (\<forall>a. a \<notin> (\<lambda>i. stk - 68 + 4 * of_nat i) ` {..<17} \<longrightarrow> stack_mem s' a = stack_mem s a) \<and>
     (\<exists>f. s' = s\<lparr>stack_mem := f\<rparr>)"
proof -
  let ?vs = "[ARTOS_PORT_INITIAL_XPSR, entry AND NOT 1, task_return_trap_addr s, 0, 0, 0, 0, argument,
       ARTOS_PORT_INITIAL_EXC_RETURN] @ replicate 8 0"
  obtain sp s' where r: "fold push_word ?vs (stk, s) = (sp, s')" by (cases "fold push_word ?vs (stk, s)")
  have l: "length ?vs = 17" by simp
  have f: "sp = stk - 68" "\<exists>f. s' = s\<lparr>stack_mem := f\<rparr>"
      "\<forall>a. (\<forall>i < 17. a \<noteq> sp + 4 * of_nat i) \<longrightarrow> stack_mem s' a = stack_mem s a"
    using fold_push_word[OF _ r] unfolding l by simp_all
  have "map (\<lambda>i. frame_word (stk - 68) i s') [0..<17] = rev ?vs"
    using fold_push_word_frame[OF _ r] unfolding l f(1) by simp
  then have "map (\<lambda>i. frame_word (stk - 68) i s') [0..<17] =
       replicate 8 0 @ [ARTOS_PORT_INITIAL_EXC_RETURN] @
       [argument, 0, 0, 0, 0, task_return_trap_addr s, entry AND NOT 1, ARTOS_PORT_INITIAL_XPSR]"
    by simp
  moreover have "\<forall>a. a \<notin> (\<lambda>i. stk - 68 + 4 * of_nat i) ` {..<17} \<longrightarrow> stack_mem s' a = stack_mem s a"
    using f(3) unfolding f(1) by (metis image_eqI lessThan_iff)
  ultimately show ?thesis using r f(1,2) unfolding initialize_stack_pushes by blast
qed

text \<open>
  The initial stack of a task is what the exception return of PendSV or SVC expects: from
  the saved stack pointer upwards eight zero words for r4 to r11, the EXC_RETURN value
  that selects thread mode, the process stack and no floating-point frame, then the hardware frame:
  the argument in r0, the return trap in lr, the entry point without its Thumb bit
  as pc and the Thumb bit in xPSR. No other word is written.
\<close>

theorem initialize_stack_frame:
  "\<exists>s'. rtos_port_initialize_stack stk entry argument s = (stk - 68, s') \<and>
     map (\<lambda>i. frame_word (stk - 68) i s') [0..<17] =
       replicate 8 0 @ [ARTOS_PORT_INITIAL_EXC_RETURN] @
       [argument, 0, 0, 0, 0, task_return_trap_addr s, entry AND NOT 1, ARTOS_PORT_INITIAL_XPSR] \<and>
     (\<forall>a. a \<notin> (\<lambda>i. stk - 68 + 4 * of_nat i) ` {..<17} \<longrightarrow> stack_mem s' a = stack_mem s a) \<and>
     (\<exists>f. s' = s\<lparr>stack_mem := f\<rparr>)"
  by (rule initial_frame)

end
