(* ===== verification/Tasks.thy ===== *)
theory Tasks
  imports Rtos_List Port
begin

unbundle bit_operations_syntax

text \<open>
  The scheduler, \<open>src/rtos/tasks.h\<close> and \<open>src/rtos/tasks.c\<close>: task control blocks, the ready
  lists with their bitmap, delays, ticks, blocking and unblocking, effective priorities and
  task inspection. This theory holds the state and the operations; \<open>Tasks_Inv\<close> has the
  invariant and the correctness lemmas.

  The static variables of \<open>tasks.c\<close> are the fields of the record \<open>kernel\<close>, which extends the
  port's registers. A task's \<open>state_item\<close> and \<open>event_item\<close> live in the list store
  \<open>lists\<close>. The record is extensible: the synchronisation objects add their own control
  blocks to it.
\<close>

section \<open>Configuration and data\<close>

definition ARTOS_MAX_TASKS :: nat where "ARTOS_MAX_TASKS = 16"
definition ARTOS_PRIORITY_COUNT :: nat where "ARTOS_PRIORITY_COUNT = 2"
definition ARTOS_MIN_STACK_WORDS :: u32 where "ARTOS_MIN_STACK_WORDS = 64"
definition ARTOS_DELAY_INFINITY :: u32 where "ARTOS_DELAY_INFINITY = 0xFFFFFFFF"
definition ARTOS_STACK_FILL_PATTERN :: u32 where "ARTOS_STACK_FILL_PATTERN = 0xA5A5A5A5"
definition ARTOS_STACK_GUARD_PATTERN :: u32 where "ARTOS_STACK_GUARD_PATTERN = 0xDEADBEEF"
definition ARTOS_STACK_GUARD_WORDS :: nat where "ARTOS_STACK_GUARD_WORDS = 4"

datatype rtos_wait_reason = WAIT_NO_REASON | WAIT_SIGNALED | WAIT_TIMED_OUT

datatype artos_status =
  ARTOS_OK
| ARTOS_ERROR_INVALID_ARGUMENT
| ARTOS_ERROR_TASK_LIMIT
| ARTOS_ERROR_STACK_TOO_SMALL
| ARTOS_ERROR_NO_TASKS

datatype artos_task_state =
  ARTOS_TASK_STATE_RUNNING
| ARTOS_TASK_STATE_READY
| ARTOS_TASK_STATE_BLOCKED
| ARTOS_TASK_STATE_SUSPENDED

text \<open>Addresses of stacks, entry points and arguments are 32-bit; 0 is NULL.\<close>

record rtos_tcb =
  stack_pointer :: u32
  stack_buffer :: u32
  stack_word_count :: u32
  tcb_entry :: u32
  tcb_argument :: u32
  priority :: u8
  effective_priority :: u8
  mutexes_held :: u8
  wait_reason :: rtos_wait_reason

definition zero_tcb :: rtos_tcb where
  "zero_tcb = \<lparr>stack_pointer = 0, stack_buffer = 0, stack_word_count = 0, tcb_entry = 0,
     tcb_argument = 0, priority = 0, effective_priority = 0, mutexes_held = 0,
     wait_reason = WAIT_NO_REASON\<rparr>"

record kernel = port +
  lists :: list_mem
  tcbs :: "tcb_ref \<Rightarrow> rtos_tcb"
  tsk_cnt :: u32
  cur_task :: "tcb_ref option"
  ticks :: u32
  ready_bitmap :: u32
  cur_delayed :: list_ref
  next_delayed :: list_ref
  idle_task_stack_addr :: u32

type_synonym ('a, 'z) kres = "('a, 'z kernel_scheme) res"
type_synonym 'z kproc = "'z kernel_scheme \<Rightarrow> ('z kernel_scheme, 'z) kres"

text \<open>A call into \<open>list.c\<close>.\<close>

definition on_lists :: "(list_mem \<Rightarrow> list_res) \<Rightarrow> 'z kproc" where
  "on_lists f s =
     (case f (lists s) of Ret m \<Rightarrow> Ret (s\<lparr>lists := m\<rparr>)
      | Halt c m \<Rightarrow> Halt c (s\<lparr>lists := m\<rparr>)
      | Loops \<Rightarrow> Loops)"

definition upd_tcb :: "tcb_ref \<Rightarrow> (rtos_tcb \<Rightarrow> rtos_tcb) \<Rightarrow> 'z kernel_scheme \<Rightarrow> 'z kernel_scheme" where
  "upd_tcb t f s = s\<lparr>tcbs := (tcbs s)(t := f (tcbs s t))\<rparr>"

section \<open>Ready lists\<close>

definition rtos_insert_ready_list :: "tcb_ref option \<Rightarrow> 'z kproc" where
  "rtos_insert_ready_list task s =
     (case task of None \<Rightarrow> Ret s
      | Some t \<Rightarrow>
          (let p = unat (effective_priority (tcbs s t)) in
           if p \<ge> ARTOS_PRIORITY_COUNT \<or> cont (lists s) (StateItem t) \<noteq> None then Ret s
           else res_bind (on_lists (rtos_list_insert_end (Some (ReadyL p)) (Some (StateItem t))) s)
                  (\<lambda>s. Ret (s\<lparr>ready_bitmap := ready_bitmap s OR push_bit p 1\<rparr>))))"

definition rtos_check_runnable_task :: "tcb_ref option \<Rightarrow> 'z kernel_scheme \<Rightarrow> bool" where
  "rtos_check_runnable_task task_compare s =
     (let compared_prio = (case task_compare of None \<Rightarrow> 0 | Some t \<Rightarrow> effective_priority (tcbs s t))
      in drop_bit (unat compared_prio) (ready_bitmap s) \<noteq> 0)"

definition rtos_check_preemptable_task :: "tcb_ref option \<Rightarrow> 'z kernel_scheme \<Rightarrow> bool" where
  "rtos_check_preemptable_task task_compare s =
     (let compared_prio = (case task_compare of None \<Rightarrow> 0 | Some t \<Rightarrow> effective_priority (tcbs s t))
      in drop_bit 1 (drop_bit (unat compared_prio) (ready_bitmap s)) \<noteq> 0)"

definition rtos_get_highest_prio_task ::
    "(u32 \<Rightarrow> u8) \<Rightarrow> 'z kernel_scheme \<Rightarrow> (tcb_ref option \<times> 'z kernel_scheme, 'z) kres" where
  "rtos_get_highest_prio_task clz s =
     asserts TASKS_C [(59, ready_bitmap s \<noteq> 0)] s
     (if ready_bitmap s = 0 then Ret (None, s)
      else let highest_prio = rtos_port_find_msb32 clz (ready_bitmap s);
               ready_l = ReadyL (unat highest_prio) in
        asserts TASKS_C
          [(65, unat highest_prio < ARTOS_PRIORITY_COUNT),
           (66, counts (lists s) ready_l > 0)] s
        (deref (nxt (lists s) (Sentinel ready_l)) s (\<lambda>first.
         asserts TASKS_C [(67, own (lists s) first \<noteq> None)] s
         (let task = own (lists s) first in
          asserts TASKS_C
            [(72, task \<noteq> None),
             (73, effective_priority (tcbs s (the task)) = highest_prio),
             (74, cont (lists s) (StateItem (the task)) = Some ready_l)] s
          (res_bind (on_lists (rtos_list_remove (Some (StateItem (the task)))) s) (\<lambda>s.
           let s = (if counts (lists s) ready_l = 0
                    then s\<lparr>ready_bitmap := ready_bitmap s AND NOT (push_bit (unat highest_prio) 1)\<rparr>
                    else s)
           in asserts TASKS_C
                [(80, (ready_bitmap s AND push_bit (unat highest_prio) 1 \<noteq> 0) =
                      (counts (lists s) ready_l \<noteq> 0))] s
              (Ret (task, s))))))))"

section \<open>Task creation and initialisation\<close>

definition write_stack :: "u32 \<Rightarrow> u32 \<Rightarrow> nat \<Rightarrow> 'z kernel_scheme \<Rightarrow> 'z kernel_scheme" where
  "write_stack stack v i s = s\<lparr>stack_mem := (stack_mem s)(stack + 4 * of_nat i := v)\<rparr>"

definition rtos_init_tcb ::
    "tcb_ref \<Rightarrow> u32 \<Rightarrow> u32 \<Rightarrow> u32 \<Rightarrow> u32 \<Rightarrow> u8 \<Rightarrow> 'z kernel_scheme \<Rightarrow> 'z kernel_scheme" where
  "rtos_init_tcb tcb entry argument stack words prio s =
     (let s = fold (write_stack stack ARTOS_STACK_FILL_PATTERN) [ARTOS_STACK_GUARD_WORDS..<unat words] s;
          s = fold (write_stack stack ARTOS_STACK_GUARD_PATTERN) [0..<ARTOS_STACK_GUARD_WORDS] s;
          (sp, s) = rtos_port_initialize_stack (stack + 4 * words) entry argument s;
          s = upd_tcb tcb (\<lambda>t. t\<lparr>stack_pointer := sp, stack_buffer := stack, stack_word_count := words,
                tcb_entry := entry, tcb_argument := argument,
                priority := prio, effective_priority := prio, mutexes_held := 0\<rparr>) s;
          s = s\<lparr>lists := rtos_init_list_item (Some (StateItem tcb)) (Some tcb) (lists s)\<rparr>;
          s = s\<lparr>lists := rtos_init_list_item (Some (EventItem tcb)) (Some tcb) (lists s)\<rparr>
      in upd_tcb tcb (\<lambda>t. t\<lparr>wait_reason := WAIT_NO_REASON\<rparr>) s)"

definition artos_task_create ::
    "u32 \<Rightarrow> u32 \<Rightarrow> u32 \<Rightarrow> u32 \<Rightarrow> u8 \<Rightarrow> 'z kernel_scheme \<Rightarrow> (artos_status \<times> 'z kernel_scheme, 'z) kres" where
  "artos_task_create entry argument stack words prio s =
     (if stack = 0 \<or> entry = 0 \<or> unat prio \<ge> ARTOS_PRIORITY_COUNT
      then Ret (ARTOS_ERROR_INVALID_ARGUMENT, s)
      else let stack_top = stack + 4 * words in
      if stack_top AND 7 \<noteq> 0 then Ret (ARTOS_ERROR_INVALID_ARGUMENT, s)
      else if words < ARTOS_MIN_STACK_WORDS then Ret (ARTOS_ERROR_STACK_TOO_SMALL, s)
      else if tsk_cnt s = of_nat ARTOS_MAX_TASKS then Ret (ARTOS_ERROR_TASK_LIMIT, s)
      else let (prev_state, s) = rtos_port_enter_critical s in
      case find (\<lambda>i. stack_pointer (tcbs s (Pool i)) = 0) [0..<ARTOS_MAX_TASKS] of
        None \<Rightarrow> Ret (ARTOS_ERROR_TASK_LIMIT, rtos_port_exit_critical prev_state s)
      | Some i \<Rightarrow>
          (let s = rtos_init_tcb (Pool i) entry argument stack words prio s;
               s = s\<lparr>tsk_cnt := tsk_cnt s + 1\<rparr>
           in res_bind (rtos_insert_ready_list (Some (Pool i)) s) (\<lambda>s.
              let should_yield = (case cur_task s of None \<Rightarrow> False
                                  | Some c \<Rightarrow> prio > effective_priority (tcbs s c));
                  s = rtos_port_exit_critical prev_state s;
                  s = (if should_yield then rtos_port_request_context_switch s else s)
              in Ret (ARTOS_OK, s))))"

definition zero_pool_slot :: "nat \<Rightarrow> 'z kernel_scheme \<Rightarrow> 'z kernel_scheme" where
  "zero_pool_slot i s =
     s\<lparr>tcbs := (tcbs s)(Pool i := zero_tcb),
       lists := (lists s)\<lparr>items := (items (lists s))(StateItem (Pool i) := zero_item,
                                                  EventItem (Pool i) := zero_item)\<rparr>\<rparr>"

definition init_kernel_list :: "list_ref \<Rightarrow> 'z kernel_scheme \<Rightarrow> 'z kernel_scheme" where
  "init_kernel_list l s = s\<lparr>lists := rtos_init_list (Some l) (lists s)\<rparr>"

definition rtos_system_init :: "'z kernel_scheme \<Rightarrow> 'z kernel_scheme" where
  "rtos_system_init s =
     (let s = rtos_init_tcb IdleTask (idle_task_addr s) 0 (idle_task_stack_addr s) ARTOS_MIN_STACK_WORDS 0 s;
          s = fold zero_pool_slot [0..<ARTOS_MAX_TASKS] s;
          s = s\<lparr>cur_task := None, ticks := 0, tsk_cnt := 0\<rparr>;
          s = fold (\<lambda>p. init_kernel_list (ReadyL p)) [0..<ARTOS_PRIORITY_COUNT] s;
          s = init_kernel_list DelayedL s;
          s = init_kernel_list DelayedOverflowL s;
          s = init_kernel_list SuspendL s;
          s = s\<lparr>ready_bitmap := 0, cur_delayed := DelayedL, next_delayed := DelayedOverflowL\<rparr>
      in rtos_port_scheduler_init s)"

section \<open>Context switch\<close>

definition artos_task_stack_valid :: "rtos_tcb \<Rightarrow> u32 \<Rightarrow> 'z kernel_scheme \<Rightarrow> bool" where
  "artos_task_stack_valid task saved_sp s =
     (let low = stack_buffer task + 4 * of_nat ARTOS_STACK_GUARD_WORDS;
          high = stack_buffer task + 4 * stack_word_count task
      in \<not> (saved_sp < low \<or> saved_sp > high) \<and>
         list_all (\<lambda>i. stack_mem s (stack_buffer task + 4 * of_nat i) = ARTOS_STACK_GUARD_PATTERN)
           [0..<ARTOS_STACK_GUARD_WORDS])"

definition schedule_highest ::
    "(u32 \<Rightarrow> u8) \<Rightarrow> 'z kernel_scheme \<Rightarrow> (tcb_ref option \<times> 'z kernel_scheme, 'z) kres" where
  "schedule_highest clz s =
     res_bind (rtos_get_highest_prio_task clz s) (\<lambda>(t, s). Ret (t, s\<lparr>cur_task := t\<rparr>))"

definition rtos_scheduler_select_next ::
    "(u32 \<Rightarrow> u8) \<Rightarrow> u32 \<Rightarrow> 'z kernel_scheme \<Rightarrow> (tcb_ref option \<times> 'z kernel_scheme, 'z) kres" where
  "rtos_scheduler_select_next clz current_stack_pointer s =
     (if current_stack_pointer = 0 \<and> cur_task s \<noteq> None then Ret (None, s)
      else if current_stack_pointer = 0 then
        (if \<not> rtos_check_runnable_task None s then Ret (None, s) else schedule_highest clz s)
      else deref (cur_task s) s (\<lambda>cur.
        let s = upd_tcb cur (\<lambda>t. t\<lparr>stack_pointer := current_stack_pointer\<rparr>) s in
        if \<not> artos_task_stack_valid (tcbs s cur) current_stack_pointer s
        then Halt (Failure ARTOS_FAILURE_STACK_OVERFLOW (Some TASKS_C) 204) s
        else res_bind
          (if cur \<noteq> IdleTask \<and> cont (lists s) (StateItem cur) = None
           then rtos_insert_ready_list (Some cur) s else Ret s) (\<lambda>s.
          if \<not> rtos_check_runnable_task None s
          then Ret (Some IdleTask, s\<lparr>cur_task := Some IdleTask\<rparr>)
          else schedule_highest clz s)))"

definition rtos_scheduler_start ::
    "(u32 \<Rightarrow> u8) \<Rightarrow> 'z kernel_scheme \<Rightarrow> (tcb_ref option \<times> 'z kernel_scheme, 'z) kres" where
  "rtos_scheduler_start clz = rtos_scheduler_select_next clz 0"

definition rtos_scheduler_switch_context ::
    "(u32 \<Rightarrow> u8) \<Rightarrow> u32 \<Rightarrow> 'z kernel_scheme \<Rightarrow> (u32 \<times> 'z kernel_scheme, 'z) kres" where
  "rtos_scheduler_switch_context clz current_stack_pointer s =
     (let (prev_state, s) = rtos_port_enter_critical s in
      res_bind (rtos_scheduler_select_next clz current_stack_pointer s) (\<lambda>(next, s).
        let s = rtos_port_exit_critical prev_state s
        in case next of None \<Rightarrow> Ret (0, s) | Some t \<Rightarrow> Ret (stack_pointer (tcbs s t), s)))"

section \<open>Blocking, unblocking, ticks\<close>

definition rtos_block_current_task :: "u32 \<Rightarrow> list_ref option \<Rightarrow> bool \<Rightarrow> 'z kproc" where
  "rtos_block_current_task wake_tick wait_obj forever s =
     asserts TASKS_C
       [(238, cur_task s \<noteq> None),
        (239, cur_task s \<noteq> Some IdleTask),
        (240, cont (lists s) (StateItem (the (cur_task s))) = None),
        (241, cont (lists s) (EventItem (the (cur_task s))) = None)] s
     (if cur_task s = None \<or> cont (lists s) (StateItem (the (cur_task s))) \<noteq> None then Ret s
      else let t = the (cur_task s);
               s = s\<lparr>lists := set_value (StateItem t) wake_tick (lists s)\<rparr>
           in res_bind
                (if forever then on_lists (rtos_list_insert_end (Some SuspendL) (Some (StateItem t))) s
                 else if wake_tick < ticks s
                 then on_lists (rtos_list_insert_sorted (Some (next_delayed s)) (Some (StateItem t))) s
                 else on_lists (rtos_list_insert_sorted (Some (cur_delayed s)) (Some (StateItem t))) s) (\<lambda>s.
              if wait_obj \<noteq> None
              then let s = s\<lparr>lists := set_value (EventItem t) (ucast (effective_priority (tcbs s t))) (lists s)\<rparr>
                   in on_lists (rtos_list_insert_reversed_sorted wait_obj (Some (EventItem t))) s
              else Ret s))"

definition blocked_list :: "list_ref option \<Rightarrow> bool" where
  "blocked_list l \<longleftrightarrow> l = Some DelayedL \<or> l = Some DelayedOverflowL \<or> l = Some SuspendL"

definition rtos_unblock_task :: "item_ref option \<Rightarrow> rtos_wait_reason \<Rightarrow> 'z kproc" where
  "rtos_unblock_task task_item reason s =
     (case task_item of None \<Rightarrow> Ret s
      | Some i \<Rightarrow>
         (case own (lists s) i of None \<Rightarrow> Ret s
          | Some task \<Rightarrow>
             (if cont (lists s) i = None then Ret s
              else let tsk_state_l = cont (lists s) (StateItem task) in
              asserts TASKS_C [(270, blocked_list tsk_state_l)] s
              (if blocked_list tsk_state_l then
                 res_bind (on_lists (rtos_list_remove (Some (StateItem task))) s) (\<lambda>s.
                 res_bind (if cont (lists s) (EventItem task) \<noteq> None
                           then on_lists (rtos_list_remove (Some (EventItem task))) s else Ret s) (\<lambda>s.
                 res_bind (rtos_insert_ready_list (Some task) s) (\<lambda>s.
                 Ret (upd_tcb task (\<lambda>t. t\<lparr>wait_reason := reason\<rparr>) s))))
               else Ret s))))"

text \<open>The two loops of \<open>rtos_tick_handler\<close>; \<open>None\<close> if the loop does not end.\<close>

partial_function (option) drain_delayed ::
    "'z kernel_scheme \<Rightarrow> ('z kernel_scheme, 'z kernel_scheme) res option" where
  "drain_delayed s =
     (if counts (lists s) (cur_delayed s) = 0 then Some (Ret s)
      else case on_lists (rtos_list_remove (nxt (lists s) (Sentinel (cur_delayed s)))) s of
             Ret s \<Rightarrow> drain_delayed s
           | Halt c s \<Rightarrow> Some (Halt c s)
           | Loops \<Rightarrow> Some Loops)"

definition wake_first :: "'z kproc" where
  "wake_first s =
     deref (nxt (lists s) (Sentinel (cur_delayed s))) s (\<lambda>first.
     deref (own (lists s) first) s (\<lambda>task.
       rtos_unblock_task (Some (StateItem task)) WAIT_TIMED_OUT s))"

definition first_expired :: "'z kernel_scheme \<Rightarrow> bool" where
  "first_expired s \<longleftrightarrow>
     counts (lists s) (cur_delayed s) \<noteq> 0 \<and>
     val (lists s) (the (nxt (lists s) (Sentinel (cur_delayed s)))) \<le> ticks s"

partial_function (option) wake_expired ::
    "'z kernel_scheme \<Rightarrow> ('z kernel_scheme, 'z kernel_scheme) res option" where
  "wake_expired s =
     (if counts (lists s) (cur_delayed s) \<noteq> 0 \<and> nxt (lists s) (Sentinel (cur_delayed s)) = None
      then Some (Halt NullDeref s)
      else if \<not> first_expired s then Some (Ret s)
      else case wake_first s of
             Ret s \<Rightarrow> wake_expired s
           | Halt c s \<Rightarrow> Some (Halt c s)
           | Loops \<Rightarrow> Some Loops)"

definition loop_res :: "('a, 's) res option \<Rightarrow> ('a, 's) res" where
  "loop_res r = (case r of None \<Rightarrow> Loops | Some x \<Rightarrow> x)"

definition switch_epoch :: "'z kproc" where
  "switch_epoch s =
     (if ticks s = 0 then
        let temp = cur_delayed s
        in res_bind (loop_res (drain_delayed s)) (\<lambda>s.
           Ret (s\<lparr>cur_delayed := next_delayed s, next_delayed := temp\<rparr>))
      else Ret s)"

definition rtos_tick_handler :: "'z kproc" where
  "rtos_tick_handler s =
     (let (prev_state, s) = rtos_port_enter_critical s;
          s = s\<lparr>ticks := ticks s + 1\<rparr>
      in res_bind (switch_epoch s) (\<lambda>s.
         res_bind (loop_res (wake_expired s)) (\<lambda>s.
         let s = rtos_port_exit_critical prev_state s
         in Ret (if rtos_check_runnable_task (cur_task s) s
                 then rtos_port_request_context_switch s else s))))"

section \<open>Accessors\<close>

definition rtos_current_tick :: "'z kernel_scheme \<Rightarrow> u32" where
  "rtos_current_tick s = ticks s"

definition rtos_scheduler_current_task :: "'z kernel_scheme \<Rightarrow> tcb_ref option" where
  "rtos_scheduler_current_task s = cur_task s"

definition rtos_current_wait_reason :: "'z kernel_scheme \<Rightarrow> rtos_wait_reason" where
  "rtos_current_wait_reason s =
     (case cur_task s of None \<Rightarrow> WAIT_NO_REASON | Some t \<Rightarrow> wait_reason (tcbs s t))"

definition rtos_clear_current_wait_reason :: "'z kernel_scheme \<Rightarrow> 'z kernel_scheme" where
  "rtos_clear_current_wait_reason s =
     (case cur_task s of None \<Rightarrow> s
      | Some t \<Rightarrow>
          (let (prev_state, s) = rtos_port_enter_critical s;
               s = upd_tcb t (\<lambda>x. x\<lparr>wait_reason := WAIT_NO_REASON\<rparr>) s
           in rtos_port_exit_critical prev_state s))"

definition rtos_current_effective_priority :: "'z kernel_scheme \<Rightarrow> u8" where
  "rtos_current_effective_priority s =
     (case cur_task s of None \<Rightarrow> 0 | Some t \<Rightarrow> effective_priority (tcbs s t))"

section \<open>Mutex counts and effective priorities\<close>

definition rtos_increment_mutex_count :: "tcb_ref option \<Rightarrow> 'z kernel_scheme \<Rightarrow> 'z kernel_scheme" where
  "rtos_increment_mutex_count task s =
     (case task of None \<Rightarrow> s
      | Some t \<Rightarrow> (if mutexes_held (tcbs s t) \<noteq> 0xFF
                    then upd_tcb t (\<lambda>x. x\<lparr>mutexes_held := mutexes_held x + 1\<rparr>) s else s))"

definition rtos_decrement_mutex_count :: "tcb_ref option \<Rightarrow> 'z kernel_scheme \<Rightarrow> 'z kernel_scheme" where
  "rtos_decrement_mutex_count task s =
     (case task of None \<Rightarrow> s
      | Some t \<Rightarrow> (if mutexes_held (tcbs s t) \<noteq> 0
                    then upd_tcb t (\<lambda>x. x\<lparr>mutexes_held := mutexes_held x - 1\<rparr>) s else s))"

definition rtos_set_effective_priority ::
    "tcb_ref option \<Rightarrow> u8 \<Rightarrow> 'z kernel_scheme \<Rightarrow> (bool \<times> 'z kernel_scheme, 'z) kres" where
  "rtos_set_effective_priority task new_priority s =
     asserts TASKS_C
       [(344, task \<noteq> None),
        (345, unat (priority (tcbs s (the task))) < ARTOS_PRIORITY_COUNT),
        (346, unat (effective_priority (tcbs s (the task))) < ARTOS_PRIORITY_COUNT),
        (347, unat new_priority < ARTOS_PRIORITY_COUNT),
        (348, new_priority \<ge> priority (tcbs s (the task)))] s
     (if task = None \<or> effective_priority (tcbs s (the task)) = new_priority \<or>
         priority (tcbs s (the task)) > new_priority \<or> unat new_priority \<ge> ARTOS_PRIORITY_COUNT
      then Ret (False, s)
      else let t = the task;
               old_priority = unat (effective_priority (tcbs s t));
               event_list = cont (lists s) (EventItem t);
               is_ready = (cont (lists s) (StateItem t) = Some (ReadyL old_priority))
        in res_bind
             (if is_ready then
                res_bind (on_lists (rtos_list_remove (Some (StateItem t))) s) (\<lambda>s.
                Ret (if counts (lists s) (ReadyL old_priority) = 0
                     then s\<lparr>ready_bitmap := ready_bitmap s AND NOT (push_bit old_priority 1)\<rparr> else s))
              else Ret s) (\<lambda>s.
           res_bind
             (if event_list \<noteq> None then on_lists (rtos_list_remove (Some (EventItem t))) s else Ret s) (\<lambda>s.
           let s = upd_tcb t (\<lambda>x. x\<lparr>effective_priority := new_priority\<rparr>) s in
           res_bind
             (if event_list \<noteq> None
              then let s = s\<lparr>lists := set_value (EventItem t) (ucast new_priority) (lists s)\<rparr>
                   in on_lists (rtos_list_insert_reversed_sorted event_list (Some (EventItem t))) s
              else Ret s) (\<lambda>s.
           res_bind (if is_ready then rtos_insert_ready_list (Some t) s else Ret s) (\<lambda>s.
           Ret (True, s))))))"

definition rtos_priority_inherit :: "tcb_ref option \<Rightarrow> u8 \<Rightarrow> 'z kproc" where
  "rtos_priority_inherit inheritor donor_priority s =
     (if inheritor = None \<or> effective_priority (tcbs s (the inheritor)) \<ge> donor_priority then Ret s
      else res_bind (rtos_set_effective_priority inheritor donor_priority s) (\<lambda>(_, s). Ret s))"

definition rtos_priority_relinquish_after_unlock ::
    "tcb_ref option \<Rightarrow> 'z kernel_scheme \<Rightarrow> (bool \<times> 'z kernel_scheme, 'z) kres" where
  "rtos_priority_relinquish_after_unlock task s =
     (if task = None \<or> mutexes_held (tcbs s (the task)) \<noteq> 0 then Ret (False, s)
      else rtos_set_effective_priority task (priority (tcbs s (the task))) s)"

definition rtos_priority_disinherit_after_timeout ::
    "tcb_ref option \<Rightarrow> u8 \<Rightarrow> 'z kernel_scheme \<Rightarrow> (bool \<times> 'z kernel_scheme, 'z) kres" where
  "rtos_priority_disinherit_after_timeout task required_priority s =
     (if task = None \<or> mutexes_held (tcbs s (the task)) \<noteq> 1 then Ret (False, s)
      else let t = the task;
               new_priority = (if required_priority > priority (tcbs s t)
                               then required_priority else priority (tcbs s t))
           in if new_priority < effective_priority (tcbs s t)
              then rtos_set_effective_priority task new_priority s
              else Ret (False, s))"

section \<open>Inspection\<close>

definition artos_task_count :: "'z kernel_scheme \<Rightarrow> u32" where
  "artos_task_count s = tsk_cnt s"

record artos_task_info =
  info_entry :: u32
  info_state :: artos_task_state
  info_base_priority :: u8
  info_effective_priority :: u8
  info_mutexes_held :: u8
  info_stack_word_count :: u32
  info_stack_free_words :: u32
  info_stack_guard_valid :: bool

text \<open>
  \<open>info\<close> is the caller's buffer, \<open>None\<close> for NULL. The result is the return value, the
  buffer afterwards and the state. Reading \<open>_task_pool[index]\<close> needs an index inside the pool.
\<close>

definition artos_task_get_info ::
    "u32 \<Rightarrow> artos_task_info option \<Rightarrow> 'z kernel_scheme \<Rightarrow> bool \<times> artos_task_info option \<times> 'z kernel_scheme" where
  "artos_task_get_info index info s =
     (if index \<ge> tsk_cnt s \<or> tcb_entry (tcbs s (Pool (unat index))) = 0 \<or> info = None then (False, info, s)
      else let (prev_state, s) = rtos_port_enter_critical s;
               task = tcbs s (Pool (unat index));
               container = cont (lists s) (StateItem (Pool (unat index)));
               info' = \<lparr>info_entry = tcb_entry task,
                 info_state =
                   (if container = None then ARTOS_TASK_STATE_RUNNING
                    else if container = Some DelayedL \<or> container = Some DelayedOverflowL
                    then ARTOS_TASK_STATE_BLOCKED
                    else if container = Some SuspendL then ARTOS_TASK_STATE_SUSPENDED
                    else ARTOS_TASK_STATE_READY),
                 info_base_priority = priority task,
                 info_effective_priority = effective_priority task,
                 info_mutexes_held = mutexes_held task,
                 info_stack_word_count = stack_word_count task,
                 info_stack_free_words = (signed_drop_bit 2 (stack_pointer task - stack_buffer task)),
                 info_stack_guard_valid = False\<rparr>
           in (True, Some info', rtos_port_exit_critical prev_state s))"

end
