(* ===== verification/Tasks_Inv.thy ===== *)
theory Tasks_Inv
  imports Tasks
begin

unbundle bit_operations_syntax

text \<open>
  The invariant of the scheduler and what each operation of \<open>tasks.c\<close> does, stated on the
  contents \<open>C\<close> of the live lists (a \<open>list_view\<close>) and proved through the interface
  \<open>intrusive_lists\<close>, as interpreted on \<open>list.c\<close>.
\<close>

section \<open>Views\<close>

definition take_out :: "item_ref \<Rightarrow> list_view \<Rightarrow> list_view" where
  "take_out i C = (\<lambda>l. map_option (remove1 i) (C l))"

definition append_to :: "list_ref \<Rightarrow> item_ref \<Rightarrow> list_view \<Rightarrow> list_view" where
  "append_to l i C = C(l \<mapsto> the (C l) @ [i])"

lemma take_out_apply: "take_out i C l = map_option (remove1 i) (C l)"
  by (simp add: take_out_def)

lemma take_out_None_iff [simp]: "take_out i C l = None \<longleftrightarrow> C l = None"
  by (simp add: take_out_def)

lemma take_out_unlisted:
  assumes "lists_wf m C" "\<not> is_sentinel i" "cont m i = None"
  shows "take_out i C = C"
proof
  fix l
  show "take_out i C l = C l"
    using rl.member[OF assms(1,2), of l] assms(3)
    by (cases "C l") (auto simp: take_out_def remove1_idem)
qed

lemma take_out_upd:
  assumes "lists_wf m C" "C l = Some xs" "i \<in> set xs"
  shows "take_out i C = C(l \<mapsto> remove1 i xs)"
proof
  fix k
  show "take_out i C k = (C(l \<mapsto> remove1 i xs)) k"
    using rl.lists_disjoint[OF assms(1,2) _ assms(3), of k] assms(2)
    by (cases "C k") (auto simp: take_out_def intro: remove1_idem)
qed

text \<open>The tasks in the ready lists keep their places, and any new ones go to the ends.\<close>

definition ready_grows :: "list_view \<Rightarrow> list_view \<Rightarrow> bool" where
  "ready_grows C C' \<longleftrightarrow> (\<forall>p. \<exists>ys. C' (ReadyL p) = map_option (\<lambda>xs. xs @ ys) (C (ReadyL p)))"

lemma ready_grows_same: "(\<And>p. C' (ReadyL p) = C (ReadyL p)) \<Longrightarrow> ready_grows C C'"
  unfolding ready_grows_def by (auto intro!: exI[of _ "[]"] simp: option.map_ident)

lemma ready_grows_refl [simp]: "ready_grows C C"
  by (simp add: ready_grows_same)

lemma append_grows: "C (ReadyL p) \<noteq> None \<Longrightarrow> ready_grows C (append_to (ReadyL p) i C)"
  unfolding ready_grows_def append_to_def by (auto simp: option.map_ident intro: exI[of _ "[]"] exI[of _ "[i]"])

lemma ready_grows_trans: "ready_grows C C1 \<Longrightarrow> ready_grows C1 C2 \<Longrightarrow> ready_grows C C2"
  unfolding ready_grows_def
proof
  fix p assume a: "\<forall>p. \<exists>ys. C1 (ReadyL p) = map_option (\<lambda>xs. xs @ ys) (C (ReadyL p))"
    "\<forall>p. \<exists>ys. C2 (ReadyL p) = map_option (\<lambda>xs. xs @ ys) (C1 (ReadyL p))"
  obtain ys zs where "C1 (ReadyL p) = map_option (\<lambda>xs. xs @ ys) (C (ReadyL p))" "C2 (ReadyL p) = map_option (\<lambda>xs. xs @ zs) (C1 (ReadyL p))"
    using a by blast
  then have "C2 (ReadyL p) = map_option (\<lambda>xs. xs @ ys @ zs) (C (ReadyL p))" by (cases "C (ReadyL p)") simp_all
  then show "\<exists>ys. C2 (ReadyL p) = map_option (\<lambda>xs. xs @ ys) (C (ReadyL p))" by blast
qed

text \<open>No list is so long that its 32-bit count wraps.\<close>

definition short :: "list_view \<Rightarrow> bool" where
  "short C \<longleftrightarrow> (\<forall>l xs. C l = Some xs \<longrightarrow> length xs < 2 ^ 32)"

lemma remove_take_out:
  assumes wf: "lists_wf m C" and i: "\<not> is_sentinel i" "cont m i = Some l" and len: "short C"
  shows "\<exists>m'. rtos_list_remove (Some i) m = Ret m' \<and> lists_wf m' (take_out i C) \<and> same_data m m' \<and>
           (\<forall>j. \<not> is_sentinel j \<longrightarrow> cont m' j = (if j = i then None else cont m j))"
proof -
  obtain xs where xs: "C l = Some xs" "i \<in> set xs" using rl.member[OF wf i(1), of l] i(2) by blast
  then obtain m' where m': "rtos_list_remove (Some i) m = Ret m'" "lists_wf m' (C(l \<mapsto> remove1 i xs))"
    "same_data m m'" using rl.remove_law[OF wf xs] len by (auto simp: short_def)
  then show ?thesis
    using rl.container_after_remove[OF wf xs(1) m'(2) xs(2)] take_out_upd[OF wf xs]
    by (intro exI[of _ m']) (auto simp del: fun_upd_apply)
qed

lemma append_end:
  assumes wf: "lists_wf m C" and l: "C l \<noteq> None" and i: "\<not> is_sentinel i" "cont m i = None" "own m i \<noteq> None"
  shows "\<exists>m'. rtos_list_insert_end (Some l) (Some i) m = Ret m' \<and> lists_wf m' (append_to l i C) \<and> same_data m m' \<and>
           (\<forall>j. \<not> is_sentinel j \<longrightarrow> cont m' j = (if j = i then Some l else cont m j))"
proof -
  obtain xs where xs: "C l = Some xs" using l by blast
  then obtain m' where m': "rtos_list_insert_end (Some l) (Some i) m = Ret m'" "lists_wf m' (C(l \<mapsto> xs @ [i]))"
    "same_data m m'" using rl.end_law[OF wf xs i(2,3,1)] by blast
  then show ?thesis
    using rl.container_after_insert[OF wf xs m'(2), of i] xs
    by (intro exI[of _ m']) (auto simp: append_to_def simp del: fun_upd_apply)
qed

section \<open>The invariant\<close>

definition user_task :: "'z kernel_scheme \<Rightarrow> tcb_ref \<Rightarrow> bool" where
  "user_task s t \<longleftrightarrow> (\<exists>i. t = Pool i \<and> i < unat (tsk_cnt s))"

text \<open>
  One task: its items are its own, its priorities are in range, and its position is
  consistent. The state item is in no list (the task runs, or is being switched), in the ready
  list of its effective priority, or in one of the three lists of blocked tasks. Only a blocked
  task can be in a wait list, under its effective priority.
\<close>

definition task_ok :: "'z kernel_scheme \<Rightarrow> tcb_ref \<Rightarrow> bool" where
  "task_ok s t \<longleftrightarrow>
     own (lists s) (StateItem t) = Some t \<and> own (lists s) (EventItem t) = Some t \<and>
     unat (effective_priority (tcbs s t)) < ARTOS_PRIORITY_COUNT \<and>
     priority (tcbs s t) \<le> effective_priority (tcbs s t) \<and>
     (cont (lists s) (StateItem t) = None \<or>
      cont (lists s) (StateItem t) = Some (ReadyL (unat (effective_priority (tcbs s t)))) \<or>
      blocked_list (cont (lists s) (StateItem t))) \<and>
     (\<forall>l. cont (lists s) (EventItem t) = Some l \<longrightarrow>
        is_wait_list l \<and> blocked_list (cont (lists s) (StateItem t)) \<and>
        val (lists s) (EventItem t) = ucast (effective_priority (tcbs s t)))"

definition unlisted :: "'z kernel_scheme \<Rightarrow> tcb_ref \<Rightarrow> bool" where
  "unlisted s t \<longleftrightarrow> cont (lists s) (StateItem t) = None \<and> cont (lists s) (EventItem t) = None"

definition kernel_lists :: "list_view \<Rightarrow> bool" where
  "kernel_lists C \<longleftrightarrow>
     (\<forall>p. C (ReadyL p) \<noteq> None \<longleftrightarrow> p < ARTOS_PRIORITY_COUNT) \<and>
     C DelayedL \<noteq> None \<and> C DelayedOverflowL \<noteq> None \<and> C SuspendL \<noteq> None"

definition bitmap_ok :: "'z kernel_scheme \<Rightarrow> list_view \<Rightarrow> bool" where
  "bitmap_ok s C \<longleftrightarrow> (\<forall>p. bit (ready_bitmap s) p \<longleftrightarrow> (\<exists>xs. C (ReadyL p) = Some xs \<and> xs \<noteq> []))"

definition delayed_ptrs_ok :: "'z kernel_scheme \<Rightarrow> bool" where
  "delayed_ptrs_ok s \<longleftrightarrow>
     (cur_delayed s, next_delayed s) \<in> {(DelayedL, DelayedOverflowL), (DelayedOverflowL, DelayedL)}"

definition order_ok :: "(item_ref \<Rightarrow> u32) \<Rightarrow> list_view \<Rightarrow> bool" where
  "order_ok f C \<longleftrightarrow>
     (\<forall>l xs. C l = Some xs \<longrightarrow>
        (l = DelayedL \<or> l = DelayedOverflowL \<longrightarrow> asc f xs) \<and> (is_wait_list l \<longrightarrow> desc f xs))"

definition pool_ok :: "'z kernel_scheme \<Rightarrow> bool" where
  "pool_ok s \<longleftrightarrow> unat (tsk_cnt s) \<le> ARTOS_MAX_TASKS \<and>
     (\<forall>i < ARTOS_MAX_TASKS. stack_pointer (tcbs s (Pool i)) = 0 \<longleftrightarrow> unat (tsk_cnt s) \<le> i)"

definition idle_ok :: "'z kernel_scheme \<Rightarrow> bool" where
  "idle_ok s \<longleftrightarrow> effective_priority (tcbs s IdleTask) = 0"

definition cur_ok :: "'z kernel_scheme \<Rightarrow> bool" where
  "cur_ok s \<longleftrightarrow> (\<forall>t. cur_task s = Some t \<longrightarrow> t = IdleTask \<or> user_task s t)"

definition kinv :: "'z kernel_scheme \<Rightarrow> list_view \<Rightarrow> bool" where
  "kinv s C \<longleftrightarrow>
     lists_wf (lists s) C \<and> kernel_lists C \<and> bitmap_ok s C \<and> delayed_ptrs_ok s \<and>
     order_ok (val (lists s)) C \<and> pool_ok s \<and> idle_ok s \<and> cur_ok s \<and>
     (\<forall>t. if user_task s t then task_ok s t else unlisted s t)"

text \<open>Between ticks, delayed tasks of the current epoch wake later, those of the next one earlier in it.\<close>

definition tick_ok :: "'z kernel_scheme \<Rightarrow> list_view \<Rightarrow> bool" where
  "tick_ok s C \<longleftrightarrow>
     (\<forall>i \<in> set (the (C (cur_delayed s))). ticks s < val (lists s) i) \<and>
     (\<forall>i \<in> set (the (C (next_delayed s))). val (lists s) i < ticks s)"

lemma kinv_wf: "kinv s C \<Longrightarrow> lists_wf (lists s) C"
  by (simp add: kinv_def)

lemma kinv_task: "kinv s C \<Longrightarrow> user_task s t \<Longrightarrow> task_ok s t"
  by (simp add: kinv_def)

lemma kinv_listed:
  assumes "kinv s C" "C l = Some xs" "i \<in> set xs"
  shows "\<exists>t. user_task s t \<and> i = (if is_wait_list l then EventItem t else StateItem t)"
proof -
  have c: "cont (lists s) i = Some l" "\<not> is_sentinel i"
    using rl.node[OF kinv_wf[OF assms(1)] assms(2,3)] lists_wf_container[OF kinv_wf[OF assms(1)] assms(2,3)]
    by auto
  then obtain t where t: "i = StateItem t \<or> i = EventItem t" by (cases i) auto
  with c have u: "user_task s t" using assms(1) by (auto simp: kinv_def unlisted_def split: if_splits)
  with assms(1) have "task_ok s t" by (rule kinv_task)
  with c t u show ?thesis
    by (auto simp: task_ok_def blocked_list_def intro!: exI[of _ t])
qed

lemma kinv_length:
  assumes "kinv s C" "C l = Some xs"
  shows "length xs < 2 ^ 32"
proof -
  let ?f = "\<lambda>i. if is_wait_list l then EventItem (Pool i) else StateItem (Pool i)"
  have "set xs \<subseteq> ?f ` {..<unat (tsk_cnt s)}"
  proof
    fix i assume "i \<in> set xs"
    from kinv_listed[OF assms this] show "i \<in> ?f ` {..<unat (tsk_cnt s)}" by (auto simp: user_task_def)
  qed
  then have "card (set xs) \<le> unat (tsk_cnt s)"
    by (metis (no_types, lifting) card_image_le card_lessThan card_mono finite_imageI finite_lessThan le_trans)
  moreover have "distinct xs" by (rule rl.dist[OF kinv_wf[OF assms(1)] assms(2)])
  moreover have "unat (tsk_cnt s) \<le> 16" using assms(1) by (simp add: kinv_def pool_ok_def ARTOS_MAX_TASKS_def)
  ultimately show ?thesis by (simp add: distinct_card)
qed

lemma kinv_short: "kinv s C \<Longrightarrow> short C"
  using kinv_length unfolding short_def by blast


section \<open>Unblocking\<close>

lemma on_lists_Ret: "f (lists s) = Ret m \<Longrightarrow> on_lists f s = Ret (s\<lparr>lists := m\<rparr>)"
  by (simp add: on_lists_def)

lemma on_lists_if:
  "(if b then f m else Ret m) = Ret m' \<Longrightarrow> lists s = m \<Longrightarrow>
   (if b then on_lists f s else Ret s) = Ret (s\<lparr>lists := m'\<rparr>)"
  by (auto simp: on_lists_def split: if_splits)

lemma short_take_out: "short C \<Longrightarrow> short (take_out i C)"
  unfolding short_def take_out_def by (auto simp: length_remove1) (metis diff_le_self le_less_trans)

lemma remove_if_listed:
  assumes "lists_wf m C" "\<not> is_sentinel i" "short C"
  shows "\<exists>m'. (if cont m i \<noteq> None then rtos_list_remove (Some i) m else Ret m) = Ret m' \<and>
           lists_wf m' (take_out i C) \<and> same_data m m' \<and>
           (\<forall>j. \<not> is_sentinel j \<longrightarrow> cont m' j = (if j = i then None else cont m j))"
proof (cases "cont m i")
  case None
  then show ?thesis using assms(1) take_out_unlisted[OF assms(1,2) None] by auto
next
  case (Some l)
  then show ?thesis using remove_take_out[OF assms(1,2) Some assms(3)] by auto
qed

lemma upd_tcb_fields [simp]:
  "tcbs (upd_tcb t f s) = (tcbs s)(t := f (tcbs s t))" "lists (upd_tcb t f s) = lists s"
  "tsk_cnt (upd_tcb t f s) = tsk_cnt s" "cur_task (upd_tcb t f s) = cur_task s"
  "ticks (upd_tcb t f s) = ticks s" "ready_bitmap (upd_tcb t f s) = ready_bitmap s"
  "cur_delayed (upd_tcb t f s) = cur_delayed s" "next_delayed (upd_tcb t f s) = next_delayed s"
  "primask (upd_tcb t f s) = primask s" "pendsv (upd_tcb t f s) = pendsv s"
  "stack_mem (upd_tcb t f s) = stack_mem s" "kernel.more (upd_tcb t f s) = kernel.more s"
  by (simp_all add: upd_tcb_def)

lemma insert_ready:
  assumes wf: "lists_wf (lists s) C" and p: "p = unat (effective_priority (tcbs s t))" "p < ARTOS_PRIORITY_COUNT"
    and l: "C (ReadyL p) \<noteq> None" and i: "cont (lists s) (StateItem t) = None" "own (lists s) (StateItem t) \<noteq> None"
  shows "\<exists>m. rtos_insert_ready_list (Some t) s = Ret (s\<lparr>lists := m, ready_bitmap := ready_bitmap s OR push_bit p 1\<rparr>) \<and>
           lists_wf m (append_to (ReadyL p) (StateItem t) C) \<and> same_data (lists s) m \<and>
           (\<forall>j. \<not> is_sentinel j \<longrightarrow> cont m j = (if j = StateItem t then Some (ReadyL p) else cont (lists s) j))"
  using append_end[OF wf l, of "StateItem t"] i p
  by (auto simp: rtos_insert_ready_list_def Let_def on_lists_def)

definition unblock_view :: "tcb_ref \<Rightarrow> nat \<Rightarrow> list_view \<Rightarrow> list_view" where
  "unblock_view t p C = append_to (ReadyL p) (StateItem t) (take_out (EventItem t) (take_out (StateItem t) C))"

definition unblocked :: "tcb_ref \<Rightarrow> rtos_wait_reason \<Rightarrow> list_mem \<Rightarrow> 'z kernel_scheme \<Rightarrow> 'z kernel_scheme" where
  "unblocked t reason m s =
     upd_tcb t (\<lambda>x. x\<lparr>wait_reason := reason\<rparr>)
       (s\<lparr>lists := m, ready_bitmap := ready_bitmap s OR push_bit (unat (effective_priority (tcbs s t))) 1\<rparr>)"

lemma unblock_runs:
  assumes inv: "kinv s C" and t: "user_task s t" "blocked_list (cont (lists s) (StateItem t))"
    and i: "i = StateItem t \<or> i = EventItem t \<and> cont (lists s) (EventItem t) \<noteq> None"
  shows "\<exists>m. rtos_unblock_task (Some i) reason s = Ret (unblocked t reason m s) \<and>
           lists_wf m (unblock_view t (unat (effective_priority (tcbs s t))) C) \<and> same_data (lists s) m \<and>
           (\<forall>j. \<not> is_sentinel j \<longrightarrow> cont m j =
              (if j = StateItem t then Some (ReadyL (unat (effective_priority (tcbs s t))))
               else if j = EventItem t then None else cont (lists s) j))"
proof -
  let ?p = "unat (effective_priority (tcbs s t))" and ?S = "StateItem t" and ?E = "EventItem t"
  have own: "own (lists s) ?S = Some t" "own (lists s) ?E = Some t" and p: "?p < ARTOS_PRIORITY_COUNT"
    using kinv_task[OF inv t(1)] by (auto simp: task_ok_def)
  obtain l where l: "cont (lists s) ?S = Some l" using t(2) by (auto simp: blocked_list_def)
  obtain m1 where m1: "rtos_list_remove (Some ?S) (lists s) = Ret m1" "lists_wf m1 (take_out ?S C)"
    "same_data (lists s) m1" "\<And>j. \<not> is_sentinel j \<Longrightarrow> cont m1 j = (if j = ?S then None else cont (lists s) j)"
    using remove_take_out[OF kinv_wf[OF inv] _ l kinv_short[OF inv]] by auto
  obtain m2 where m2: "(if cont m1 ?E \<noteq> None then rtos_list_remove (Some ?E) m1 else Ret m1) = Ret m2"
    "lists_wf m2 (take_out ?E (take_out ?S C))" "same_data m1 m2"
    "\<And>j. \<not> is_sentinel j \<Longrightarrow> cont m2 j = (if j = ?E then None else cont m1 j)"
    using remove_if_listed[OF m1(2) _ short_take_out[OF kinv_short[OF inv]], of ?E] by auto
  have "take_out ?E (take_out ?S C) (ReadyL ?p) \<noteq> None" using inv p by (simp add: kinv_def kernel_lists_def)
  moreover have "cont m2 ?S = None" using m2(4)[of ?S] m1(4)[of ?S] by simp
  moreover have "own m2 ?S \<noteq> None" using own m1(3) m2(3) by (simp add: same_data_def)
  ultimately obtain m where m: "rtos_insert_ready_list (Some t) (s\<lparr>lists := m2\<rparr>) =
        Ret (s\<lparr>lists := m, ready_bitmap := ready_bitmap s OR push_bit ?p 1\<rparr>)"
      "lists_wf m (unblock_view t ?p C)" "same_data m2 m"
      "\<And>j. \<not> is_sentinel j \<Longrightarrow> cont m j = (if j = ?S then Some (ReadyL ?p) else cont m2 j)"
    using insert_ready[of "s\<lparr>lists := m2\<rparr>" "take_out ?E (take_out ?S C)" ?p t] m2(2) p
    by (auto simp: unblock_view_def)
  have "own (lists s) i = Some t" "cont (lists s) i \<noteq> None" using i own l by auto
  then have "rtos_unblock_task (Some i) reason s = Ret (unblocked t reason m s)"
    using t(2) on_lists_Ret[of "rtos_list_remove (Some ?S)" s, OF m1(1)] m(1)
      on_lists_if[of _ "rtos_list_remove (Some ?E)" m1, OF m2(1), of "s\<lparr>lists := m1\<rparr>"]
    by (auto simp: rtos_unblock_task_def unblocked_def upd_tcb_def Let_def)
  then show ?thesis
    using m(2) same_data_trans[OF m1(3) same_data_trans[OF m2(3) m(3)]] m(4) m2(4) m1(4)
    by (intro exI[of _ m]) auto
qed


lemma priority_lt_32: "p < ARTOS_PRIORITY_COUNT \<Longrightarrow> p < 32"
  by (simp add: ARTOS_PRIORITY_COUNT_def)

lemma take_out_other:
  assumes "lists_wf m C" "\<not> is_sentinel i" "cont m i \<noteq> Some l"
  shows "take_out i C l = C l"
  using rl.member[OF assms(1,2), of l] assms(3)
  by (cases "C l") (auto simp: take_out_def intro: remove1_idem)

lemma kernel_lists_take_out [simp]: "kernel_lists (take_out i C) = kernel_lists C"
  by (simp add: kernel_lists_def)

lemma kernel_lists_upd: "kernel_lists C \<Longrightarrow> C l \<noteq> None \<Longrightarrow> kernel_lists (C(l \<mapsto> xs))"
  by (auto simp: kernel_lists_def)

lemma kernel_lists_append_to: "kernel_lists C \<Longrightarrow> C l \<noteq> None \<Longrightarrow> kernel_lists (append_to l i C)"
  unfolding append_to_def by (rule kernel_lists_upd)

lemma order_ok_take_out: "order_ok f C \<Longrightarrow> order_ok f (take_out i C)"
  unfolding order_ok_def take_out_def
  by (auto intro: asc_remove1 desc_remove1)

lemma order_ok_append_to:
  "order_ok f C \<Longrightarrow> \<not> is_wait_list l \<Longrightarrow> l \<noteq> DelayedL \<Longrightarrow> l \<noteq> DelayedOverflowL \<Longrightarrow> order_ok f (append_to l i C)"
  by (auto simp: order_ok_def append_to_def)

lemma order_ok_same_data: "same_data m m' \<Longrightarrow> order_ok (val m') C = order_ok (val m) C"
proof -
  assume "same_data m m'"
  then have "(\<lambda>i. val m' i) = (\<lambda>i. val m i)" by (auto simp: same_data_def)
  then show ?thesis by simp
qed

lemma user_task_cong: "tsk_cnt s' = tsk_cnt s \<Longrightarrow> user_task s' t = user_task s t"
  by (simp add: user_task_def)

text \<open>An operation on task \<open>t\<close> leaves every other task as it was.\<close>

lemma task_ok_frame:
  assumes "task_ok s u"
    and "\<And>j. j = StateItem u \<or> j = EventItem u \<Longrightarrow>
           own (lists s') j = own (lists s) j \<and> cont (lists s') j = cont (lists s) j \<and> val (lists s') j = val (lists s) j"
    and "effective_priority (tcbs s' u) = effective_priority (tcbs s u)" "priority (tcbs s' u) = priority (tcbs s u)"
  shows "task_ok s' u"
  using assms unfolding task_ok_def by simp

lemma kinv_unlisted: "kinv s C \<Longrightarrow> \<not> user_task s t \<Longrightarrow> unlisted s t"
  unfolding kinv_def by meson

lemma tasks_frame:
  assumes "kinv s C" "user_task s t" "task_ok s' t"
    and "\<And>u j. u \<noteq> t \<Longrightarrow> j = StateItem u \<or> j = EventItem u \<Longrightarrow>
           own (lists s') j = own (lists s) j \<and> cont (lists s') j = cont (lists s) j \<and> val (lists s') j = val (lists s) j"
    and "\<And>u. u \<noteq> t \<Longrightarrow> effective_priority (tcbs s' u) = effective_priority (tcbs s u) \<and>
           priority (tcbs s' u) = priority (tcbs s u)"
  shows "if user_task s u then task_ok s' u else unlisted s' u"
proof (cases "u = t")
  case True
  then show ?thesis using assms(2,3) by simp
next
  case False
  have "task_ok s' u" if "user_task s u"
    using assms(4,5)[OF False] by (intro task_ok_frame[OF kinv_task[OF assms(1) that]]) auto
  moreover have "unlisted s' u" if "\<not> user_task s u"
    using assms(4)[OF False] kinv_unlisted[OF assms(1) that] by (simp add: unlisted_def)
  ultimately show ?thesis by simp
qed

lemma unblocked_fields [simp]:
  "lists (unblocked t r m s) = m" "tsk_cnt (unblocked t r m s) = tsk_cnt s"
  "cur_task (unblocked t r m s) = cur_task s" "ticks (unblocked t r m s) = ticks s"
  "cur_delayed (unblocked t r m s) = cur_delayed s" "next_delayed (unblocked t r m s) = next_delayed s"
  "primask (unblocked t r m s) = primask s" "pendsv (unblocked t r m s) = pendsv s"
  "stack_mem (unblocked t r m s) = stack_mem s"
  "tcbs (unblocked t r m s) = (tcbs s)(t := (tcbs s t)\<lparr>wait_reason := r\<rparr>)"
  "ready_bitmap (unblocked t r m s) = ready_bitmap s OR push_bit (unat (effective_priority (tcbs s t))) 1"
  by (simp_all add: unblocked_def)

lemma unblock_view_live: "C (ReadyL p) \<noteq> None \<Longrightarrow> unblock_view t p C l = None \<longleftrightarrow> C l = None"
  by (simp add: unblock_view_def append_to_def)

lemma unblock_view_apply:
  assumes "kinv s C" "user_task s t" "blocked_list (cont (lists s) (StateItem t))"
  shows "unblock_view t p C (ReadyL q) = (if q = p then Some (the (C (ReadyL p)) @ [StateItem t]) else C (ReadyL q))"
proof -
  have c: "cont (lists s) (StateItem t) \<noteq> Some (ReadyL q)" "cont (lists s) (EventItem t) \<noteq> Some (ReadyL q)" for q
    using kinv_task[OF assms(1,2)] assms(3) by (auto simp: task_ok_def blocked_list_def)
  have "take_out (StateItem t) C (ReadyL q) = C (ReadyL q)" "take_out (EventItem t) C (ReadyL q) = C (ReadyL q)" for q
    using take_out_other[OF kinv_wf[OF assms(1)]] c by auto
  then show ?thesis by (simp add: unblock_view_def append_to_def) (simp add: take_out_def)
qed

lemma unblock_grows:
  assumes "kinv s C" "user_task s t" "blocked_list (cont (lists s) (StateItem t))" "C (ReadyL p) \<noteq> None"
  shows "ready_grows C (unblock_view t p C)"
  unfolding ready_grows_def
proof
  fix q
  show "\<exists>ys. unblock_view t p C (ReadyL q) = map_option (\<lambda>xs. xs @ ys) (C (ReadyL q))"
    using assms(4) unblock_view_apply[OF assms(1-3), of p q]
    by (cases "q = p") (auto simp: option.map_ident intro: exI[of _ "[StateItem t]"] exI[of _ "[]"])
qed

lemma kinv_ready_live: "kinv s C \<Longrightarrow> user_task s t \<Longrightarrow> C (ReadyL (unat (effective_priority (tcbs s t)))) \<noteq> None"
  using kinv_task[of s C t] by (auto simp: kinv_def kernel_lists_def task_ok_def)

lemma unblock_kinv:
  assumes inv: "kinv s C" and t: "user_task s t" "blocked_list (cont (lists s) (StateItem t))"
    and p: "p = unat (effective_priority (tcbs s t))"
    and m: "lists_wf m (unblock_view t p C)" "same_data (lists s) m"
      "\<And>j. \<not> is_sentinel j \<Longrightarrow> cont m j =
         (if j = StateItem t then Some (ReadyL p) else if j = EventItem t then None else cont (lists s) j)"
  shows "kinv (unblocked t r m s) (unblock_view t p C)"
proof -
  note ok = kinv_task[OF inv t(1)]
  have pc: "p < ARTOS_PRIORITY_COUNT" using ok p by (simp add: task_ok_def)
  have live: "C (ReadyL p) \<noteq> None" using inv pc by (simp add: kinv_def kernel_lists_def)
  have "bitmap_ok (unblocked t r m s) (unblock_view t p C)"
    using inv priority_lt_32[OF pc] p
    by (auto simp: bitmap_ok_def kinv_def bit_set_iff unblock_view_apply[OF inv t])
  moreover have "order_ok (val m) (unblock_view t p C)"
    using inv unfolding order_ok_same_data[OF m(2)] unblock_view_def kinv_def
    by (intro order_ok_append_to order_ok_take_out) auto
  moreover have "kernel_lists (unblock_view t p C)"
    unfolding unblock_view_def using inv live by (intro kernel_lists_append_to) (simp_all add: kinv_def del: not_None_eq)
  moreover have "if user_task s u then task_ok (unblocked t r m s) u else unlisted (unblocked t r m s) u" for u
  proof (rule tasks_frame[OF inv t(1)])
    show "task_ok (unblocked t r m s) t" using ok m p by (auto simp: task_ok_def same_data_def)
  qed (use m(2,3) in \<open>auto simp: same_data_def\<close>)
  ultimately show ?thesis
    using inv m(1) unfolding kinv_def
    by (auto simp: pool_ok_def idle_ok_def cur_ok_def delayed_ptrs_ok_def user_task_def)
qed


section \<open>Ticks\<close>

definition woken :: "item_ref list \<Rightarrow> (tcb_ref \<Rightarrow> rtos_tcb) \<Rightarrow> tcb_ref \<Rightarrow> rtos_tcb" where
  "woken W T = (\<lambda>t. if StateItem t \<in> set W then (T t)\<lparr>wait_reason := WAIT_TIMED_OUT\<rparr> else T t)"

definition woken_cont :: "item_ref list \<Rightarrow> 'z kernel_scheme \<Rightarrow> item_ref \<Rightarrow> list_ref option" where
  "woken_cont W s j = (case j of
       StateItem t \<Rightarrow> (if j \<in> set W then Some (ReadyL (unat (effective_priority (tcbs s t)))) else cont (lists s) j)
     | EventItem t \<Rightarrow> (if StateItem t \<in> set W then None else cont (lists s) j)
     | Sentinel l \<Rightarrow> cont (lists s) j)"

lemma woken_single: "woken [StateItem t] T = T(t := (T t)\<lparr>wait_reason := WAIT_TIMED_OUT\<rparr>)"
  by (auto simp: woken_def)

text \<open>\<open>s'\<close> is \<open>s\<close> after the tasks of \<open>W\<close> have been woken: nothing else has changed.\<close>

definition wakes :: "'z kernel_scheme \<Rightarrow> item_ref list \<Rightarrow> 'z kernel_scheme \<Rightarrow> bool" where
  "wakes s W s' \<longleftrightarrow> (\<exists>m b. s' = s\<lparr>lists := m, ready_bitmap := b, tcbs := woken W (tcbs s)\<rparr> \<and>
     same_data (lists s) m \<and> (\<forall>j. \<not> is_sentinel j \<longrightarrow> cont m j = woken_cont W s j))"

lemma wakes_Nil: "wakes s [] s"
  unfolding wakes_def
  by (intro exI[of _ "lists s"] exI[of _ "ready_bitmap s"]) (auto simp: woken_def woken_cont_def split: item_ref.splits)

lemma wakes_Cons:
  assumes "wakes s [StateItem t] s1" "wakes s1 W s'"
  shows "wakes s (StateItem t # W) s'"
proof -
  obtain m b where 1: "s1 = s\<lparr>lists := m, ready_bitmap := b, tcbs := woken [StateItem t] (tcbs s)\<rparr>"
    "same_data (lists s) m" "\<And>j. \<not> is_sentinel j \<Longrightarrow> cont m j = woken_cont [StateItem t] s j"
    using assms(1) by (auto simp: wakes_def)
  obtain m' b' where 2: "s' = s1\<lparr>lists := m', ready_bitmap := b', tcbs := woken W (tcbs s1)\<rparr>"
    "same_data (lists s1) m'" "\<And>j. \<not> is_sentinel j \<Longrightarrow> cont m' j = woken_cont W s1 j"
    using assms(2) by (auto simp: wakes_def)
  have "woken W (woken [StateItem t] (tcbs s)) = woken (StateItem t # W) (tcbs s)"
    by (auto simp: woken_def)
  moreover have "cont m' j = woken_cont (StateItem t # W) s j" if "\<not> is_sentinel j" for j
    using 2(3)[OF that] 1(3)[OF that] 1(1) that by (cases j) (auto simp: woken_cont_def woken_def)
  ultimately show ?thesis
    unfolding wakes_def using 1(1,2) 2(1,2) same_data_trans[of "lists s" m m'] by (intro exI[of _ m'] exI[of _ b']) auto
qed

lemma wakes_more: "wakes s W s' \<Longrightarrow> kernel.more s' = kernel.more s"
  by (auto simp: wakes_def)

lemma wakes_fields:
  assumes "wakes s W s'"
  shows "ticks s' = ticks s" "cur_delayed s' = cur_delayed s" "next_delayed s' = next_delayed s"
    "cur_task s' = cur_task s" "tsk_cnt s' = tsk_cnt s" "primask s' = primask s" "pendsv s' = pendsv s"
    "stack_mem s' = stack_mem s" "tcbs s' = woken W (tcbs s)"
    "val (lists s') j = val (lists s) j" "own (lists s') j = own (lists s) j"
    "\<not> is_sentinel j \<Longrightarrow> cont (lists s') j = woken_cont W s j"
  using assms by (auto simp: wakes_def same_data_def)

lemma kinv_first_delayed:
  assumes "kinv s C" "C (cur_delayed s) = Some (x # xs)"
  shows "\<exists>t. x = StateItem t \<and> user_task s t \<and> blocked_list (cont (lists s) x) \<and> own (lists s) x = Some t"
proof -
  have d: "cur_delayed s = DelayedL \<or> cur_delayed s = DelayedOverflowL"
    using assms(1) by (auto simp: kinv_def delayed_ptrs_ok_def)
  obtain t where t: "user_task s t" "x = StateItem t" using kinv_listed[OF assms, of x] d by auto
  moreover have "cont (lists s) x = Some (cur_delayed s)"
    by (rule lists_wf_container[OF kinv_wf[OF assms(1)] assms(2)]) simp
  ultimately show ?thesis using d kinv_task[OF assms(1) t(1)] by (auto simp: blocked_list_def task_ok_def)
qed

lemma wake_first_runs:
  assumes inv: "kinv s C" and x: "C (cur_delayed s) = Some (StateItem t # xs)"
  shows "\<exists>s' C'. wake_first s = Ret s' \<and> kinv s' C' \<and> wakes s [StateItem t] s' \<and> C' (cur_delayed s) = Some xs \<and>
           (\<forall>l. C' l = None \<longleftrightarrow> C l = None) \<and> ready_grows C C'"
proof -
  let ?p = "unat (effective_priority (tcbs s t))"
  have t: "user_task s t" "blocked_list (cont (lists s) (StateItem t))" "own (lists s) (StateItem t) = Some t"
    using kinv_first_delayed[OF inv x] by auto
  obtain m where m: "rtos_unblock_task (Some (StateItem t)) WAIT_TIMED_OUT s = Ret (unblocked t WAIT_TIMED_OUT m s)"
     "lists_wf m (unblock_view t ?p C)" "same_data (lists s) m"
     "\<And>j. \<not> is_sentinel j \<Longrightarrow> cont m j = (if j = StateItem t then Some (ReadyL ?p)
               else if j = EventItem t then None else cont (lists s) j)"
    using unblock_runs[OF inv t(1,2), of "StateItem t"] by blast
  have "wake_first s = Ret (unblocked t WAIT_TIMED_OUT m s)"
    using rl.first[OF kinv_wf[OF inv] x] t(3) m(1) by (simp add: wake_first_def)
  moreover have "unblock_view t ?p C (cur_delayed s) = Some xs"
  proof -
    have d: "cur_delayed s \<noteq> ReadyL ?p" "\<not> is_wait_list (cur_delayed s)"
      using inv by (auto simp: kinv_def delayed_ptrs_ok_def)
    have "EventItem t \<notin> set xs" using kinv_listed[OF inv x, of "EventItem t"] d by auto
    then show ?thesis using x d by (simp add: unblock_view_def append_to_def take_out_def remove1_idem)
  qed
  moreover have "wakes s [StateItem t] (unblocked t WAIT_TIMED_OUT m s)"
    unfolding wakes_def using m(3,4)
    by (intro exI[of _ m] exI[of _ "ready_bitmap s OR push_bit ?p 1"])
       (auto simp: unblocked_def upd_tcb_def woken_single woken_cont_def split: item_ref.splits)
  moreover have "\<forall>l. unblock_view t ?p C l = None \<longleftrightarrow> C l = None"
    using unblock_view_live[of C ?p t] kinv_ready_live[OF inv t(1)] by blast
  moreover have "ready_grows C (unblock_view t ?p C)" by (rule unblock_grows[OF inv t(1,2) kinv_ready_live[OF inv t(1)]])
  ultimately show ?thesis using unblock_kinv[OF inv t(1,2) refl m(2,3,4)] by blast
qed

lemma first_expired_iff:
  assumes "kinv s C" "C (cur_delayed s) = Some xs"
  shows "first_expired s \<longleftrightarrow> (\<exists>x ys. xs = x # ys \<and> val (lists s) x \<le> ticks s)"
  using rl.first[OF kinv_wf[OF assms(1)] assms(2)] rl.count_zero_iff[OF kinv_wf[OF assms(1)] assms(2) kinv_length[OF assms]]
  by (cases xs) (auto simp: first_expired_def)

text \<open>The wake loop ends, and wakes exactly the expired prefix of the sorted list.\<close>

lemma wake_expired_runs:
  assumes "kinv s C" "C (cur_delayed s) = Some xs"
  shows "\<exists>s' C'. wake_expired s = Some (Ret s') \<and> kinv s' C' \<and>
           wakes s (takeWhile (\<lambda>i. val (lists s) i \<le> ticks s) xs) s' \<and>
           C' (cur_delayed s) = Some (dropWhile (\<lambda>i. val (lists s) i \<le> ticks s) xs) \<and>
           (\<forall>l. C' l = None \<longleftrightarrow> C l = None) \<and> ready_grows C C'"
  using assms
proof (induction xs arbitrary: s C)
  case Nil
  then have "wake_expired s = Some (Ret s)"
    using first_expired_iff[OF Nil] rl.first[OF kinv_wf[OF Nil(1)] Nil(2)] by (simp add: wake_expired.simps)
  with Nil wakes_Nil[of s] show ?case by auto
next
  case (Cons x xs)
  obtain t where x: "x = StateItem t" using kinv_first_delayed[OF Cons(2,3)] by blast
  note f = first_expired_iff[OF Cons(2,3)] rl.first[OF kinv_wf[OF Cons(2)] Cons(3)]
  show ?case
  proof (cases "val (lists s) x \<le> ticks s")
    case False
    then have "wake_expired s = Some (Ret s)" using f by (simp add: wake_expired.simps)
    with Cons(2,3) False wakes_Nil[of s] show ?thesis by auto
  next
    case True
    obtain s1 C1 where s1: "wake_first s = Ret s1" "kinv s1 C1" "wakes s [StateItem t] s1" "C1 (cur_delayed s) = Some xs"
        "\<forall>l. C1 l = None \<longleftrightarrow> C l = None" "ready_grows C C1"
      using wake_first_runs[OF Cons(2) Cons(3)[unfolded x]] by blast
    note fs = wakes_fields[OF s1(3)]
    obtain s' C' where IH: "wake_expired s1 = Some (Ret s')" "kinv s' C'"
        "wakes s1 (takeWhile (\<lambda>i. val (lists s) i \<le> ticks s) xs) s'"
        "C' (cur_delayed s) = Some (dropWhile (\<lambda>i. val (lists s) i \<le> ticks s) xs)"
        "\<forall>l. C' l = None \<longleftrightarrow> C1 l = None" "ready_grows C1 C'"
      using Cons.IH[OF s1(2)] s1(4) fs by auto
    have "wake_expired s = wake_expired s1" using f True s1(1) by (subst wake_expired.simps) simp
    then show ?thesis using IH s1(5) wakes_Cons[OF s1(3) IH(3)] ready_grows_trans[OF s1(6) IH(6)] True x by auto
  qed
qed


lemmas kinv_parts = kinv_def bitmap_ok_def delayed_ptrs_ok_def order_ok_def pool_ok_def idle_ok_def cur_ok_def
  user_task_def task_ok_def unlisted_def

lemma kinv_cong:
  assumes "lists s' = lists s" "tcbs s' = tcbs s" "tsk_cnt s' = tsk_cnt s" "cur_task s' = cur_task s"
    "ready_bitmap s' = ready_bitmap s"
    "cur_delayed s' = cur_delayed s \<and> next_delayed s' = next_delayed s \<or>
     cur_delayed s' = next_delayed s \<and> next_delayed s' = cur_delayed s"
  shows "kinv s' C = kinv s C"
  using assms unfolding kinv_parts by auto

text \<open>
  A step of the scheduler that leaves the synchronisation objects alone: their control blocks, their wait lists
  and the counts of held mutexes.
\<close>

definition quiet :: "'z kernel_scheme \<Rightarrow> list_view \<Rightarrow> 'z kernel_scheme \<Rightarrow> list_view \<Rightarrow> bool" where
  "quiet s C s' C' \<longleftrightarrow> kernel.more s' = kernel.more s \<and> tsk_cnt s' = tsk_cnt s \<and>
     (\<forall>u. mutexes_held (tcbs s' u) = mutexes_held (tcbs s u)) \<and> (\<forall>l. is_wait_list l \<longrightarrow> C' l = C l)"

text \<open>
  A task that is delayed or suspended, and waits for no object or in a wait list that is not among \<open>X\<close>, rests. A call of the kernel that
  releases tasks only from the lists \<open>X\<close> leaves it undisturbed.
\<close>

definition rests :: "list_ref set \<Rightarrow> 'z kernel_scheme \<Rightarrow> tcb_ref \<Rightarrow> bool" where
  "rests X s u \<longleftrightarrow> user_task s u \<and> blocked_list (cont (lists s) (StateItem u)) \<and> (\<forall>l \<in> X. cont (lists s) (EventItem u) \<noteq> Some l)"

definition stays :: "list_mem \<Rightarrow> list_mem \<Rightarrow> tcb_ref \<Rightarrow> bool" where
  "stays m m' u \<longleftrightarrow> cont m' (StateItem u) = cont m (StateItem u) \<and> cont m' (EventItem u) = cont m (EventItem u) \<and>
     val m' (StateItem u) = val m (StateItem u)"

definition undisturbed :: "list_ref set \<Rightarrow> 'z kernel_scheme \<Rightarrow> 'z kernel_scheme \<Rightarrow> bool" where
  "undisturbed X s s' \<longleftrightarrow> ticks s' = ticks s \<and> (\<forall>u. user_task s u \<longrightarrow> user_task s' u) \<and> (\<forall>u. rests X s u \<longrightarrow> stays (lists s) (lists s') u)"

lemma undisturbed_trans: "undisturbed X s s1 \<Longrightarrow> undisturbed X s1 s2 \<Longrightarrow> undisturbed X s s2"
  by (simp add: undisturbed_def rests_def stays_def)

lemma undisturbed_mono: "undisturbed X s s' \<Longrightarrow> X \<subseteq> Y \<Longrightarrow> undisturbed Y s s'"
  unfolding undisturbed_def rests_def by (meson subsetD)

text \<open>No task falls out of the lists: a created task that is in no state list afterwards was in none before.\<close>

definition keeps_tasks :: "list_ref set \<Rightarrow> 'z kernel_scheme \<Rightarrow> 'z kernel_scheme \<Rightarrow> bool" where
  "keeps_tasks X s s' \<longleftrightarrow> cur_task s' = cur_task s \<and> undisturbed X s s' \<and>
     (\<forall>u. user_task s' u \<and> cont (lists s') (StateItem u) = None \<longrightarrow> user_task s u \<and> cont (lists s) (StateItem u) = None)"

lemma keeps_tasksI:
  assumes "cur_task s' = cur_task s" "ticks s' = ticks s" "tsk_cnt s' = tsk_cnt s" "cont (lists s') (StateItem t) \<noteq> None"
    and "\<not> rests X s t" "\<And>u. u \<noteq> t \<Longrightarrow> stays (lists s) (lists s') u"
  shows "keeps_tasks X s s'"
proof -
  have "user_task s' = user_task s" using assms(3) by (simp add: user_task_def fun_eq_iff)
  moreover have "cont (lists s) (StateItem u) = None" if "cont (lists s') (StateItem u) = None" for u
    using that assms(4) assms(6)[of u] by (cases "u = t") (simp_all add: stays_def)
  moreover have "stays (lists s) (lists s') u" if "rests X s u" for u using that assms(5) assms(6)[of u] by (cases "u = t") simp_all
  ultimately show ?thesis using assms(1,2) by (simp add: keeps_tasks_def undisturbed_def)
qed

lemma keeps_tasks_trans: "keeps_tasks X s s1 \<Longrightarrow> keeps_tasks X s1 s2 \<Longrightarrow> keeps_tasks X s s2"
  using undisturbed_trans[of X s s1 s2] by (simp add: keeps_tasks_def)

lemma keeps_tasks_mono: "keeps_tasks X s s' \<Longrightarrow> X \<subseteq> Y \<Longrightarrow> keeps_tasks Y s s'"
  using undisturbed_mono by (auto simp: keeps_tasks_def)

lemmas keeps_tasks_defs = keeps_tasks_def undisturbed_def rests_def stays_def user_task_def

text \<open>The port's part of a kernel function changes only PRIMASK and the PendSV bit.\<close>

lemma exit_critical_fields [simp]:
  "lists (rtos_port_exit_critical p s) = lists s" "tcbs (rtos_port_exit_critical p s) = tcbs s"
  "tsk_cnt (rtos_port_exit_critical p s) = tsk_cnt s" "cur_task (rtos_port_exit_critical p s) = cur_task s"
  "ticks (rtos_port_exit_critical p s) = ticks s" "ready_bitmap (rtos_port_exit_critical p s) = ready_bitmap s"
  "cur_delayed (rtos_port_exit_critical p s) = cur_delayed s"
  "next_delayed (rtos_port_exit_critical p s) = next_delayed s"
  "pendsv (rtos_port_exit_critical p s) = pendsv s" "primask (rtos_port_exit_critical p s) = p"
  "stack_mem (rtos_port_exit_critical p s) = stack_mem s"
  by (simp_all add: rtos_port_exit_critical_def)

lemma port_more [simp]:
  "kernel.more (rtos_port_exit_critical p s) = kernel.more s" "kernel.more (rtos_port_request_context_switch s) = kernel.more s"
  by (simp_all add: rtos_port_exit_critical_def rtos_port_request_context_switch_def)

lemma request_switch_fields [simp]:
  "lists (rtos_port_request_context_switch s) = lists s" "tcbs (rtos_port_request_context_switch s) = tcbs s"
  "tsk_cnt (rtos_port_request_context_switch s) = tsk_cnt s"
  "cur_task (rtos_port_request_context_switch s) = cur_task s"
  "ticks (rtos_port_request_context_switch s) = ticks s"
  "ready_bitmap (rtos_port_request_context_switch s) = ready_bitmap s"
  "cur_delayed (rtos_port_request_context_switch s) = cur_delayed s"
  "next_delayed (rtos_port_request_context_switch s) = next_delayed s"
  "pendsv (rtos_port_request_context_switch s)" "primask (rtos_port_request_context_switch s) = primask s"
  "stack_mem (rtos_port_request_context_switch s) = stack_mem s"
  by (simp_all add: rtos_port_request_context_switch_def)

lemma kinv_port [simp]:
  "kinv (s\<lparr>primask := p\<rparr>) C = kinv s C" "kinv (s\<lparr>ticks := n\<rparr>) C = kinv s C"
  "kinv (s\<lparr>stack_mem := m\<rparr>) C = kinv s C" "kinv (s\<lparr>psp := q\<rparr>) C = kinv s C"
  "kinv (rtos_port_exit_critical p s) C = kinv s C" "kinv (rtos_port_request_context_switch s) C = kinv s C"
  by (rule kinv_cong; simp)+

lemma tick_ok_port [simp]:
  "tick_ok (s\<lparr>primask := p\<rparr>) C = tick_ok s C"
  "tick_ok (s\<lparr>stack_mem := m\<rparr>) C = tick_ok s C" "tick_ok (s\<lparr>psp := q\<rparr>) C = tick_ok s C"
  "tick_ok (rtos_port_exit_critical p s) C = tick_ok s C"
  "tick_ok (rtos_port_request_context_switch s) C = tick_ok s C"
  by (simp_all add: tick_ok_def)

lemma keeps_tasks_port [simp]:
  "keeps_tasks X s s" "keeps_tasks X s (rtos_port_exit_critical p s') = keeps_tasks X s s'"
  "keeps_tasks X s (rtos_port_request_context_switch s') = keeps_tasks X s s'"
  "keeps_tasks X (s\<lparr>primask := p\<rparr>) s' = keeps_tasks X s s'" "keeps_tasks X s (s'\<lparr>primask := p\<rparr>) = keeps_tasks X s s'"
  by (simp_all add: keeps_tasks_defs)

lemma check_runnable_port [simp]:
  "rtos_check_runnable_task t (rtos_port_exit_critical p s) = rtos_check_runnable_task t s"
  "rtos_check_runnable_task t (rtos_port_request_context_switch s) = rtos_check_runnable_task t s"
  by (cases t; simp add: rtos_check_runnable_task_def)+

lemma set_takeWhile_asc: "asc f xs \<Longrightarrow> set (takeWhile (\<lambda>i. f i \<le> v) xs) = {i \<in> set xs. f i \<le> v}"
  by (induction xs) (auto dest: order.trans)

lemma set_dropWhile_asc: "asc f xs \<Longrightarrow> set (dropWhile (\<lambda>i. f i \<le> v) xs) = {i \<in> set xs. v < f i}"
  by (induction xs) (force dest: order.trans simp: not_le)+

lemma less_inc_word: "(x :: u32) < y \<Longrightarrow> y + 1 \<noteq> 0 \<Longrightarrow> x < y + 1"
  by unat_arith

lemma max_not_less_word: "\<not> (- 1 :: u32) < y"
  by (metis leD word_order.extremum)

text \<open>The epoch switch of \<open>rtos_tick_handler\<close>: the fallback loop finds nothing to drain.\<close>

lemma tick_epoch:
  assumes inv: "kinv s C" and tick: "tick_ok s C" and s1: "s1 = s\<lparr>primask := 1, ticks := ticks s + 1\<rparr>"
  shows "\<exists>c n. let s2 = s1\<lparr>cur_delayed := c, next_delayed := n\<rparr> in
           switch_epoch s1 = Ret s2 \<and> kinv s2 C \<and>
           (\<forall>i \<in> set (the (C c)). ticks s1 \<le> val (lists s) i) \<and>
           (\<forall>i \<in> set (the (C n)). val (lists s) i < ticks s1)"
proof (cases "ticks s1 = 0")
  case True
  obtain xs where xs: "C (cur_delayed s) = Some xs"
    using inv by (auto simp: kinv_def delayed_ptrs_ok_def kernel_lists_def)
  have "ticks s = - 1" using True s1 by (simp add: eq_neg_iff_add_eq_0)
  then have "xs = []" using tick xs by (cases xs) (auto simp: tick_ok_def max_not_less_word)
  then have "counts (lists s) (cur_delayed s) = 0" using rl.count[OF kinv_wf[OF inv] xs] by simp
  then have "drain_delayed s1 = Some (Ret s1)" using s1 by (simp add: drain_delayed.simps)
  moreover have "kinv (s1\<lparr>cur_delayed := next_delayed s, next_delayed := cur_delayed s\<rparr>) C"
    using inv by (subst kinv_cong[of _ s]) (simp_all add: s1)
  ultimately show ?thesis using True s1 xs \<open>xs = []\<close>
    by (intro exI[of _ "next_delayed s"] exI[of _ "cur_delayed s"]) (simp add: switch_epoch_def loop_res_def Let_def)
next
  case False
  have "\<forall>i \<in> set (the (C (cur_delayed s))). ticks s1 \<le> val (lists s) i"
    using tick s1 by (auto simp: tick_ok_def inc_le)
  moreover have "\<forall>i \<in> set (the (C (next_delayed s))). val (lists s) i < ticks s1"
    using tick s1 False by (auto simp: tick_ok_def less_inc_word)
  moreover have "kinv (s1\<lparr>cur_delayed := cur_delayed s, next_delayed := next_delayed s\<rparr>) C"
    using inv by (subst kinv_cong[of _ s]) (simp_all add: s1)
  ultimately show ?thesis using False s1
    by (intro exI[of _ "cur_delayed s"] exI[of _ "next_delayed s"]) (simp add: switch_epoch_def Let_def)
qed


text \<open>The tasks whose delay or timeout ends with the next tick.\<close>

definition due :: "'z kernel_scheme \<Rightarrow> tcb_ref \<Rightarrow> bool" where
  "due s t \<longleftrightarrow> cont (lists s) (StateItem t) \<in> {Some DelayedL, Some DelayedOverflowL} \<and>
     val (lists s) (StateItem t) = ticks s + 1"

lemma kinv_delayed_asc: "kinv s C \<Longrightarrow> C (cur_delayed s) = Some xs \<Longrightarrow> asc (val (lists s)) xs"
  by (auto simp: kinv_def delayed_ptrs_ok_def order_ok_def)

lemma tick_wake_phase:
  assumes inv: "kinv s C" and cur: "\<forall>i \<in> set (the (C (cur_delayed s))). ticks s \<le> val (lists s) i"
    and nxt: "\<forall>i \<in> set (the (C (next_delayed s))). val (lists s) i < ticks s"
  shows "\<exists>s' C' W. wake_expired s = Some (Ret s') \<and> kinv s' C' \<and> tick_ok s' C' \<and> wakes s W s' \<and>
           (\<forall>l. C' l = None \<longleftrightarrow> C l = None) \<and> ready_grows C C' \<and>
           (\<forall>t. StateItem t \<in> set W \<longleftrightarrow>
              cont (lists s) (StateItem t) \<in> {Some DelayedL, Some DelayedOverflowL} \<and>
              val (lists s) (StateItem t) = ticks s)"
proof -
  obtain xs where xs: "C (cur_delayed s) = Some xs" and ns: "C (next_delayed s) \<noteq> None"
    using inv by (auto simp: kinv_def delayed_ptrs_ok_def kernel_lists_def)
  let ?W = "takeWhile (\<lambda>i. val (lists s) i \<le> ticks s) xs"
  obtain s' C' where s': "wake_expired s = Some (Ret s')" "kinv s' C'" "wakes s ?W s'"
    "C' (cur_delayed s) = Some (dropWhile (\<lambda>i. val (lists s) i \<le> ticks s) xs)" "\<forall>l. C' l = None \<longleftrightarrow> C l = None" "ready_grows C C'"
    using wake_expired_runs[OF inv xs] by blast
  note f = wakes_fields[OF s'(3)] and asc = kinv_delayed_asc[OF inv xs]
  have W: "set ?W = {i \<in> set xs. val (lists s) i = ticks s}"
    unfolding set_takeWhile_asc[OF asc] using cur xs by auto
  have "val (lists s) i < ticks s" if i: "i \<in> set (the (C' (next_delayed s)))" for i
  proof -
    obtain ys where ys: "C' (next_delayed s) = Some ys" "i \<in> set ys"
      using i s'(2) f(2,3) by (auto simp: kinv_def delayed_ptrs_ok_def kernel_lists_def)
    have "cont (lists s') i = Some (next_delayed s)" "\<not> is_sentinel i"
      using lists_wf_container[OF kinv_wf[OF s'(2)] ys] rl.node[OF kinv_wf[OF s'(2)] ys] by auto
    then have "cont (lists s) i = Some (next_delayed s)"
      using f(12)[of i] inv by (auto simp: woken_cont_def kinv_def delayed_ptrs_ok_def split: item_ref.splits if_splits)
    then show ?thesis using nxt ns rl.member[OF kinv_wf[OF inv] \<open>\<not> is_sentinel i\<close>] by auto
  qed
  then have "tick_ok s' C'" using s'(4) f by (auto simp: tick_ok_def set_dropWhile_asc[OF asc])
  moreover have "StateItem t \<in> set ?W \<longleftrightarrow> cont (lists s) (StateItem t) \<in> {Some DelayedL, Some DelayedOverflowL} \<and>
      val (lists s) (StateItem t) = ticks s" for t
    using rl.member[OF kinv_wf[OF inv], of "StateItem t"] xs nxt inv unfolding W
    by (force simp: kinv_def delayed_ptrs_ok_def)
  ultimately show ?thesis using s' by blast
qed

lemma tick_handler_runs:
  assumes "kinv s C" "tick_ok s C"
  shows "\<exists>s' C'. rtos_tick_handler s = Ret s' \<and> kinv s' C' \<and> tick_ok s' C' \<and>
           (\<forall>j. val (lists s') j = val (lists s) j) \<and> tsk_cnt s' = tsk_cnt s \<and>
           (\<forall>l. C' l = None \<longleftrightarrow> C l = None) \<and> ready_grows C C' \<and> kernel.more s' = kernel.more s \<and>
           ticks s' = ticks s + 1 \<and> primask s' = primask s \<and> cur_task s' = cur_task s \<and>
           pendsv s' = (pendsv s \<or> rtos_check_runnable_task (cur_task s') s') \<and>
           (\<forall>t. if due s t
                then cont (lists s') (StateItem t) = Some (ReadyL (unat (effective_priority (tcbs s t)))) \<and>
                     cont (lists s') (EventItem t) = None \<and>
                     tcbs s' t = (tcbs s t)\<lparr>wait_reason := WAIT_TIMED_OUT\<rparr>
                else cont (lists s') (StateItem t) = cont (lists s) (StateItem t) \<and>
                     cont (lists s') (EventItem t) = cont (lists s) (EventItem t) \<and> tcbs s' t = tcbs s t)"
proof -
  let ?s1 = "s\<lparr>primask := 1, ticks := ticks s + 1\<rparr>"
  obtain c n where s2: "switch_epoch ?s1 = Ret (?s1\<lparr>cur_delayed := c, next_delayed := n\<rparr>)"
    "kinv (?s1\<lparr>cur_delayed := c, next_delayed := n\<rparr>) C"
    "\<forall>i \<in> set (the (C c)). ticks ?s1 \<le> val (lists s) i" "\<forall>i \<in> set (the (C n)). val (lists s) i < ticks ?s1"
    using tick_epoch[OF assms refl] unfolding Let_def by blast
  let ?s2 = "?s1\<lparr>cur_delayed := c, next_delayed := n\<rparr>"
  obtain s3 C3 W where s3: "wake_expired ?s2 = Some (Ret s3)" "kinv s3 C3" "tick_ok s3 C3" "wakes ?s2 W s3"
    "\<And>t. StateItem t \<in> set W \<longleftrightarrow> due s t" "\<forall>l. C3 l = None \<longleftrightarrow> C l = None" "ready_grows C C3"
    using tick_wake_phase[OF s2(2)] s2(3,4) by (auto simp: due_def)
  let ?s4 = "rtos_port_exit_critical (primask s) s3"
  let ?s5 = "if rtos_check_runnable_task (cur_task ?s4) ?s4 then rtos_port_request_context_switch ?s4 else ?s4"
  have run: "rtos_tick_handler s = Ret ?s5"
    using s2(1) s3(1) by (simp add: rtos_tick_handler_def rtos_port_enter_critical_def loop_res_def Let_def)
  then show ?thesis using s3(2,3,6,7) wakes_fields[OF s3(4)] wakes_more[OF s3(4)] s3(5)
    by (intro exI[of _ ?s5] exI[of _ C3]) (simp add: woken_cont_def woken_def)
qed

text \<open>
  \<^bold>\<open>C9.\<close> The tick handler, between ticks of a consistent kernel: it returns (both loops end, no
  assertion fails, the epoch-switch fallback drains nothing), keeps the invariant, advances
  the tick by one modulo \<open>2 ^ 32\<close>, restores the interrupt mask, and makes ready exactly the
  tasks whose wake tick is the new tick, with reason \<open>WAIT_TIMED_OUT\<close> and out of any wait
  list, also across the wrap of the counter. No other task is touched. A context switch is
  requested if and only if a ready task has at least the running task's priority.
\<close>

theorem tick_handler_correct:
  assumes "kinv s C" "tick_ok s C"
  shows "\<exists>s' C'. rtos_tick_handler s = Ret s' \<and> kinv s' C' \<and> tick_ok s' C' \<and>
           ticks s' = ticks s + 1 \<and> primask s' = primask s \<and> cur_task s' = cur_task s \<and>
           pendsv s' = (pendsv s \<or> rtos_check_runnable_task (cur_task s') s') \<and>
           (\<forall>t. if due s t
                then cont (lists s') (StateItem t) = Some (ReadyL (unat (effective_priority (tcbs s t)))) \<and>
                     cont (lists s') (EventItem t) = None \<and>
                     tcbs s' t = (tcbs s t)\<lparr>wait_reason := WAIT_TIMED_OUT\<rparr>
                else cont (lists s') (StateItem t) = cont (lists s) (StateItem t) \<and>
                     cont (lists s') (EventItem t) = cont (lists s) (EventItem t) \<and> tcbs s' t = tcbs s t)"
  using tick_handler_runs[OF assms] by blast

end
