(* ===== verification/Tasks_Sched.thy ===== *)
theory Tasks_Sched
  imports Tasks_Inv
begin

unbundle bit_operations_syntax

text \<open>
  Blocking, waking, the choice of the next task and context switches: each keeps the
  scheduler's invariant, and the lemmas say what it does to the lists.
\<close>



section \<open>Blocking\<close>

text \<open>Overwriting the value of an unlisted item disturbs no order.\<close>

lemma order_ok_set_value:
  assumes "order_ok (val m) C" "lists_wf m C" "\<not> is_sentinel i" "cont m i = None"
  shows "order_ok (val (set_value i v m)) C"
proof -
  have n: "i \<notin> set xs" if "C l = Some xs" for l xs
    using rl.member[OF assms(2,3), of l] assms(4) that by auto
  have "asc (val (set_value i v m)) xs = asc (val m) xs" "desc (val (set_value i v m)) xs = desc (val m) xs"
    if "C l = Some xs" for l xs
    using n[OF that] by (auto intro!: asc_cong desc_cong)
  then show ?thesis using assms(1) by (auto simp: order_ok_def)
qed

text \<open>Where the state item goes, and how.\<close>

definition block_target :: "u32 \<Rightarrow> bool \<Rightarrow> 'z kernel_scheme \<Rightarrow> list_ref" where
  "block_target wake_tick forever s =
     (if forever then SuspendL else if wake_tick < ticks s then next_delayed s else cur_delayed s)"

definition block_insert :: "bool \<Rightarrow> list_ref \<Rightarrow> item_ref \<Rightarrow> list_mem \<Rightarrow> list_res" where
  "block_insert forever l i m =
     (if forever then rtos_list_insert_end (Some l) (Some i) m else rtos_list_insert_sorted (Some l) (Some i) m)"

lemma order_ok_upd:
  "order_ok f C \<Longrightarrow> (l = DelayedL \<or> l = DelayedOverflowL \<Longrightarrow> asc f ys) \<Longrightarrow> (is_wait_list l \<Longrightarrow> desc f ys) \<Longrightarrow>
   order_ok f (C(l \<mapsto> ys))"
  by (auto simp: order_ok_def)

lemma block_insert_law:
  assumes wf: "lists_wf m C" and l: "C l = Some xs" and ord: "order_ok (val m) C"
    and i: "cont m i = None" "own m i \<noteq> None" "\<not> is_sentinel i"
    and f: "if forever then l = SuspendL else l = DelayedL \<or> l = DelayedOverflowL"
  shows "\<exists>m' ys. block_insert forever l i m = Ret m' \<and> lists_wf m' (C(l \<mapsto> ys)) \<and> same_data m m' \<and>
           set ys = insert i (set xs) \<and> order_ok (val m') (C(l \<mapsto> ys)) \<and>
           (\<forall>j. \<not> is_sentinel j \<longrightarrow> cont m' j = (if j = i then Some l else cont m j))"
proof (cases forever)
  case True
  then obtain m' where m': "block_insert forever l i m = Ret m'" "lists_wf m' (C(l \<mapsto> xs @ [i]))" "same_data m m'"
    using rl.end_law[OF wf l i] by (auto simp: block_insert_def)
  moreover have "order_ok (val m') (C(l \<mapsto> xs @ [i]))"
    using ord True f unfolding order_ok_same_data[OF m'(3)] by (intro order_ok_upd) auto
  ultimately show ?thesis using rl.container_after_insert[OF wf l m'(2), of i] by (intro exI) auto
next
  case False
  let ?ys = "ins_sorted (val m) i xs"
  obtain m' where m': "block_insert forever l i m = Ret m'" "lists_wf m' (C(l \<mapsto> ?ys))" "same_data m m'"
    using rl.sorted_law[OF wf l i] False by (auto simp: block_insert_def)
  moreover have "order_ok (val m') (C(l \<mapsto> ?ys))"
    using ord False f l unfolding order_ok_same_data[OF m'(3)]
    by (intro order_ok_upd) (auto simp: order_ok_def intro: asc_ins_sorted)
  ultimately show ?thesis using rl.container_after_insert[OF wf l m'(2), of i] by (intro exI) auto
qed

lemma event_insert_law:
  assumes wf: "lists_wf m C" and l: "C l = Some xs" and ord: "order_ok (val m) C" "is_wait_list l"
    and i: "cont m i = None" "own m i \<noteq> None" "\<not> is_sentinel i"
  shows "\<exists>m'. rtos_list_insert_reversed_sorted (Some l) (Some i) m = Ret m' \<and>
           lists_wf m' (C(l \<mapsto> ins_reversed (val m) i xs)) \<and> same_data m m' \<and>
           order_ok (val m') (C(l \<mapsto> ins_reversed (val m) i xs)) \<and>
           (\<forall>j. \<not> is_sentinel j \<longrightarrow> cont m' j = (if j = i then Some l else cont m j))"
proof -
  let ?ys = "ins_reversed (val m) i xs"
  obtain m' where m': "rtos_list_insert_reversed_sorted (Some l) (Some i) m = Ret m'"
    "lists_wf m' (C(l \<mapsto> ?ys))" "same_data m m'" using rl.reversed_law[OF wf l i] by blast
  moreover have "order_ok (val m') (C(l \<mapsto> ?ys))"
    using ord l unfolding order_ok_same_data[OF m'(3)]
    by (intro order_ok_upd) (auto simp: order_ok_def intro: desc_ins_reversed)
  ultimately show ?thesis using rl.container_after_insert[OF wf l m'(2), of i] by (intro exI[of _ m']) auto
qed

text \<open>The store after blocking task \<open>t\<close>, with or without an object to wait for.\<close>

lemma block_current_stages:
  assumes "cur_task s = Some t" "t \<noteq> IdleTask" "cont (lists s) (StateItem t) = None" "cont (lists s) (EventItem t) = None"
    and "block_insert forever (block_target wake forever s) (StateItem t) (set_value (StateItem t) wake (lists s)) = Ret m1"
    and "case wait_obj of None \<Rightarrow> m = m1
         | Some l \<Rightarrow> rtos_list_insert_reversed_sorted (Some l) (Some (EventItem t))
             (set_value (EventItem t) (ucast (effective_priority (tcbs s t))) m1) = Ret m"
  shows "rtos_block_current_task wake wait_obj forever s = Ret (s\<lparr>lists := m\<rparr>)"
  using assms
  by (auto simp: rtos_block_current_task_def block_insert_def block_target_def on_lists_def Let_def
      split: if_splits option.splits)


text \<open>What blocking did: the list store, and the view of the lists, before and after.\<close>

definition blocks_to ::
    "tcb_ref \<Rightarrow> u32 \<Rightarrow> list_ref option \<Rightarrow> bool \<Rightarrow> 'z kernel_scheme \<Rightarrow> list_view \<Rightarrow> list_mem \<Rightarrow> list_view \<Rightarrow> bool" where
  "blocks_to t wake wait_obj forever s C m C' \<longleftrightarrow>
     lists_wf m C' \<and> order_ok (val m) C' \<and>
     (\<forall>j. own m j = own (lists s) j \<and>
        (\<not> is_sentinel j \<longrightarrow>
           cont m j = (if j = StateItem t then Some (block_target wake forever s)
                       else if j = EventItem t then wait_obj else cont (lists s) j) \<and>
           val m j = (if j = StateItem t then wake
                      else if j = EventItem t \<and> wait_obj \<noteq> None then ucast (effective_priority (tcbs s t))
                      else val (lists s) j))) \<and>
     (\<exists>xs ys. C (block_target wake forever s) = Some xs \<and> set ys = insert (StateItem t) (set xs) \<and>
        (case wait_obj of
           None \<Rightarrow> C' = C(block_target wake forever s \<mapsto> ys)
         | Some l \<Rightarrow> (\<exists>zs. C l = Some zs \<and> C' = C(block_target wake forever s \<mapsto> ys,
             l \<mapsto> ins_reversed (\<lambda>j. val m j) (EventItem t) zs))))"

lemma ins_reversed_cong:
  "f i = g i \<Longrightarrow> (\<And>j. j \<in> set xs \<Longrightarrow> f j = g j) \<Longrightarrow> ins_reversed f i xs = ins_reversed g i xs"
  unfolding ins_reversed_def
  by (metis (mono_tags, lifting) dropWhile_cong set_rev takeWhile_cong)

definition waitable :: "list_ref option \<Rightarrow> list_view \<Rightarrow> bool" where
  "waitable wait_obj C \<longleftrightarrow> (\<forall>l. wait_obj = Some l \<longrightarrow> is_wait_list l \<and> C l \<noteq> None)"

lemma block_runs:
  assumes inv: "kinv s C" and t: "cur_task s = Some t" "user_task s t" "cont (lists s) (StateItem t) = None"
    and w: "waitable wait_obj C"
  shows "\<exists>m C'. rtos_block_current_task wake wait_obj forever s = Ret (s\<lparr>lists := m\<rparr>) \<and>
           blocks_to t wake wait_obj forever s C m C'"
proof -
  let ?L = "block_target wake forever s" and ?S = "StateItem t" and ?E = "EventItem t"
  have ok: "own (lists s) ?S = Some t" "own (lists s) ?E = Some t" "cont (lists s) ?E = None" "t \<noteq> IdleTask"
    using kinv_task[OF inv t(2)] t(2,3) by (cases "cont (lists s) ?E"; auto simp: task_ok_def blocked_list_def user_task_def)+
  have L: "if forever then ?L = SuspendL else ?L = DelayedL \<or> ?L = DelayedOverflowL"
    using inv by (auto simp: block_target_def kinv_def delayed_ptrs_ok_def)
  then obtain xs where xs: "C ?L = Some xs" using inv by (auto simp: kinv_def kernel_lists_def split: if_splits)
  let ?m0 = "set_value ?S wake (lists s)"
  obtain m1 ys where m1: "block_insert forever ?L ?S ?m0 = Ret m1" "lists_wf m1 (C(?L \<mapsto> ys))" "same_data ?m0 m1"
     "set ys = insert ?S (set xs)" "order_ok (val m1) (C(?L \<mapsto> ys))"
     "\<And>j. \<not> is_sentinel j \<Longrightarrow> cont m1 j = (if j = ?S then Some ?L else cont (lists s) j)"
    using block_insert_law[OF _ xs order_ok_set_value[of "lists s" C ?S wake] _ _ _ L, of ?S] inv t(3) ok
    by (auto simp: kinv_def)
  show ?thesis
  proof (cases wait_obj)
    case None
    then have "blocks_to t wake wait_obj forever s C m1 (C(?L \<mapsto> ys))"
      using m1 xs ok by (auto simp: blocks_to_def same_data_def intro!: exI[of _ ys])
    then show ?thesis using block_current_stages[OF t(1) ok(4) t(3) ok(3) m1(1), where wait_obj = None and m = m1] None by auto
  next
    case (Some l)
    then obtain zs where zs: "C l = Some zs" "is_wait_list l" using w by (auto simp: waitable_def)
    then have ll: "l \<noteq> ?L" using L by (auto split: if_splits)
    let ?m1 = "set_value ?E (ucast (effective_priority (tcbs s t))) m1"
    have E: "cont m1 ?E = None" "own m1 ?E \<noteq> None" using m1(6)[of ?E] m1(3) ok by (auto simp: same_data_def)
    obtain m where m: "rtos_list_insert_reversed_sorted (Some l) (Some ?E) ?m1 = Ret m"
      "lists_wf m (C(?L \<mapsto> ys, l \<mapsto> ins_reversed (val ?m1) ?E zs))" "same_data ?m1 m"
      "order_ok (val m) (C(?L \<mapsto> ys, l \<mapsto> ins_reversed (val ?m1) ?E zs))"
      "\<And>j. \<not> is_sentinel j \<Longrightarrow> cont m j = (if j = ?E then Some l else cont m1 j)"
      using event_insert_law[of ?m1 "C(?L \<mapsto> ys)" l zs ?E] order_ok_set_value[OF m1(5,2), of ?E] m1(2) zs ll E by auto
    have eq: "ins_reversed (val ?m1) ?E zs = ins_reversed (\<lambda>j. val m j) ?E zs"
      using m(3) by (intro ins_reversed_cong) (auto simp: same_data_def)
    moreover have "own m j = own (lists s) j \<and> (\<not> is_sentinel j \<longrightarrow>
        cont m j = (if j = ?S then Some ?L else if j = ?E then wait_obj else cont (lists s) j) \<and>
        val m j = (if j = ?S then wake else if j = ?E \<and> wait_obj \<noteq> None
                   then ucast (effective_priority (tcbs s t)) else val (lists s) j))" for j
      using m(3) m(5)[of j] m1(3) m1(6)[of j] Some by (auto simp: same_data_def)
    ultimately have "blocks_to t wake wait_obj forever s C m (C(?L \<mapsto> ys, l \<mapsto> ins_reversed (\<lambda>j. val m j) ?E zs))"
      unfolding blocks_to_def Some option.case using m(2,4)[unfolded eq] zs(1) xs m1(4) by blast
    then show ?thesis using block_current_stages[OF t(1) ok(4) t(3) ok(3) m1(1), where wait_obj = wait_obj and m = m] Some m(1) by auto
  qed
qed

lemma blocks_to_kinv:
  assumes inv: "kinv s C" and t: "user_task s t" "cont (lists s) (StateItem t) = None" and w: "waitable wait_obj C"
    and b: "blocks_to t wake wait_obj forever s C m C'"
  shows "kinv (s\<lparr>lists := m\<rparr>) C'"
proof -
  let ?s = "s\<lparr>lists := m\<rparr>" and ?L = "block_target wake forever s"
  have L: "blocked_list (Some ?L)" "\<And>p. ?L \<noteq> ReadyL p" "\<not> is_wait_list ?L"
    using inv by (auto simp: block_target_def kinv_def delayed_ptrs_ok_def blocked_list_def)
  have R: "C' (ReadyL p) = C (ReadyL p)" for p
    using b w L(2)[of p, symmetric] L(3) by (auto simp: blocks_to_def waitable_def split: option.splits)
  have "kernel_lists C'"
    using b inv unfolding blocks_to_def kinv_def
    by (auto split: option.splits intro!: kernel_lists_upd)
  moreover have "if user_task s u then task_ok ?s u else unlisted ?s u" for u
  proof (rule tasks_frame[OF inv t(1)])
    show "task_ok ?s t" using kinv_task[OF inv t(1)] b w L(1) by (auto simp: task_ok_def blocks_to_def waitable_def)
  qed (use b in \<open>auto simp: blocks_to_def\<close>)
  ultimately show ?thesis using inv b R
    by (auto simp: kinv_def blocks_to_def bitmap_ok_def pool_ok_def idle_ok_def cur_ok_def delayed_ptrs_ok_def user_task_def)
qed

text \<open>Blocking the running task leaves the ready lists alone.\<close>

lemma blocks_to_ready:
  assumes "kinv s C" "blocks_to t wake wait_obj forever s C m C'" "\<forall>l. wait_obj = Some l \<longrightarrow> is_wait_list l"
  shows "C' (ReadyL p) = C (ReadyL p)"
proof -
  have "block_target wake forever s \<noteq> ReadyL p"
    using assms(1) by (auto simp: block_target_def kinv_def delayed_ptrs_ok_def)
  then show ?thesis using assms(2,3) by (auto simp: blocks_to_def split: option.splits)
qed

lemma blocks_to_tick_ok:
  assumes inv: "kinv s C" "tick_ok s C" and t: "cont (lists s) (StateItem t) = None" and w: "waitable wait_obj C"
    and b: "blocks_to t wake wait_obj forever s C m C'" and wake: "forever \<or> wake \<noteq> ticks s"
  shows "tick_ok (s\<lparr>lists := m\<rparr>) C'"
proof -
  have d: "set (the (C' d)) \<subseteq> (if d = block_target wake forever s then {StateItem t} else {}) \<union> set (the (C d))"
    if "d = cur_delayed s \<or> d = next_delayed s" for d
    using that b w inv(1) by (auto simp: blocks_to_def waitable_def kinv_def delayed_ptrs_ok_def split: option.splits if_splits)
  have v: "val m j = val (lists s) j" if jd: "j \<in> set (the (C d))" "d = cur_delayed s \<or> d = next_delayed s" for j d
  proof -
    obtain xs where xs: "C d = Some xs" "j \<in> set xs" "\<not> is_wait_list d"
      using jd inv(1) by (auto simp: kinv_def delayed_ptrs_ok_def kernel_lists_def)
    with kinv_listed[OF inv(1) xs(1,2)] lists_wf_container[OF kinv_wf[OF inv(1)] xs(1,2)] show ?thesis
      using b t by (auto simp: blocks_to_def)
  qed
  have w: "val m (StateItem t) = wake" using b by (simp add: blocks_to_def)
  have dn: "cur_delayed s \<noteq> next_delayed s" "SuspendL \<noteq> cur_delayed s" "SuspendL \<noteq> next_delayed s"
    using inv(1) by (auto simp: kinv_def delayed_ptrs_ok_def)
  have "ticks s < val m i" if i: "i \<in> set (the (C' (cur_delayed s)))" for i
  proof (cases "i \<in> set (the (C (cur_delayed s)))")
    case True
    then show ?thesis using inv(2) v[OF True] by (simp add: tick_ok_def)
  next
    case False
    then have "i = StateItem t" "block_target wake forever s = cur_delayed s"
      using d[of "cur_delayed s"] i by (auto split: if_splits)
    then show ?thesis using w wake dn by (auto simp: block_target_def split: if_splits)
  qed
  moreover have "val m i < ticks s" if i: "i \<in> set (the (C' (next_delayed s)))" for i
  proof (cases "i \<in> set (the (C (next_delayed s)))")
    case True
    then show ?thesis using inv(2) v[OF True] by (simp add: tick_ok_def)
  next
    case False
    then have "i = StateItem t" "block_target wake forever s = next_delayed s"
      using d[of "next_delayed s"] i by (auto split: if_splits)
    then show ?thesis using w wake dn by (auto simp: block_target_def split: if_splits)
  qed
  ultimately show ?thesis by (simp add: tick_ok_def)
qed


text \<open>
  \<^bold>\<open>C18.\<close> Blocking the running task: no assertion fails and the invariant is kept. The task's state
  item goes to the suspended list if it waits forever, to the delayed list of the next epoch if
  the wake tick lies before the current tick and to that of the current epoch otherwise; its
  event item enters the wait list of the object, if any, behind every waiter of at least its
  effective priority and before the others. No other task is touched.
\<close>

theorem block_current_task_correct:
  assumes "kinv s C" "tick_ok s C" "cur_task s = Some t" "user_task s t" "cont (lists s) (StateItem t) = None"
    and "waitable wait_obj C" "forever \<or> wake \<noteq> ticks s"
  shows "\<exists>m C'. rtos_block_current_task wake wait_obj forever s = Ret (s\<lparr>lists := m\<rparr>) \<and>
           kinv (s\<lparr>lists := m\<rparr>) C' \<and> tick_ok (s\<lparr>lists := m\<rparr>) C' \<and>
           cont m (StateItem t) = Some (block_target wake forever s) \<and> val m (StateItem t) = wake \<and>
           cont m (EventItem t) = wait_obj \<and>
           (\<forall>l. wait_obj = Some l \<longrightarrow> C' l = Some (ins_reversed (\<lambda>j. val m j) (EventItem t) (the (C l)))) \<and>
           (\<forall>u j. u \<noteq> t \<longrightarrow> j = StateItem u \<or> j = EventItem u \<longrightarrow>
              cont m j = cont (lists s) j \<and> val m j = val (lists s) j)"
proof -
  obtain m C' where r: "rtos_block_current_task wake wait_obj forever s = Ret (s\<lparr>lists := m\<rparr>)"
    and b: "blocks_to t wake wait_obj forever s C m C'"
    using block_runs[OF assms(1,3-6)] by blast
  have "kinv (s\<lparr>lists := m\<rparr>) C'" by (rule blocks_to_kinv[OF assms(1,4-6) b])
  moreover have "tick_ok (s\<lparr>lists := m\<rparr>) C'" by (rule blocks_to_tick_ok[OF assms(1,2,5,6) b assms(7)])
  moreover have "\<forall>l. wait_obj = Some l \<longrightarrow> C' l = Some (ins_reversed (\<lambda>j. val m j) (EventItem t) (the (C l)))"
    using b by (auto simp: blocks_to_def)
  ultimately show ?thesis using r b by (intro exI[of _ m] exI[of _ C']) (auto simp: blocks_to_def)
qed


section \<open>Choosing the next task\<close>

text \<open>
  The choice the scheduler promises: the first task of the ready list of the highest priority
  that has one.
\<close>

definition highest_ready :: "list_view \<Rightarrow> nat \<Rightarrow> tcb_ref \<Rightarrow> item_ref list \<Rightarrow> bool" where
  "highest_ready C p t xs \<longleftrightarrow>
     C (ReadyL p) = Some (StateItem t # xs) \<and> (\<forall>q > p. C (ReadyL q) \<in> {None, Some []})"

definition none_ready :: "list_view \<Rightarrow> bool" where
  "none_ready C \<longleftrightarrow> (\<forall>p. C (ReadyL p) \<in> {None, Some []})"

lemma bitmap_zero_iff: "bitmap_ok s C \<Longrightarrow> ready_bitmap s = 0 \<longleftrightarrow> none_ready C"
proof -
  assume b: "bitmap_ok s C"
  have "ready_bitmap s = 0 \<longleftrightarrow> (\<forall>p. \<not> bit (ready_bitmap s) p)" by (metis bit_0_eq bit_eqI bot_apply bot_bool_def)
  also have "\<dots> \<longleftrightarrow> none_ready C"
    using b unfolding bitmap_ok_def none_ready_def by (metis empty_iff insert_iff not_Some_eq option.inject)
  finally show ?thesis .
qed

lemma check_runnable_None [simp]: "rtos_check_runnable_task None s \<longleftrightarrow> ready_bitmap s \<noteq> 0"
  by (simp add: rtos_check_runnable_task_def)

lemma highest_ready_msb:
  assumes inv: "kinv s C" and clz: "clz_spec clz" and b: "ready_bitmap s \<noteq> 0"
  defines "p \<equiv> unat (rtos_port_find_msb32 clz (ready_bitmap s))"
  shows "\<exists>t xs. highest_ready C p t xs \<and> user_task s t \<and> unat (effective_priority (tcbs s t)) = p \<and>
           cont (lists s) (StateItem t) = Some (ReadyL p) \<and> own (lists s) (StateItem t) = Some t"
proof -
  have bm: "\<And>q. bit (ready_bitmap s) q \<longleftrightarrow> (\<exists>xs. C (ReadyL q) = Some xs \<and> xs \<noteq> [])"
    using inv by (simp add: kinv_def bitmap_ok_def)
  obtain x xs where x: "C (ReadyL p) = Some (x # xs)"
    using find_msb32_highest(1)[OF clz b] bm[of p] unfolding p_def by (auto simp: neq_Nil_conv)
  obtain t where t: "user_task s t" "x = StateItem t" using kinv_listed[OF inv x, of x] by auto
  have c: "cont (lists s) (StateItem t) = Some (ReadyL p)"
    using lists_wf_container[OF kinv_wf[OF inv] x, of x] t by simp
  have "C (ReadyL q) \<in> {None, Some []}" if "q > p" for q
    using find_msb32_highest(2)[OF clz b, of q] bm[of q] that unfolding p_def by (cases "C (ReadyL q)") auto
  then show ?thesis using x t c kinv_task[OF inv t(1)]
    by (auto simp: highest_ready_def task_ok_def blocked_list_def)
qed

text \<open>Taking the first item off a ready list, and the bitmap with it.\<close>

definition pop_bitmap :: "nat \<Rightarrow> item_ref list \<Rightarrow> u32 \<Rightarrow> u32" where
  "pop_bitmap p xs b = (if xs = [] then b AND NOT (push_bit p 1) else b)"

lemma remove_ready_kinv:
  assumes inv: "kinv s C" and t: "user_task s t" and x: "C (ReadyL p) = Some xs" "StateItem t \<in> set xs"
  shows "\<exists>m. rtos_list_remove (Some (StateItem t)) (lists s) = Ret m \<and>
           (counts m (ReadyL p) = 0 \<longleftrightarrow> remove1 (StateItem t) xs = []) \<and>
           kinv (s\<lparr>lists := m, ready_bitmap := pop_bitmap p (remove1 (StateItem t) xs) (ready_bitmap s)\<rparr>)
             (C(ReadyL p \<mapsto> remove1 (StateItem t) xs)) \<and>
           same_data (lists s) m \<and>
           (\<forall>j. \<not> is_sentinel j \<longrightarrow> cont m j = (if j = StateItem t then None else cont (lists s) j))"
proof -
  let ?ys = "remove1 (StateItem t) xs" let ?C = "C(ReadyL p \<mapsto> ?ys)"
  have c: "cont (lists s) (StateItem t) = Some (ReadyL p)" by (rule lists_wf_container[OF kinv_wf[OF inv] x])
  obtain m where m: "rtos_list_remove (Some (StateItem t)) (lists s) = Ret m" "lists_wf m ?C" "same_data (lists s) m"
     "\<And>j. \<not> is_sentinel j \<Longrightarrow> cont m j = (if j = StateItem t then None else cont (lists s) j)"
    using remove_take_out[OF kinv_wf[OF inv] _ c kinv_short[OF inv]] take_out_upd[OF kinv_wf[OF inv] x] by auto
  let ?s = "s\<lparr>lists := m, ready_bitmap := pop_bitmap p ?ys (ready_bitmap s)\<rparr>"
  have p: "p < 32" using inv x priority_lt_32 by (auto simp: kinv_def kernel_lists_def)
  have n: "counts m (ReadyL p) = 0 \<longleftrightarrow> ?ys = []"
    using rl.count_zero_iff[OF m(2), of "ReadyL p" ?ys] kinv_length[OF inv x(1)] x(2) by (simp add: length_remove1)
  have "bitmap_ok ?s ?C" using inv x p by (auto simp: bitmap_ok_def kinv_def pop_bitmap_def bit_clear_iff)
  moreover have "order_ok (val m) ?C"
    using inv unfolding order_ok_same_data[OF m(3)] kinv_def by (intro order_ok_upd) auto
  moreover have "kernel_lists ?C" using inv x by (intro kernel_lists_upd) (simp_all add: kinv_def)
  moreover have "if user_task s u then task_ok ?s u else unlisted ?s u" for u
  proof (rule tasks_frame[OF inv t])
    show "task_ok ?s t" using kinv_task[OF inv t] m(3,4) c by (auto simp: task_ok_def same_data_def blocked_list_def)
  qed (use m(3,4) in \<open>auto simp: same_data_def\<close>)
  ultimately have "kinv ?s ?C"
    using inv m(2) unfolding kinv_def
    by (auto simp: pool_ok_def idle_ok_def cur_ok_def delayed_ptrs_ok_def user_task_def)
  then show ?thesis using m n by blast
qed

lemma get_highest_runs:
  assumes inv: "kinv s C" and clz: "clz_spec clz" and b: "ready_bitmap s \<noteq> 0"
  shows "\<exists>p t xs m. highest_ready C p t xs \<and> user_task s t \<and>
           rtos_get_highest_prio_task clz s =
             Ret (Some t, s\<lparr>lists := m, ready_bitmap := pop_bitmap p xs (ready_bitmap s)\<rparr>) \<and>
           kinv (s\<lparr>lists := m, ready_bitmap := pop_bitmap p xs (ready_bitmap s)\<rparr>) (C(ReadyL p \<mapsto> xs)) \<and>
           same_data (lists s) m \<and>
           (\<forall>j. \<not> is_sentinel j \<longrightarrow> cont m j = (if j = StateItem t then None else cont (lists s) j))"
proof -
  let ?hp = "rtos_port_find_msb32 clz (ready_bitmap s)" let ?p = "unat ?hp"
  obtain t xs where t: "highest_ready C ?p t xs" "user_task s t" "unat (effective_priority (tcbs s t)) = ?p"
     "cont (lists s) (StateItem t) = Some (ReadyL ?p)" "own (lists s) (StateItem t) = Some t"
    using highest_ready_msb[OF inv clz b] by blast
  then have x: "C (ReadyL ?p) = Some (StateItem t # xs)" by (simp add: highest_ready_def)
  obtain m where m: "rtos_list_remove (Some (StateItem t)) (lists s) = Ret m"
     "counts m (ReadyL ?p) = 0 \<longleftrightarrow> xs = []"
     "kinv (s\<lparr>lists := m, ready_bitmap := pop_bitmap ?p xs (ready_bitmap s)\<rparr>) (C(ReadyL ?p \<mapsto> xs))"
     "same_data (lists s) m"
     "\<And>j. \<not> is_sentinel j \<Longrightarrow> cont m j = (if j = StateItem t then None else cont (lists s) j)"
    using remove_ready_kinv[OF inv t(2) x] by auto
  have e: "effective_priority (tcbs s t) = ?hp" using t(3) by (simp add: word_unat_eq_iff)
  have pc: "?p < ARTOS_PRIORITY_COUNT" using inv x by (auto simp: kinv_def kernel_lists_def)
  have n0: "counts (lists s) (ReadyL ?p) > 0"
    using rl.count_zero_iff[OF kinv_wf[OF inv] x kinv_length[OF inv x]] by (simp add: word_neq_0_conv)
  have b1: "pop_bitmap ?p xs (ready_bitmap s) AND push_bit ?p 1 \<noteq> 0 \<longleftrightarrow> xs \<noteq> []"
    using m(3) priority_lt_32[OF pc] by (auto simp: kinv_def bitmap_ok_def bit_test_iff)
  have f: "nxt (lists s) (Sentinel (ReadyL ?p)) = Some (StateItem t)" using rl.first[OF kinv_wf[OF inv] x] by simp
  have "rtos_get_highest_prio_task clz s = Ret (Some t, s\<lparr>lists := m, ready_bitmap := pop_bitmap ?p xs (ready_bitmap s)\<rparr>)"
    using b pc n0 m(2) b1 f t(4,5) e on_lists_Ret[of "rtos_list_remove (Some (StateItem t))" s, OF m(1)]
    by (auto simp: rtos_get_highest_prio_task_def Let_def pop_bitmap_def)
  then show ?thesis using t(1,2) m(3-5) by blast
qed


section \<open>Context switches\<close>

lemma tick_ok_cong:
  assumes "ticks s' = ticks s" "cur_delayed s' = cur_delayed s" "next_delayed s' = next_delayed s"
    and "\<And>j. val (lists s') j = val (lists s) j" "C' (cur_delayed s) = C (cur_delayed s)"
      "C' (next_delayed s) = C (next_delayed s)"
  shows "tick_ok s' C' = tick_ok s C"
  using assms by (simp add: tick_ok_def)

lemma kinv_delayed_distinct:
  assumes "kinv s C"
  shows "cur_delayed s \<noteq> ReadyL p" "next_delayed s \<noteq> ReadyL p" "\<not> is_wait_list (cur_delayed s)"
    "\<not> is_wait_list (next_delayed s)" "cur_delayed s \<noteq> SuspendL" "next_delayed s \<noteq> SuspendL"
  using assms by (auto simp: kinv_def delayed_ptrs_ok_def)

lemma kinv_save_sp:
  assumes "kinv s C" "sp \<noteq> 0" "c = IdleTask \<or> user_task s c"
  shows "kinv (upd_tcb c (\<lambda>t. t\<lparr>stack_pointer := sp\<rparr>) s) C"
  using assms unfolding kinv_parts by auto

lemma kinv_set_cur:
  "kinv s C \<Longrightarrow> t = IdleTask \<or> user_task s t \<Longrightarrow> kinv (s\<lparr>cur_task := Some t\<rparr>) C"
  unfolding kinv_parts by simp

text \<open>A task in no list enters the ready list of its priority, at the end.\<close>

lemma insert_ready_kinv:
  assumes inv: "kinv s C" and t: "user_task s t" "cont (lists s) (StateItem t) = None"
    and p: "p = unat (effective_priority (tcbs s t))"
  shows "\<exists>m. rtos_insert_ready_list (Some t) s = Ret (s\<lparr>lists := m, ready_bitmap := ready_bitmap s OR push_bit p 1\<rparr>) \<and>
           kinv (s\<lparr>lists := m, ready_bitmap := ready_bitmap s OR push_bit p 1\<rparr>) (append_to (ReadyL p) (StateItem t) C) \<and>
           same_data (lists s) m \<and>
           (\<forall>j. \<not> is_sentinel j \<longrightarrow> cont m j = (if j = StateItem t then Some (ReadyL p) else cont (lists s) j))"
proof -
  note ok = kinv_task[OF inv t(1)]
  have pc: "p < ARTOS_PRIORITY_COUNT" using ok p by (simp add: task_ok_def)
  have live: "C (ReadyL p) \<noteq> None" using inv pc by (simp add: kinv_def kernel_lists_def)
  obtain m where m: "rtos_insert_ready_list (Some t) s = Ret (s\<lparr>lists := m, ready_bitmap := ready_bitmap s OR push_bit p 1\<rparr>)"
     "lists_wf m (append_to (ReadyL p) (StateItem t) C)" "same_data (lists s) m"
     "\<And>j. \<not> is_sentinel j \<Longrightarrow> cont m j = (if j = StateItem t then Some (ReadyL p) else cont (lists s) j)"
    using insert_ready[OF kinv_wf[OF inv] p pc live t(2)] ok by (auto simp: task_ok_def)
  let ?s = "s\<lparr>lists := m, ready_bitmap := ready_bitmap s OR push_bit p 1\<rparr>" and ?C = "append_to (ReadyL p) (StateItem t) C"
  have E: "cont (lists s) (EventItem t) = None"
    using ok t(2) by (cases "cont (lists s) (EventItem t)") (auto simp: task_ok_def blocked_list_def)
  have "bitmap_ok ?s ?C"
    using inv live priority_lt_32[OF pc] by (auto simp: bitmap_ok_def kinv_def bit_set_iff append_to_def)
  moreover have "order_ok (val m) ?C"
    using inv unfolding order_ok_same_data[OF m(3)] kinv_def by (intro order_ok_append_to) auto
  moreover have "kernel_lists ?C" using inv live by (intro kernel_lists_append_to) (simp_all add: kinv_def)
  moreover have "if user_task s u then task_ok ?s u else unlisted ?s u" for u
  proof (rule tasks_frame[OF inv t(1)])
    show "task_ok ?s t" using ok m p E by (auto simp: task_ok_def same_data_def)
  qed (use m(3,4) in \<open>auto simp: same_data_def\<close>)
  ultimately have "kinv ?s ?C"
    using inv m(2) unfolding kinv_def
    by (auto simp: pool_ok_def idle_ok_def cur_ok_def delayed_ptrs_ok_def user_task_def)
  then show ?thesis using m by blast
qed

text \<open>
  The lists after the running task \<open>c\<close> has given up the processor: back into its ready list,
  at the end, unless it is the idle task or already blocked.
\<close>

definition requeued :: "tcb_ref \<Rightarrow> 'z kernel_scheme \<Rightarrow> list_view \<Rightarrow> list_view" where
  "requeued c s C =
     (if c \<noteq> IdleTask \<and> cont (lists s) (StateItem c) = None
      then append_to (ReadyL (unat (effective_priority (tcbs s c)))) (StateItem c) C else C)"

definition requeued_cont :: "tcb_ref \<Rightarrow> 'z kernel_scheme \<Rightarrow> item_ref \<Rightarrow> list_ref option" where
  "requeued_cont c s j =
     (if j = StateItem c \<and> c \<noteq> IdleTask \<and> cont (lists s) j = None
      then Some (ReadyL (unat (effective_priority (tcbs s c)))) else cont (lists s) j)"

lemma requeue_runs:
  assumes inv: "kinv s C" and c: "c = IdleTask \<or> user_task s c"
  shows "\<exists>m b. (if c \<noteq> IdleTask \<and> cont (lists s) (StateItem c) = None then rtos_insert_ready_list (Some c) s else Ret s) =
             Ret (s\<lparr>lists := m, ready_bitmap := b\<rparr>) \<and>
           kinv (s\<lparr>lists := m, ready_bitmap := b\<rparr>) (requeued c s C) \<and> same_data (lists s) m \<and>
           (\<forall>j. \<not> is_sentinel j \<longrightarrow> cont m j = requeued_cont c s j)"
proof (cases "c \<noteq> IdleTask \<and> cont (lists s) (StateItem c) = None")
  case True
  let ?p = "unat (effective_priority (tcbs s c))"
  obtain m where "rtos_insert_ready_list (Some c) s = Ret (s\<lparr>lists := m, ready_bitmap := ready_bitmap s OR push_bit ?p 1\<rparr>)"
     "kinv (s\<lparr>lists := m, ready_bitmap := ready_bitmap s OR push_bit ?p 1\<rparr>) (append_to (ReadyL ?p) (StateItem c) C)"
     "same_data (lists s) m"
     "\<forall>j. \<not> is_sentinel j \<longrightarrow> cont m j = (if j = StateItem c then Some (ReadyL ?p) else cont (lists s) j)"
    using insert_ready_kinv[OF inv _ _ refl, of c] c True by auto
  with True show ?thesis
    by (intro exI[of _ m] exI[of _ "ready_bitmap s OR push_bit ?p 1"]) (auto simp: requeued_def requeued_cont_def)
next
  case False
  then show ?thesis using inv
    by (intro exI[of _ "lists s"] exI[of _ "ready_bitmap s"]) (auto simp: requeued_def requeued_cont_def)
qed

text \<open>The task that runs next and the lists it leaves behind.\<close>

definition scheduled :: "list_view \<Rightarrow> tcb_ref \<Rightarrow> list_view \<Rightarrow> bool" where
  "scheduled C n C' \<longleftrightarrow>
     (if none_ready C then n = IdleTask \<and> C' = C
      else \<exists>p xs. highest_ready C p n xs \<and> C' = C(ReadyL p \<mapsto> xs))"

lemma scheduled_wait_lists: "scheduled C n C' \<Longrightarrow> is_wait_list l \<Longrightarrow> C' l = C l"
  by (auto simp: scheduled_def split: if_splits)

lemma requeued_wait_lists: "is_wait_list l \<Longrightarrow> requeued c s C l = C l"
  by (auto simp: requeued_def append_to_def)

lemma schedule_highest_runs:
  assumes inv: "kinv s C" and clz: "clz_spec clz" and b: "ready_bitmap s \<noteq> 0"
  shows "\<exists>n m b' C'. schedule_highest clz s = Ret (Some n, s\<lparr>lists := m, ready_bitmap := b', cur_task := Some n\<rparr>) \<and>
           scheduled C n C' \<and> user_task s n \<and> kinv (s\<lparr>lists := m, ready_bitmap := b', cur_task := Some n\<rparr>) C' \<and>
           same_data (lists s) m \<and> (\<forall>l. (\<forall>p. l \<noteq> ReadyL p) \<longrightarrow> C' l = C l) \<and>
           (\<forall>j. \<not> is_sentinel j \<longrightarrow> cont m j = (if j = StateItem n then None else cont (lists s) j))"
proof -
  obtain p t xs m where g: "highest_ready C p t xs" "user_task s t"
     "rtos_get_highest_prio_task clz s = Ret (Some t, s\<lparr>lists := m, ready_bitmap := pop_bitmap p xs (ready_bitmap s)\<rparr>)"
     "kinv (s\<lparr>lists := m, ready_bitmap := pop_bitmap p xs (ready_bitmap s)\<rparr>) (C(ReadyL p \<mapsto> xs))"
     "same_data (lists s) m" "\<forall>j. \<not> is_sentinel j \<longrightarrow> cont m j = (if j = StateItem t then None else cont (lists s) j)"
    using get_highest_runs[OF inv clz b] by blast
  have "\<not> none_ready C" using g(1) by (auto simp: none_ready_def highest_ready_def intro!: exI[of _ p])
  then have "scheduled C t (C(ReadyL p \<mapsto> xs))" using g(1) by (auto simp: scheduled_def)
  moreover have "kinv (s\<lparr>lists := m, ready_bitmap := pop_bitmap p xs (ready_bitmap s), cur_task := Some t\<rparr>) (C(ReadyL p \<mapsto> xs))"
    using kinv_set_cur[OF g(4), of t] g(2) by (simp add: user_task_def)
  ultimately show ?thesis using g
    by (intro exI[of _ t] exI[of _ m] exI[of _ "pop_bitmap p xs (ready_bitmap s)"] exI[of _ "C(ReadyL p \<mapsto> xs)"])
       (simp add: schedule_highest_def)
qed

text \<open>One call of \<open>rtos_scheduler_select_next\<close> from PendSV, with a valid stack.\<close>

lemma select_next_runs:
  assumes inv: "kinv s C" "tick_ok s C" and clz: "clz_spec clz" and c: "cur_task s = Some c"
    and sp: "sp \<noteq> 0" "artos_task_stack_valid (tcbs s c) sp s"
  shows "\<exists>n s' C'. rtos_scheduler_select_next clz sp s = Ret (Some n, s') \<and> scheduled (requeued c s C) n C' \<and>
           kinv s' C' \<and> tick_ok s' C' \<and> cur_task s' = Some n \<and>
           tcbs s' = (tcbs s)(c := (tcbs s c)\<lparr>stack_pointer := sp\<rparr>) \<and> same_data (lists s) (lists s') \<and>
           (\<forall>j. \<not> is_sentinel j \<longrightarrow>
              cont (lists s') j = (if n \<noteq> IdleTask \<and> j = StateItem n then None else requeued_cont c s j)) \<and>
           (n = IdleTask \<or> user_task s n) \<and> primask s' = primask s \<and> pendsv s' = pendsv s \<and>
           ticks s' = ticks s \<and> stack_mem s' = stack_mem s \<and> tsk_cnt s' = tsk_cnt s \<and> kernel.more s' = kernel.more s"
proof -
  let ?s1 = "upd_tcb c (\<lambda>t. t\<lparr>stack_pointer := sp\<rparr>) s" and ?C = "requeued c s C"
  have cu: "c = IdleTask \<or> user_task s c" using inv(1) c by (simp add: kinv_def cur_ok_def)
  have k1: "kinv ?s1 C" by (rule kinv_save_sp[OF inv(1) sp(1) cu])
  have rq: "requeued c ?s1 C = ?C" "\<And>j. requeued_cont c ?s1 j = requeued_cont c s j"
    by (auto simp: requeued_def requeued_cont_def)
  have "c = IdleTask \<or> user_task ?s1 c" using cu by (simp add: user_task_def)
  note r = requeue_runs[OF k1 this, unfolded rq]
  obtain m b where m: "(if c \<noteq> IdleTask \<and> cont (lists ?s1) (StateItem c) = None then rtos_insert_ready_list (Some c) ?s1 else Ret ?s1) =
        Ret (?s1\<lparr>lists := m, ready_bitmap := b\<rparr>)" "kinv (?s1\<lparr>lists := m, ready_bitmap := b\<rparr>) ?C"
      "same_data (lists s) m" "\<And>j. \<not> is_sentinel j \<Longrightarrow> cont m j = requeued_cont c s j"
    using r unfolding upd_tcb_fields by blast
  let ?s2 = "?s1\<lparr>lists := m, ready_bitmap := b\<rparr>"
  have valid: "artos_task_stack_valid (tcbs ?s1 c) sp ?s1" using sp(2) by (simp add: artos_task_stack_valid_def)
  have t2: "tick_ok ?s2 ?C"
    using inv m(3) kinv_delayed_distinct[OF inv(1)]
    by (subst tick_ok_cong[of _ s _ C]) (auto simp: same_data_def requeued_def append_to_def)
  have run: "rtos_scheduler_select_next clz sp s =
      (if b = 0 then Ret (Some IdleTask, ?s2\<lparr>cur_task := Some IdleTask\<rparr>) else schedule_highest clz ?s2)"
    using c sp(1) valid m(1) by (simp add: rtos_scheduler_select_next_def Let_def)
  show ?thesis
  proof (cases "b = 0")
    case True
    then have "scheduled ?C IdleTask ?C"
      using m(2) bitmap_zero_iff[of ?s2 ?C] by (auto simp: scheduled_def kinv_def)
    moreover have "tick_ok (?s2\<lparr>cur_task := Some IdleTask\<rparr>) ?C" using t2 by (simp add: tick_ok_def)
    ultimately show ?thesis using run True kinv_set_cur[OF m(2), of IdleTask] m(3,4)
      by (intro exI[of _ IdleTask] exI[of _ "?s2\<lparr>cur_task := Some IdleTask\<rparr>"] exI[of _ ?C]) auto
  next
    case False
    then have bn: "ready_bitmap ?s2 \<noteq> 0" by simp
    obtain n m' b' C' where n: "schedule_highest clz ?s2 = Ret (Some n, ?s2\<lparr>lists := m', ready_bitmap := b', cur_task := Some n\<rparr>)"
        "scheduled ?C n C'" "user_task ?s2 n" "kinv (?s2\<lparr>lists := m', ready_bitmap := b', cur_task := Some n\<rparr>) C'"
        "same_data (lists ?s2) m'" "\<And>l. (\<forall>p. l \<noteq> ReadyL p) \<Longrightarrow> C' l = ?C l"
        "\<And>j. \<not> is_sentinel j \<Longrightarrow> cont m' j = (if j = StateItem n then None else cont (lists ?s2) j)"
      using schedule_highest_runs[OF m(2) clz bn] by blast
    have n': "same_data m m'" "user_task s n" using n(3,5) by (simp_all add: user_task_def)
    let ?s' = "?s2\<lparr>lists := m', ready_bitmap := b', cur_task := Some n\<rparr>"
    have "tick_ok ?s' C'"
      using t2 n(5) n(6)[of "cur_delayed s"] n(6)[of "next_delayed s"] kinv_delayed_distinct[OF inv(1)]
      by (subst tick_ok_cong[of _ ?s2 _ ?C]) (auto simp: same_data_def)
    moreover have "n \<noteq> IdleTask" using n(3) by (auto simp: user_task_def)
    ultimately show ?thesis using run False n n'(2) same_data_trans[OF m(3) n'(1)] m(4)
      by (intro exI[of _ n] exI[of _ ?s'] exI[of _ C']) auto
  qed
qed

text \<open>The task that is chosen does not rest, so no resting task is disturbed.\<close>

lemma requeued_member:
  assumes k: "kinv s C" and c: "cur_task s = Some c" and r: "requeued c s C (ReadyL p) = Some xs" "StateItem n \<in> set xs"
  shows "\<not> blocked_list (cont (lists s) (StateItem n))"
proof (cases "n = c \<and> cont (lists s) (StateItem c) = None")
  case True
  then show ?thesis by (simp add: blocked_list_def)
next
  case False
  have "\<exists>ys. C (ReadyL p) = Some ys \<and> StateItem n \<in> set ys"
  proof (cases "C (ReadyL p)")
    case None
    have "c = IdleTask \<or> user_task s c" using k c by (simp add: kinv_def cur_ok_def)
    then show ?thesis using r False None kinv_ready_live[OF k, of c] by (auto simp: requeued_def append_to_def split: if_splits)
  next
    case (Some ys)
    then show ?thesis using r False by (auto simp: requeued_def append_to_def split: if_splits)
  qed
  then have "cont (lists s) (StateItem n) = Some (ReadyL p)" using rl.member[OF kinv_wf[OF k], of "StateItem n" "ReadyL p"] by simp
  then show ?thesis by (simp add: blocked_list_def)
qed

lemma scheduled_undisturbed:
  assumes k: "kinv s C" and c: "cur_task s = Some c" and h: "scheduled (requeued c s C) n C'"
    and m: "same_data (lists s) (lists s')" "ticks s' = ticks s" "tsk_cnt s' = tsk_cnt s"
      "\<forall>j. \<not> is_sentinel j \<longrightarrow> cont (lists s') j = (if n \<noteq> IdleTask \<and> j = StateItem n then None else requeued_cont c s j)"
  shows "undisturbed {} s s'"
proof -
  have "stays (lists s) (lists s') u" if u: "rests {} s u" for u
  proof -
    have b: "blocked_list (cont (lists s) (StateItem u))" using u by (simp add: rests_def)
    have "n \<noteq> u \<or> n = IdleTask"
    proof (cases "none_ready (requeued c s C)")
      case True
      then show ?thesis using h by (simp add: scheduled_def)
    next
      case False
      then obtain p xs where "requeued c s C (ReadyL p) = Some (StateItem n # xs)" using h by (auto simp: scheduled_def highest_ready_def)
      from requeued_member[OF k c this] b show ?thesis by auto
    qed
    moreover have "requeued_cont c s (StateItem u) = cont (lists s) (StateItem u)" using b by (auto simp: requeued_cont_def blocked_list_def)
    ultimately show ?thesis using m(1,4) by (auto simp: stays_def same_data_def requeued_cont_def)
  qed
  moreover have "user_task s' = user_task s" using m(3) by (simp add: fun_eq_iff user_task_def)
  ultimately show ?thesis using m(2) by (simp add: undisturbed_def)
qed

lemma switch_context_runs:
  assumes "kinv s C" "tick_ok s C" "clz_spec clz" "cur_task s = Some c"
    and "sp \<noteq> 0" "artos_task_stack_valid (tcbs s c) sp s"
  shows "\<exists>n s' C'. rtos_scheduler_switch_context clz sp s = Ret (stack_pointer (tcbs s' n), s') \<and>
           kinv s' C' \<and> tick_ok s' C' \<and> cur_task s' = Some n \<and> scheduled (requeued c s C) n C' \<and>
           tcbs s' = (tcbs s)(c := (tcbs s c)\<lparr>stack_pointer := sp\<rparr>) \<and>
           (\<forall>j. \<not> is_sentinel j \<longrightarrow>
              cont (lists s') j = (if n \<noteq> IdleTask \<and> j = StateItem n then None else requeued_cont c s j)) \<and>
           primask s' = primask s \<and> pendsv s' = pendsv s \<and> ticks s' = ticks s \<and> stack_mem s' = stack_mem s \<and>
           quiet s C s' C' \<and> undisturbed {} s s'"
proof -
  let ?s = "s\<lparr>primask := 1\<rparr>"
  have k: "kinv ?s C" "tick_ok ?s C" "artos_task_stack_valid (tcbs ?s c) sp ?s" "cur_task ?s = Some c"
    using assms by (simp_all add: artos_task_stack_valid_def)
  have rq: "requeued c ?s C = requeued c s C" "\<And>j. requeued_cont c ?s j = requeued_cont c s j"
    by (auto simp: requeued_def requeued_cont_def)
  obtain n s' C' where n: "rtos_scheduler_select_next clz sp ?s = Ret (Some n, s')" "scheduled (requeued c s C) n C'"
      "kinv s' C'" "tick_ok s' C'" "cur_task s' = Some n" "tcbs s' = (tcbs s)(c := (tcbs s c)\<lparr>stack_pointer := sp\<rparr>)"
      "\<forall>j. \<not> is_sentinel j \<longrightarrow>
         cont (lists s') j = (if n \<noteq> IdleTask \<and> j = StateItem n then None else requeued_cont c s j)"
      "pendsv s' = pendsv s" "ticks s' = ticks s" "stack_mem s' = stack_mem s"
      "tsk_cnt s' = tsk_cnt s" "kernel.more s' = kernel.more s" "same_data (lists s) (lists s')"
    using select_next_runs[OF k(1,2) assms(3) k(4) assms(5) k(3)] unfolding rq by auto
  then have "rtos_scheduler_switch_context clz sp s = Ret (stack_pointer (tcbs s' n), rtos_port_exit_critical (primask s) s')"
    by (simp add: rtos_scheduler_switch_context_def rtos_port_enter_critical_def)
  moreover have "quiet s C (rtos_port_exit_critical (primask s) s') C'"
    using n(6,11,12) scheduled_wait_lists[OF n(2)] by (simp add: quiet_def requeued_wait_lists)
  moreover have "undisturbed {} s (rtos_port_exit_critical (primask s) s')"
    using n(7,9,11,13) by (intro scheduled_undisturbed[OF assms(1,4) n(2)]) simp_all
  ultimately show ?thesis using n(2-)
    by (intro exI[of _ n] exI[of _ "rtos_port_exit_critical (primask s) s'"] exI[of _ C']) simp
qed

text \<open>
  \<^bold>\<open>C10.\<close> A context switch out of a running task with an intact stack: no assertion fails. The
  stack pointer of the outgoing task is saved; unless it is the idle task or has just
  blocked, it goes to the end of the ready list of its effective priority. The first task of
  the highest non-empty ready list is taken out and runs next, or the idle task if all ready
  lists are empty; its saved stack pointer is returned. The invariant is kept, and the interrupt mask restored.
  Together with the requeueing at the end this is round robin inside a priority.
\<close>

theorem switch_context_correct:
  assumes "kinv s C" "tick_ok s C" "clz_spec clz" "cur_task s = Some c"
    and "sp \<noteq> 0" "artos_task_stack_valid (tcbs s c) sp s"
  shows "\<exists>n s' C'. rtos_scheduler_switch_context clz sp s = Ret (stack_pointer (tcbs s' n), s') \<and>
           kinv s' C' \<and> tick_ok s' C' \<and> cur_task s' = Some n \<and> scheduled (requeued c s C) n C' \<and>
           tcbs s' = (tcbs s)(c := (tcbs s c)\<lparr>stack_pointer := sp\<rparr>) \<and>
           (\<forall>j. \<not> is_sentinel j \<longrightarrow>
              cont (lists s') j = (if n \<noteq> IdleTask \<and> j = StateItem n then None else requeued_cont c s j)) \<and>
           primask s' = primask s \<and> pendsv s' = pendsv s \<and> ticks s' = ticks s"
  using switch_context_runs[OF assms] by blast

text \<open>
  A context switch detects a damaged stack: if the saved stack pointer lies outside the
  usable part of the stack, or one of the guard words has been overwritten, the kernel
  records a stack overflow and halts with interrupts disabled, before any task is
  scheduled and without touching the lists.
\<close>

theorem stack_overflow_detected:
  assumes "cur_task s = Some c" "sp \<noteq> 0"
    and "sp < stack_buffer (tcbs s c) + 16 \<or> stack_buffer (tcbs s c) + 4 * stack_word_count (tcbs s c) < sp \<or>
         (\<exists>i < 4. stack_mem s (stack_buffer (tcbs s c) + 4 * of_nat i) \<noteq> ARTOS_STACK_GUARD_PATTERN)"
  shows "\<exists>s'. rtos_scheduler_switch_context clz sp s =
                Halt (Failure ARTOS_FAILURE_STACK_OVERFLOW (Some TASKS_C) 204) s' \<and>
              primask s' = 1 \<and> cur_task s' = Some c \<and> lists s' = lists s"
proof -
  let ?s = "upd_tcb c (\<lambda>t. t\<lparr>stack_pointer := sp\<rparr>) (s\<lparr>primask := 1\<rparr>)"
  have "\<not> artos_task_stack_valid (tcbs ?s c) sp ?s"
    using assms(3) by (auto simp: artos_task_stack_valid_def ARTOS_STACK_GUARD_WORDS_def list_all_iff Let_def)
  then have "rtos_scheduler_switch_context clz sp s = Halt (Failure ARTOS_FAILURE_STACK_OVERFLOW (Some TASKS_C) 204) ?s"
    using assms(1,2) by (simp add: rtos_scheduler_switch_context_def rtos_port_enter_critical_def
        rtos_scheduler_select_next_def Let_def)
  then show ?thesis using assms(1) by simp
qed

lemma scheduler_start_runs:
  assumes "kinv s C" "tick_ok s C" "clz_spec clz" "cur_task s = None" "\<not> none_ready C"
  shows "\<exists>n s' C'. rtos_scheduler_start clz s = Ret (Some n, s') \<and> kinv s' C' \<and> tick_ok s' C' \<and>
           cur_task s' = Some n \<and> user_task s n \<and> cont (lists s') (StateItem n) = None \<and>
           tcbs s' = tcbs s \<and> ticks s' = ticks s \<and> tsk_cnt s' = tsk_cnt s \<and> stack_mem s' = stack_mem s \<and>
           scheduled C n C' \<and> quiet s C s' C' \<and>
           (\<forall>u. cont (lists s') (StateItem u) = None \<longrightarrow> u = n \<or> cont (lists s) (StateItem u) = None) \<and> undisturbed {} s s'"
proof -
  have b: "ready_bitmap s \<noteq> 0" using assms(1,5) bitmap_zero_iff[of s C] by (simp add: kinv_def)
  have "rtos_scheduler_start clz s = schedule_highest clz s"
    using b assms(4) by (simp add: rtos_scheduler_start_def rtos_scheduler_select_next_def)
  moreover obtain n m b' C' where n: "schedule_highest clz s = Ret (Some n, s\<lparr>lists := m, ready_bitmap := b', cur_task := Some n\<rparr>)"
     "scheduled C n C'" "user_task s n" "kinv (s\<lparr>lists := m, ready_bitmap := b', cur_task := Some n\<rparr>) C'"
     "same_data (lists s) m" "\<And>l. (\<forall>p. l \<noteq> ReadyL p) \<Longrightarrow> C' l = C l"
     "\<And>j. \<not> is_sentinel j \<Longrightarrow> cont m j = (if j = StateItem n then None else cont (lists s) j)"
    using schedule_highest_runs[OF assms(1,3) b] by blast
  let ?s' = "s\<lparr>lists := m, ready_bitmap := b', cur_task := Some n\<rparr>"
  have "tick_ok ?s' C'"
    using assms(2) n(5) n(6)[of "cur_delayed s"] n(6)[of "next_delayed s"] kinv_delayed_distinct[OF assms(1)]
    by (subst tick_ok_cong[of _ s _ C]) (auto simp: same_data_def)
  moreover have "quiet s C ?s' C'" using scheduled_wait_lists[OF n(2)] by (simp add: quiet_def)
  moreover have "undisturbed {} s ?s'"
  proof -
    obtain p xs where p: "C (ReadyL p) = Some (StateItem n # xs)" using n(2) assms(5) by (auto simp: scheduled_def highest_ready_def)
    have "cont (lists s) (StateItem n) = Some (ReadyL p)" using lists_wf_container[OF kinv_wf[OF assms(1)] p, of "StateItem n"] by simp
    then have "stays (lists s) m u" if "rests {} s u" for u
      using that n(5,7) by (cases "u = n") (simp_all add: rests_def blocked_list_def stays_def same_data_def)
    then show ?thesis by (simp add: undisturbed_def user_task_def)
  qed
  ultimately show ?thesis using n by (intro exI[of _ n] exI[of _ ?s'] exI[of _ C']) simp
qed

text \<open>
  Starting the scheduler, before any task runs: the first task of the highest non-empty
  ready list becomes the running task, leaves its list, and the invariant is kept. If no
  task is ready NULL is returned and nothing changes.
\<close>

theorem scheduler_start_correct:
  assumes "kinv s C" "tick_ok s C" "clz_spec clz" "cur_task s = None"
  shows "if none_ready C then rtos_scheduler_start clz s = Ret (None, s)
         else \<exists>n s' C'. rtos_scheduler_start clz s = Ret (Some n, s') \<and> kinv s' C' \<and> tick_ok s' C' \<and>
                cur_task s' = Some n \<and> user_task s n \<and> cont (lists s') (StateItem n) = None \<and>
                tcbs s' = tcbs s \<and> scheduled C n C'"
proof (cases "none_ready C")
  case True
  then show ?thesis using assms bitmap_zero_iff[of s C]
    by (simp add: rtos_scheduler_start_def rtos_scheduler_select_next_def kinv_def)
next
  case False
  from scheduler_start_runs[OF assms False] show ?thesis using False by auto
qed

section \<open>Waking a task\<close>

lemma unblock_tick_ok:
  assumes inv: "kinv s C" "tick_ok s C" and m: "same_data (lists s) m"
  shows "tick_ok (unblocked t r m s) (unblock_view t p C)"
proof -
  have sub: "set (the (unblock_view t p C d)) \<subseteq> set (the (C d))" if d: "d = cur_delayed s \<or> d = next_delayed s" for d
  proof -
    obtain xs where "C d = Some xs" "d \<noteq> ReadyL p"
      using d inv(1) by (auto simp: kinv_def delayed_ptrs_ok_def kernel_lists_def)
    then have "unblock_view t p C d = Some (remove1 (EventItem t) (remove1 (StateItem t) xs))"
      by (simp add: unblock_view_def append_to_def take_out_def)
    then show ?thesis using \<open>C d = Some xs\<close> by (auto dest: notin_set_remove1 set_remove1_subset[THEN subsetD])
  qed
  show ?thesis using inv(2) m sub[of "cur_delayed s"] sub[of "next_delayed s"] by (auto simp: tick_ok_def same_data_def)
qed

lemma unblock_all:
  assumes inv: "kinv s C" "tick_ok s C" and t: "user_task s t" "blocked_list (cont (lists s) (StateItem t))"
    and i: "i = StateItem t \<or> i = EventItem t \<and> cont (lists s) (EventItem t) \<noteq> None"
  defines "p \<equiv> unat (effective_priority (tcbs s t))"
  shows "\<exists>m. rtos_unblock_task (Some i) reason s = Ret (unblocked t reason m s) \<and>
           kinv (unblocked t reason m s) (unblock_view t p C) \<and> tick_ok (unblocked t reason m s) (unblock_view t p C) \<and>
           same_data (lists s) m \<and>
           (\<forall>j. \<not> is_sentinel j \<longrightarrow> cont m j =
              (if j = StateItem t then Some (ReadyL p) else if j = EventItem t then None else cont (lists s) j))"
proof -
  obtain m where m: "rtos_unblock_task (Some i) reason s = Ret (unblocked t reason m s)"
     "lists_wf m (unblock_view t p C)" "same_data (lists s) m"
     "\<And>j. \<not> is_sentinel j \<Longrightarrow> cont m j =
              (if j = StateItem t then Some (ReadyL p) else if j = EventItem t then None else cont (lists s) j)"
    using unblock_runs[OF inv(1) t i] unfolding p_def by blast
  then show ?thesis
    using unblock_kinv[OF inv(1) t p_def[THEN meta_eq_to_obj_eq] m(2-4)] unblock_tick_ok[OF inv m(3)] by blast
qed

text \<open>
  \<^bold>\<open>C20.\<close> Unblocking a blocked task, by its state item or by its event item: no assertion fails and the
  invariant is kept. The task leaves its delayed or suspended list and the wait list it may be in,
  goes to the end of the ready list of its effective priority and records the wake reason. No other
  task is touched.
\<close>

theorem unblock_task_correct:
  assumes "kinv s C" "tick_ok s C" "user_task s t" "blocked_list (cont (lists s) (StateItem t))"
    and "i = StateItem t \<or> i = EventItem t \<and> cont (lists s) (EventItem t) \<noteq> None"
  shows "\<exists>s' C'. rtos_unblock_task (Some i) reason s = Ret s' \<and> kinv s' C' \<and> tick_ok s' C' \<and>
           tcbs s' = (tcbs s)(t := (tcbs s t)\<lparr>wait_reason := reason\<rparr>) \<and>
           (let p = unat (effective_priority (tcbs s t)) in
            C' (ReadyL p) = Some (the (C (ReadyL p)) @ [StateItem t]) \<and>
            (\<forall>j. \<not> is_sentinel j \<longrightarrow> cont (lists s') j =
               (if j = StateItem t then Some (ReadyL p) else if j = EventItem t then None else cont (lists s) j)))"
proof -
  obtain m where "rtos_unblock_task (Some i) reason s = Ret (unblocked t reason m s)"
     "kinv (unblocked t reason m s) (unblock_view t (unat (effective_priority (tcbs s t))) C)"
     "tick_ok (unblocked t reason m s) (unblock_view t (unat (effective_priority (tcbs s t))) C)"
     "\<forall>j. \<not> is_sentinel j \<longrightarrow> cont m j =
        (if j = StateItem t then Some (ReadyL (unat (effective_priority (tcbs s t))))
         else if j = EventItem t then None else cont (lists s) j)"
    using unblock_all[OF assms] by blast
  then show ?thesis using unblock_view_apply[OF assms(1,3,4)] unfolding Let_def
    by (intro exI[of _ "unblocked t reason m s"] exI[of _ "unblock_view t (unat (effective_priority (tcbs s t))) C"]) simp
qed

end
