(* ===== verification/Tasks_Create.thy ===== *)
theory Tasks_Create
  imports Tasks_Sched
begin

unbundle bit_operations_syntax

text \<open>
  Start-up of the scheduler and creation of tasks: initial stacks, task control blocks and lists.
\<close>

section \<open>Task creation\<close>

lemma fold_write_stack:
  "fold (write_stack stack v) is s =
     s\<lparr>stack_mem := (\<lambda>a. if \<exists>i \<in> set is. a = stack + 4 * of_nat i then v else stack_mem s a)\<rparr>"
proof (induction "is" arbitrary: s)
  case (Cons i "is")
  have "(\<lambda>a. if \<exists>i \<in> set is. a = stack + 4 * of_nat i then v
             else stack_mem (s\<lparr>stack_mem := (stack_mem s)(stack + 4 * of_nat i := v)\<rparr>) a) =
        (\<lambda>a. if \<exists>i \<in> set (i # is). a = stack + 4 * of_nat i then v else stack_mem s a)"
    by (rule ext) auto
  then show ?case using Cons by (simp add: write_stack_def)
qed simp

text \<open>A freshly initialised task control block, and its stack.\<close>

definition fresh_tcb :: "u32 \<Rightarrow> u32 \<Rightarrow> u32 \<Rightarrow> u32 \<Rightarrow> u8 \<Rightarrow> rtos_tcb" where
  "fresh_tcb entry argument stack words prio =
     \<lparr>stack_pointer = stack + 4 * words - 68, stack_buffer = stack, stack_word_count = words,
      tcb_entry = entry, tcb_argument = argument, priority = prio, effective_priority = prio,
      mutexes_held = 0, wait_reason = WAIT_NO_REASON\<rparr>"

definition fresh_items :: "tcb_ref \<Rightarrow> list_mem \<Rightarrow> list_mem" where
  "fresh_items t m =
     rtos_init_list_item (Some (EventItem t)) (Some t) (rtos_init_list_item (Some (StateItem t)) (Some t) m)"

lemma init_tcb_eq:
  "\<exists>f. rtos_init_tcb t entry argument stack words prio s =
     s\<lparr>stack_mem := f, tcbs := (tcbs s)(t := fresh_tcb entry argument stack words prio), lists := fresh_items t (lists s)\<rparr> \<and>
     (\<forall>a. a \<notin> (\<lambda>i. stack + 4 * words - 68 + 4 * of_nat i) ` {..<17} \<longrightarrow>
        f a = (if a \<in> (\<lambda>i. stack + 4 * of_nat i) ` {..<4} then ARTOS_STACK_GUARD_PATTERN
               else if a \<in> (\<lambda>i. stack + 4 * of_nat i) ` {4..<unat words} then ARTOS_STACK_FILL_PATTERN
               else stack_mem s a)) \<and>
     map (\<lambda>i. f (stack + 4 * words - 68 + 4 * of_nat i)) [0..<17] =
       replicate 8 0 @ [ARTOS_PORT_INITIAL_EXC_RETURN] @
       [argument, 0, 0, 0, 0, task_return_trap_addr s, entry AND NOT 1, ARTOS_PORT_INITIAL_XPSR]"
proof -
  let ?s1 = "fold (write_stack stack ARTOS_STACK_FILL_PATTERN) [ARTOS_STACK_GUARD_WORDS..<unat words] s"
  let ?s2 = "fold (write_stack stack ARTOS_STACK_GUARD_PATTERN) [0..<ARTOS_STACK_GUARD_WORDS] ?s1"
  obtain f1 where 1: "?s1 = s\<lparr>stack_mem := f1\<rparr>"
    "\<And>a. f1 a = (if \<exists>i \<in> set [ARTOS_STACK_GUARD_WORDS..<unat words]. a = stack + 4 * of_nat i
                 then ARTOS_STACK_FILL_PATTERN else stack_mem s a)"
    unfolding fold_write_stack by simp
  obtain f2 where 2: "?s2 = ?s1\<lparr>stack_mem := f2\<rparr>"
    "\<And>a. f2 a = (if \<exists>i \<in> set [0..<ARTOS_STACK_GUARD_WORDS]. a = stack + 4 * of_nat i
                 then ARTOS_STACK_GUARD_PATTERN else stack_mem ?s1 a)"
    unfolding fold_write_stack by simp
  have s2: "?s2 = s\<lparr>stack_mem := f2\<rparr>" using 1(1) 2(1) by simp
  obtain f where 3: "rtos_port_initialize_stack (stack + 4 * words) entry argument ?s2 = (stack + 4 * words - 68, s\<lparr>stack_mem := f\<rparr>)"
    "map (\<lambda>i. f (stack + 4 * words - 68 + 4 * of_nat i)) [0..<17] =
       replicate 8 0 @ [ARTOS_PORT_INITIAL_EXC_RETURN] @
       [argument, 0, 0, 0, 0, task_return_trap_addr s, entry AND NOT 1, ARTOS_PORT_INITIAL_XPSR]"
    "\<And>a. a \<notin> (\<lambda>i. stack + 4 * words - 68 + 4 * of_nat i) ` {..<17} \<Longrightarrow> f a = f2 a"
    using initialize_stack_frame[of "stack + 4 * words" entry argument ?s2] unfolding s2 frame_word_def by auto
  have "rtos_init_tcb t entry argument stack words prio s =
     s\<lparr>stack_mem := f, tcbs := (tcbs s)(t := fresh_tcb entry argument stack words prio), lists := fresh_items t (lists s)\<rparr>"
  proof -
    have "T\<lparr>stack_pointer := stack + 4 * words - 68, stack_buffer := stack, stack_word_count := words,
        tcb_entry := entry, tcb_argument := argument, priority := prio, effective_priority := prio,
        mutexes_held := 0, wait_reason := WAIT_NO_REASON\<rparr> = fresh_tcb entry argument stack words prio" for T :: rtos_tcb
      by (simp add: fresh_tcb_def)
    then show ?thesis using 3(1) by (simp add: rtos_init_tcb_def fresh_items_def upd_tcb_def)
  qed
  moreover have "f a = (if a \<in> (\<lambda>i. stack + 4 * of_nat i) ` {..<4} then ARTOS_STACK_GUARD_PATTERN
               else if a \<in> (\<lambda>i. stack + 4 * of_nat i) ` {4..<unat words} then ARTOS_STACK_FILL_PATTERN
               else stack_mem s a)" if "a \<notin> (\<lambda>i. stack + 4 * words - 68 + 4 * of_nat i) ` {..<17}" for a
    unfolding 3(3)[OF that] 2(2) 1 by (auto simp: ARTOS_STACK_GUARD_WORDS_def)
  ultimately show ?thesis using 3(2) by blast
qed


lemma fresh_items_fields [simp]:
  "val (fresh_items t m) j = (if j = StateItem t \<or> j = EventItem t then 0 else val m j)"
  "own (fresh_items t m) j = (if j = StateItem t \<or> j = EventItem t then Some t else own m j)"
  "cont (fresh_items t m) j = (if j = StateItem t \<or> j = EventItem t then None else cont m j)"
  by (auto simp: fresh_items_def init_list_item_fields)

lemma fresh_items_wf:
  assumes "lists_wf m C" "cont m (StateItem t) = None" "cont m (EventItem t) = None"
  shows "lists_wf (fresh_items t m) C"
proof -
  let ?m = "rtos_init_list_item (Some (StateItem t)) (Some t) m"
  have "lists_wf ?m C" by (rule init_list_item_law[OF assms(1) _ assms(2)]) simp
  moreover have "cont ?m (EventItem t) = None" using assms(3) by (simp add: init_list_item_fields)
  ultimately show ?thesis unfolding fresh_items_def using init_list_item_law[of ?m C "EventItem t" t] by simp
qed

lemma order_ok_cong:
  assumes "order_ok f C" "\<And>l xs i. C l = Some xs \<Longrightarrow> i \<in> set xs \<Longrightarrow> g i = f i"
  shows "order_ok g C"
proof -
  have "asc g xs = asc f xs" "desc g xs = desc f xs" if "C l = Some xs" for l xs
    using assms(2)[OF that] by (auto intro!: asc_cong desc_cong)
  then show ?thesis using assms(1) by (auto simp: order_ok_def)
qed

lemma listed_not_fresh:
  assumes "kinv s C" "\<not> user_task s t" "C l = Some xs" "i \<in> set xs"
  shows "i \<noteq> StateItem t" "i \<noteq> EventItem t"
  using kinv_listed[OF assms(1,3,4)] assms(2) by (auto split: if_splits)

lemma find_first: "P n \<Longrightarrow> n < m \<Longrightarrow> (\<And>i. i < n \<Longrightarrow> \<not> P i) \<Longrightarrow> find P [0..<m] = Some n"
  by (auto simp: find_Some_iff)

lemma unat_inc_small: "unat (w :: u32) < 16 \<Longrightarrow> unat (w + 1) = Suc (unat w)"
  using unat_add_lem[of w 1] by simp

text \<open>The next free slot of the pool becomes a task in no list.\<close>

lemma fresh_task_kinv:
  assumes inv: "kinv s C" and n: "unat (tsk_cnt s) < ARTOS_MAX_TASKS" and t: "t = Pool (unat (tsk_cnt s))"
    and p: "unat prio < ARTOS_PRIORITY_COUNT" and sp: "stack + 4 * words - 68 \<noteq> 0"
    and s': "lists s' = fresh_items t (lists s)" "tcbs s' = (tcbs s)(t := fresh_tcb entry argument stack words prio)"
      "tsk_cnt s' = tsk_cnt s + 1" "cur_task s' = cur_task s" "ready_bitmap s' = ready_bitmap s"
      "cur_delayed s' = cur_delayed s" "next_delayed s' = next_delayed s"
  shows "kinv s' C"
proof -
  have cnt: "unat (tsk_cnt s') = Suc (unat (tsk_cnt s))" using n s'(3) unat_inc_small by (simp add: ARTOS_MAX_TASKS_def)
  have nt: "\<not> user_task s t" and u: "user_task s' v \<longleftrightarrow> user_task s v \<or> v = t" for v
    using t cnt by (auto simp: user_task_def less_Suc_eq)
  have un: "cont (lists s) (StateItem t) = None" "cont (lists s) (EventItem t) = None"
    using kinv_unlisted[OF inv nt] by (auto simp: unlisted_def)
  have "order_ok (\<lambda>i. val (lists s') i) C"
  proof (rule order_ok_cong)
    show "order_ok (\<lambda>i. val (lists s) i) C" using inv by (simp add: kinv_def)
  qed (use listed_not_fresh[OF inv nt] s'(1) in simp)
  moreover have "if user_task s' v then task_ok s' v else unlisted s' v" for v
  proof (cases "v = t")
    case True
    then show ?thesis using p u s' by (simp add: task_ok_def fresh_tcb_def)
  next
    case False
    then show ?thesis
      using u[of v] kinv_task[OF inv, of v] kinv_unlisted[OF inv, of v] s'
      by (auto simp: task_ok_def unlisted_def)
  qed
  moreover have "pool_ok s'"
    using inv n cnt sp t s'(2) by (auto simp: kinv_def pool_ok_def fresh_tcb_def)
  moreover have "idle_ok s'" "cur_ok s'" "bitmap_ok s' C" "delayed_ptrs_ok s'"
    using inv t s' u by (auto simp: kinv_def idle_ok_def cur_ok_def bitmap_ok_def delayed_ptrs_ok_def)
  moreover have "lists_wf (lists s') C" unfolding s'(1) by (rule fresh_items_wf[OF kinv_wf[OF inv] un])
  ultimately show ?thesis using inv by (simp add: kinv_def)
qed

lemma tick_ok_fresh:
  assumes inv: "kinv s C" "tick_ok s C" and t: "\<not> user_task s t"
    and s': "lists s' = fresh_items t (lists s)" "ticks s' = ticks s"
      "cur_delayed s' = cur_delayed s" "next_delayed s' = next_delayed s"
  shows "tick_ok s' C"
proof -
  have "val (lists s') i = val (lists s) i" if "C d = Some xs" "i \<in> set xs" for d xs i
    using listed_not_fresh[OF inv(1) t that] s'(1) by simp
  moreover obtain xs ys where "C (cur_delayed s) = Some xs" "C (next_delayed s) = Some ys"
    using inv(1) by (auto simp: kinv_def delayed_ptrs_ok_def kernel_lists_def)
  ultimately show ?thesis using inv(2) s' by (simp add: tick_ok_def)
qed


text \<open>A stack top that passes the alignment check does not put the initial stack pointer at NULL.\<close>

lemma aligned_sp_nonzero: "(w :: u32) AND 7 = 0 \<Longrightarrow> w - 68 \<noteq> 0"
  by auto

lemma kinv_free_slot:
  assumes "kinv s C" "unat (tsk_cnt s) < ARTOS_MAX_TASKS"
  shows "find (\<lambda>i. stack_pointer (tcbs s (Pool i)) = 0) [0..<ARTOS_MAX_TASKS] = Some (unat (tsk_cnt s))"
  using assms by (intro find_first) (auto simp: kinv_def pool_ok_def)

lemma task_create_ok:
  assumes inv: "kinv s C" "tick_ok s C" and n: "unat (tsk_cnt s) < ARTOS_MAX_TASKS"
    and a: "stack \<noteq> 0" "entry \<noteq> 0" "unat prio < ARTOS_PRIORITY_COUNT" "(stack + 4 * words) AND 7 = 0"
      "ARTOS_MIN_STACK_WORDS \<le> words"
  shows "\<exists>s'. artos_task_create entry argument stack words prio s = Ret (ARTOS_OK, s') \<and>
           kinv s' (append_to (ReadyL (unat prio)) (StateItem (Pool (unat (tsk_cnt s)))) C) \<and>
           tick_ok s' (append_to (ReadyL (unat prio)) (StateItem (Pool (unat (tsk_cnt s)))) C) \<and>
           tsk_cnt s' = tsk_cnt s + 1 \<and>
           tcbs s' = (tcbs s)(Pool (unat (tsk_cnt s)) := fresh_tcb entry argument stack words prio) \<and>
           cont (lists s') (StateItem (Pool (unat (tsk_cnt s)))) = Some (ReadyL (unat prio)) \<and>
           cont (lists s') (EventItem (Pool (unat (tsk_cnt s)))) = None \<and>
           primask s' = primask s \<and> ticks s' = ticks s \<and> cur_task s' = cur_task s \<and>
           pendsv s' = (pendsv s \<or> (\<exists>c. cur_task s = Some c \<and> effective_priority (tcbs s c) < prio)) \<and>
           stack_mem s' = stack_mem (rtos_init_tcb (Pool (unat (tsk_cnt s))) entry argument stack words prio (s\<lparr>primask := 1\<rparr>)) \<and>
           kernel.more s' = kernel.more s \<and> keeps_tasks {} s s'"
proof -
  let ?t = "Pool (unat (tsk_cnt s))" and ?T = "fresh_tcb entry argument stack words prio" and ?s0 = "s\<lparr>primask := 1\<rparr>"
  have nt: "\<not> user_task s ?t" by (simp add: user_task_def)
  obtain f where f: "rtos_init_tcb ?t entry argument stack words prio ?s0 =
      ?s0\<lparr>stack_mem := f, tcbs := (tcbs s)(?t := ?T), lists := fresh_items ?t (lists s)\<rparr>"
    using init_tcb_eq[of ?t entry argument stack words prio ?s0] by auto
  let ?s1 = "s\<lparr>primask := 1, stack_mem := f, tcbs := (tcbs s)(?t := ?T), lists := fresh_items ?t (lists s), tsk_cnt := tsk_cnt s + 1\<rparr>"
  have k1: "kinv ?s1 C" by (rule fresh_task_kinv[OF inv(1) n refl a(3) aligned_sp_nonzero[OF a(4)]]) simp_all
  have t1: "tick_ok ?s1 C" by (rule tick_ok_fresh[OF inv nt]) simp_all
  have u1: "user_task ?s1 ?t" "cont (lists ?s1) (StateItem ?t) = None" "unat prio = unat (effective_priority (tcbs ?s1 ?t))"
    using n unat_inc_small by (simp_all add: user_task_def fresh_tcb_def ARTOS_MAX_TASKS_def)
  let ?C = "append_to (ReadyL (unat prio)) (StateItem ?t) C"
  obtain m where m: "rtos_insert_ready_list (Some ?t) ?s1 = Ret (?s1\<lparr>lists := m, ready_bitmap := ready_bitmap ?s1 OR push_bit (unat prio) 1\<rparr>)"
     "kinv (?s1\<lparr>lists := m, ready_bitmap := ready_bitmap ?s1 OR push_bit (unat prio) 1\<rparr>) ?C" "same_data (lists ?s1) m"
     "\<And>j. \<not> is_sentinel j \<Longrightarrow> cont m j = (if j = StateItem ?t then Some (ReadyL (unat prio)) else cont (lists ?s1) j)"
    using insert_ready_kinv[OF k1 u1] by blast
  let ?s2 = "?s1\<lparr>lists := m, ready_bitmap := ready_bitmap ?s1 OR push_bit (unat prio) 1\<rparr>"
  have t2: "tick_ok ?s2 ?C"
    using t1 m(3) kinv_delayed_distinct[OF inv(1)]
    by (subst tick_ok_cong[of _ ?s1 _ C]) (auto simp: same_data_def append_to_def)
  define y where "y \<longleftrightarrow> (\<exists>c. cur_task s = Some c \<and> effective_priority (tcbs s c) < prio)"
  let ?s3 = "rtos_port_exit_critical (primask s) ?s2"
  let ?s4 = "if y then rtos_port_request_context_switch ?s3 else ?s3"
  have cn: "cur_task s \<noteq> Some ?t" using inv(1) nt by (auto simp: kinv_def cur_ok_def)
  have "tsk_cnt s \<noteq> of_nat ARTOS_MAX_TASKS" using n by (auto simp: ARTOS_MAX_TASKS_def)
  then have "artos_task_create entry argument stack words prio s = Ret (ARTOS_OK, ?s4)"
    using a kinv_free_slot[OF inv(1) n] m(1) cn
    by (cases "cur_task s") (simp_all add: y_def artos_task_create_def rtos_port_enter_critical_def f Let_def not_less)
  moreover have "cont m (EventItem ?t) = None" "cont m (StateItem ?t) = Some (ReadyL (unat prio))" using m(4) by simp_all
  moreover have "keeps_tasks {} s ?s4"
  proof -
    have old: "user_task ?s4 u \<longleftrightarrow> user_task s u \<or> u = ?t" for u
      using n unat_inc_small[of "tsk_cnt s"] by (cases y) (auto simp: user_task_def ARTOS_MAX_TASKS_def f less_Suc_eq)
    have "stays (lists s) m u" if "user_task s u" for u using that nt m(3,4) by (cases "u = ?t") (simp_all add: stays_def same_data_def)
    then have "undisturbed {} s ?s4" using old nt by (cases y) (auto simp: undisturbed_def rests_def)
    then show ?thesis using m(4) old by (cases y) (auto simp: keeps_tasks_def f split: if_splits)
  qed
  ultimately show ?thesis using m(2) t2 f unfolding y_def[symmetric] by (intro exI[of _ ?s4]) (cases y; simp)
qed


text \<open>
  \<^bold>\<open>C24.\<close> Creating a task, on every branch. A NULL stack or entry, a priority out of range or a
  stack top that is not 8-byte aligned is an invalid argument; a stack of fewer than 64 words
  is too small; a full pool is the task limit: in these cases nothing changes. Otherwise the next
  slot of the pool is initialised, the task goes to the end of the ready list of its
  priority, the invariant is kept, and a context switch is requested if and only if the new task
  outranks the running one. The branch after the loop over the pool is never reached.
\<close>

theorem task_create_correct:
  assumes "kinv s C" "tick_ok s C"
  shows "if stack = 0 \<or> entry = 0 \<or> unat prio \<ge> ARTOS_PRIORITY_COUNT \<or> (stack + 4 * words) AND 7 \<noteq> 0
         then artos_task_create entry argument stack words prio s = Ret (ARTOS_ERROR_INVALID_ARGUMENT, s)
         else if words < ARTOS_MIN_STACK_WORDS
         then artos_task_create entry argument stack words prio s = Ret (ARTOS_ERROR_STACK_TOO_SMALL, s)
         else if unat (tsk_cnt s) = ARTOS_MAX_TASKS
         then artos_task_create entry argument stack words prio s = Ret (ARTOS_ERROR_TASK_LIMIT, s)
         else let t = Pool (unat (tsk_cnt s)); C' = append_to (ReadyL (unat prio)) (StateItem t) C in
           \<exists>s'. artos_task_create entry argument stack words prio s = Ret (ARTOS_OK, s') \<and>
             kinv s' C' \<and> tick_ok s' C' \<and> tsk_cnt s' = tsk_cnt s + 1 \<and>
             tcbs s' = (tcbs s)(t := fresh_tcb entry argument stack words prio) \<and>
             primask s' = primask s \<and> ticks s' = ticks s \<and> cur_task s' = cur_task s \<and>
             pendsv s' = (pendsv s \<or> (\<exists>c. cur_task s = Some c \<and> effective_priority (tcbs s c) < prio))"
proof -
  consider "stack = 0 \<or> entry = 0 \<or> unat prio \<ge> ARTOS_PRIORITY_COUNT \<or> (stack + 4 * words) AND 7 \<noteq> 0"
    | "stack \<noteq> 0" "entry \<noteq> 0" "unat prio < ARTOS_PRIORITY_COUNT" "(stack + 4 * words) AND 7 = 0"
    by linarith
  then show ?thesis
  proof cases
    case 1
    then show ?thesis by (auto simp: artos_task_create_def Let_def)
  next
    case 2
    note a = 2
    have le: "unat (tsk_cnt s) \<le> ARTOS_MAX_TASKS" using assms(1) by (simp add: kinv_def pool_ok_def)
    have eq: "tsk_cnt s = of_nat ARTOS_MAX_TASKS \<longleftrightarrow> unat (tsk_cnt s) = ARTOS_MAX_TASKS"
      by (auto simp: ARTOS_MAX_TASKS_def word_unat_eq_iff)
    show ?thesis
    proof (cases "words < ARTOS_MIN_STACK_WORDS \<or> unat (tsk_cnt s) = ARTOS_MAX_TASKS")
      case True
      then show ?thesis using a eq by (auto simp: artos_task_create_def Let_def)
    next
      case False
      then have "unat (tsk_cnt s) < ARTOS_MAX_TASKS" "ARTOS_MIN_STACK_WORDS \<le> words" using le by auto
      from task_create_ok[OF assms this(1) a this(2)] show ?thesis
        using a False unfolding Let_def by auto
    qed
  qed
qed

text \<open>Word addresses inside a stack that does not wrap around the address space.\<close>

lemma stack_word_addr_inj:
  assumes "unat (stack :: u32) + 4 * n < 2 ^ 32" "i < n" "j < n" "stack + 4 * of_nat i = stack + 4 * of_nat j"
  shows "i = j"
proof -
  have "unat (4 * of_nat k :: u32) = 4 * k" if "k < n" for k
  proof -
    have "(4 * of_nat k :: u32) = of_nat (4 * k)" by simp
    moreover have "unat (of_nat (4 * k) :: u32) = 4 * k" using that assms(1) unfolding unat_of_nat by (intro mod_less) simp
    ultimately show ?thesis by simp
  qed
  with assms(2-4) show ?thesis by (metis add_left_cancel mult_left_cancel zero_neq_numeral)
qed

lemma init_tcb_stack:
  fixes s :: "'z kernel_scheme" and t entry argument stack words prio
  assumes "unat stack + 4 * unat words < 2 ^ 32" "64 \<le> unat words"
  defines "s' \<equiv> rtos_init_tcb t entry argument stack words prio s"
  defines "sp \<equiv> stack_pointer (tcbs s' t)"
  shows "artos_task_stack_valid (tcbs s' t) sp s' \<and>
         (\<forall>i. 4 \<le> i \<and> i < unat words - 17 \<longrightarrow> stack_mem s' (stack + 4 * of_nat i) = ARTOS_STACK_FILL_PATTERN) \<and>
         map (\<lambda>i. frame_word sp i s') [0..<17] = replicate 8 0 @ [ARTOS_PORT_INITIAL_EXC_RETURN] @
           [argument, 0, 0, 0, 0, task_return_trap_addr s, entry AND NOT 1, ARTOS_PORT_INITIAL_XPSR]"
proof -
  obtain f where f: "s' = s\<lparr>stack_mem := f, tcbs := (tcbs s)(t := fresh_tcb entry argument stack words prio),
       lists := fresh_items t (lists s)\<rparr>"
     "\<And>a. a \<notin> (\<lambda>i. stack + 4 * words - 68 + 4 * of_nat i) ` {..<17} \<Longrightarrow>
        f a = (if a \<in> (\<lambda>i. stack + 4 * of_nat i) ` {..<4} then ARTOS_STACK_GUARD_PATTERN
               else if a \<in> (\<lambda>i. stack + 4 * of_nat i) ` {4..<unat words} then ARTOS_STACK_FILL_PATTERN
               else stack_mem s a)"
     "map (\<lambda>i. f (stack + 4 * words - 68 + 4 * of_nat i)) [0..<17] =
       replicate 8 0 @ [ARTOS_PORT_INITIAL_EXC_RETURN] @
       [argument, 0, 0, 0, 0, task_return_trap_addr s, entry AND NOT 1, ARTOS_PORT_INITIAL_XPSR]"
    using init_tcb_eq[of t entry argument stack words prio s] unfolding s'_def by blast
  have sp: "sp = stack + 4 * words - 68" unfolding sp_def f(1) by (simp add: fresh_tcb_def)
  have fr: "stack + 4 * words - 68 + 4 * of_nat i = stack + 4 * of_nat (unat words - 17 + i)" for i
  proof -
    have "(of_nat (unat words - 17) :: u32) = words - 17" using assms(2) by (subst of_nat_diff) auto
    then show ?thesis unfolding of_nat_add by (simp only: distrib_left right_diff_distrib) simp
  qed
  have out: "stack + 4 * of_nat i \<notin> (\<lambda>i. stack + 4 * words - 68 + 4 * of_nat i) ` {..<17}" if "i < unat words - 17" for i
  proof
    assume "stack + 4 * of_nat i \<in> (\<lambda>i. stack + 4 * words - 68 + 4 * of_nat i) ` {..<17}"
    then obtain j where j: "j < 17" "stack + 4 * of_nat i = stack + 4 * of_nat (unat words - 17 + j)" unfolding fr by blast
    then show False using stack_word_addr_inj[OF assms(1) _ _ j(2)] that assms(2) by linarith
  qed
  have guard: "f (stack + 4 * of_nat i) = ARTOS_STACK_GUARD_PATTERN" if "i < 4" for i
    using f(2)[OF out, of i] that assms(2) by auto
  have fill: "f (stack + 4 * of_nat i) = ARTOS_STACK_FILL_PATTERN" if i: "4 \<le> i" "i < unat words - 17" for i
  proof -
    have "stack + 4 * of_nat i \<notin> (\<lambda>i. stack + 4 * of_nat i) ` {..<4}"
    proof
      assume "stack + 4 * of_nat i \<in> (\<lambda>i. stack + 4 * of_nat i) ` {..<4}"
      then obtain j where j: "j < 4" "stack + 4 * of_nat i = stack + 4 * of_nat j" by blast
      then show False using stack_word_addr_inj[OF assms(1) _ _ j(2)] i assms(2) by linarith
    qed
    then show ?thesis using f(2)[OF out, of i] i by auto
  qed
  have u: "unat (4 * words) = 4 * unat words" using assms(1) by (simp add: unat_mult_lem[THEN iffD1])
  have "unat (stack + 4 * words) = unat stack + 4 * unat words" using assms(1) u by (simp add: unat_add_lem[THEN iffD1])
  moreover have "unat (stack + 16) = unat stack + 16" using assms by (simp add: unat_add_lem[THEN iffD1])
  moreover have "unat (stack + 4 * words - 68) = unat (stack + 4 * words) - 68"
    using calculation(1) assms by (subst unat_sub) (simp_all add: word_le_nat_alt)
  ultimately have "stack + 16 \<le> stack + 4 * words - 68" "stack + 4 * words - 68 \<le> stack + 4 * words"
    using assms(2) by (simp_all add: word_le_nat_alt)
  then have "artos_task_stack_valid (tcbs s' t) sp s'" unfolding sp f(1)
    using guard by (auto simp: artos_task_stack_valid_def fresh_tcb_def ARTOS_STACK_GUARD_WORDS_def list_all_iff not_less)
  moreover have "stack_mem s' = f" using f(1) by simp
  ultimately show ?thesis using fill f(3) unfolding sp frame_word_def by simp
qed


text \<open>
  The stack of a task just created, when the buffer lies inside the address space: it
  passes the overflow check that every context switch makes (guard words intact, saved stack pointer in
  range), the words between guard and frame hold the fill pattern, and the frame
  restores to the entry point with the argument in r0.
\<close>

theorem task_create_stack:
  fixes s :: "'z kernel_scheme" and t entry argument stack words prio
  assumes "unat stack + 4 * unat words < 2 ^ 32" "64 \<le> unat words"
  defines "s' \<equiv> rtos_init_tcb t entry argument stack words prio s"
  defines "sp \<equiv> stack_pointer (tcbs s' t)"
  shows "artos_task_stack_valid (tcbs s' t) sp s' \<and>
         (\<forall>i. 4 \<le> i \<and> i < unat words - 17 \<longrightarrow> stack_mem s' (stack + 4 * of_nat i) = ARTOS_STACK_FILL_PATTERN) \<and>
         map (\<lambda>i. frame_word sp i s') [0..<17] = replicate 8 0 @ [ARTOS_PORT_INITIAL_EXC_RETURN] @
           [argument, 0, 0, 0, 0, task_return_trap_addr s, entry AND NOT 1, ARTOS_PORT_INITIAL_XPSR]"
  unfolding sp_def s'_def by (rule init_tcb_stack[OF assms(1,2)])

section \<open>System initialisation\<close>

text \<open>The view after start-up: the kernel's own lists are live and empty.\<close>

definition boot_view :: list_view where
  "boot_view l =
     (case l of ReadyL p \<Rightarrow> if p < ARTOS_PRIORITY_COUNT then Some [] else None
      | DelayedL \<Rightarrow> Some [] | DelayedOverflowL \<Rightarrow> Some [] | SuspendL \<Rightarrow> Some [] | _ \<Rightarrow> None)"

text \<open>There is no task control block beyond the pool and the idle task.\<close>

definition pool_bounded :: "'z kernel_scheme \<Rightarrow> bool" where
  "pool_bounded s \<longleftrightarrow> (\<forall>i \<ge> ARTOS_MAX_TASKS. unlisted s (Pool i))"

lemma fold_zero_pool_slot:
  "fold zero_pool_slot is s =
     s\<lparr>tcbs := (\<lambda>t. if t \<in> Pool ` set is then zero_tcb else tcbs s t),
       lists := (lists s)\<lparr>items := (\<lambda>j. if j \<in> StateItem ` Pool ` set is \<union> EventItem ` Pool ` set is
                                     then zero_item else items (lists s) j)\<rparr>\<rparr>"
proof (induction "is" arbitrary: s)
  case (Cons i "is")
  let ?z = "zero_pool_slot i s"
  have z: "tcbs ?z = (tcbs s)(Pool i := zero_tcb)"
    "items (lists ?z) = (items (lists s))(StateItem (Pool i) := zero_item, EventItem (Pool i) := zero_item)"
    "?z\<lparr>tcbs := T, lists := (lists ?z)\<lparr>items := I\<rparr>\<rparr> = s\<lparr>tcbs := T, lists := (lists s)\<lparr>items := I\<rparr>\<rparr>" for T I
    by (simp_all add: zero_pool_slot_def)
  have "(\<lambda>t. if t \<in> Pool ` set is then zero_tcb else tcbs ?z t) =
        (\<lambda>t. if t \<in> Pool ` set (i # is) then zero_tcb else tcbs s t)" unfolding z by auto
  moreover have "(\<lambda>j. if j \<in> StateItem ` Pool ` set is \<union> EventItem ` Pool ` set is then zero_item else items (lists ?z) j) =
       (\<lambda>j. if j \<in> StateItem ` Pool ` set (i # is) \<union> EventItem ` Pool ` set (i # is) then zero_item
         else items (lists s) j)" unfolding z by auto
  ultimately show ?case unfolding fold_simps Cons.IH z(3) by simp
qed simp

lemma no_lists_wf: "(\<And>j. \<not> is_sentinel j \<Longrightarrow> cont m j = None) \<Longrightarrow> lists_wf m (\<lambda>_. None)"
  by (simp add: lists_wf_def)

lemma boot_view_upds:
  "boot_view = ((\<lambda>_. None)(ReadyL 0 \<mapsto> [], ReadyL 1 \<mapsto> [], DelayedL \<mapsto> [], DelayedOverflowL \<mapsto> [], SuspendL \<mapsto> []))"
  by (rule ext) (auto simp: boot_view_def ARTOS_PRIORITY_COUNT_def less_2_cases_iff split: list_ref.splits)

lemma init_kernel_lists_wf:
  assumes "lists_wf m (\<lambda>_. None)"
  shows "lists_wf (rtos_init_list (Some SuspendL) (rtos_init_list (Some DelayedOverflowL) (rtos_init_list (Some DelayedL)
           (rtos_init_list (Some (ReadyL 1)) (rtos_init_list (Some (ReadyL 0)) m))))) boot_view"
  unfolding boot_view_upds using assms by (intro init_list_law) simp_all

lemma init_list_cont:
  "\<not> is_sentinel j \<Longrightarrow> cont (rtos_init_list (Some l) m) j = cont m j"
  "\<not> is_sentinel j \<Longrightarrow> own (rtos_init_list (Some l) m) j = own m j"
  by (auto simp: init_list_fields)

lemma init_list_val: "\<not> is_sentinel j \<Longrightarrow> val (rtos_init_list (Some l) m) j = val m j"
  by (auto simp: init_list_fields)

lemma scheduler_init_fields [simp]:
  "lists (rtos_port_scheduler_init s) = lists s" "tcbs (rtos_port_scheduler_init s) = tcbs s"
  "tsk_cnt (rtos_port_scheduler_init s) = tsk_cnt s" "cur_task (rtos_port_scheduler_init s) = cur_task s"
  "ticks (rtos_port_scheduler_init s) = ticks s" "ready_bitmap (rtos_port_scheduler_init s) = ready_bitmap s"
  "cur_delayed (rtos_port_scheduler_init s) = cur_delayed s" "next_delayed (rtos_port_scheduler_init s) = next_delayed s"
  "primask (rtos_port_scheduler_init s) = primask s" "pendsv (rtos_port_scheduler_init s) = pendsv s"
  "stack_mem (rtos_port_scheduler_init s) = stack_mem s"
  by (simp_all add: rtos_port_scheduler_init_def)

lemma system_init_kinv:
  assumes "pool_bounded s"
  shows "kinv (rtos_system_init s) boot_view \<and> tick_ok (rtos_system_init s) boot_view \<and>
         cur_task (rtos_system_init s) = None \<and> ticks (rtos_system_init s) = 0 \<and> tsk_cnt (rtos_system_init s) = 0 \<and>
         tcbs (rtos_system_init s) IdleTask = fresh_tcb (idle_task_addr s) 0 (idle_task_stack_addr s) ARTOS_MIN_STACK_WORDS 0"
proof -
  let ?T = "fresh_tcb (idle_task_addr s) 0 (idle_task_stack_addr s) ARTOS_MIN_STACK_WORDS 0"
  obtain f where f: "rtos_init_tcb IdleTask (idle_task_addr s) 0 (idle_task_stack_addr s) ARTOS_MIN_STACK_WORDS 0 s =
      s\<lparr>stack_mem := f, tcbs := (tcbs s)(IdleTask := ?T), lists := fresh_items IdleTask (lists s)\<rparr>"
    using init_tcb_eq by blast
  let ?P = "Pool ` {0..<ARTOS_MAX_TASKS}"
  let ?m = "(fresh_items IdleTask (lists s))\<lparr>items := (\<lambda>j. if j \<in> StateItem ` ?P \<union> EventItem ` ?P then zero_item
              else items (fresh_items IdleTask (lists s)) j)\<rparr>"
  let ?L = "rtos_init_list (Some SuspendL) (rtos_init_list (Some DelayedOverflowL) (rtos_init_list (Some DelayedL)
           (rtos_init_list (Some (ReadyL 1)) (rtos_init_list (Some (ReadyL 0)) ?m))))"
  have c: "cont ?m j = None" if j: "\<not> is_sentinel j" for j
  proof -
    obtain t where t: "j = StateItem t \<or> j = EventItem t" using j by (cases j) auto
    show ?thesis
    proof (cases "t = IdleTask \<or> t \<in> ?P")
      case True
      then show ?thesis using t by (auto simp: zero_item_def)
    next
      case False
      then obtain i where "t = Pool i" "ARTOS_MAX_TASKS \<le> i" by (cases t) force+
      then show ?thesis using t False assms by (auto simp: pool_bounded_def unlisted_def)
    qed
  qed
  have L: "lists_wf ?L boot_view" by (rule init_kernel_lists_wf[OF no_lists_wf]) (rule c)
  have cL: "cont ?L j = None" if "\<not> is_sentinel j" for j using that c[OF that] by (simp add: init_list_cont)
  let ?s = "rtos_system_init s"
  have fold2: "fold (\<lambda>p. init_kernel_list (ReadyL p)) [0..<ARTOS_PRIORITY_COUNT] u =
      init_kernel_list (ReadyL 1) (init_kernel_list (ReadyL 0) u)" for u :: "'a kernel_scheme"
    by (simp add: ARTOS_PRIORITY_COUNT_def upt_rec numeral_2_eq_2)
  have F: "lists ?s = ?L" "tcbs ?s = (\<lambda>t. if t \<in> ?P then zero_tcb else ((tcbs s)(IdleTask := ?T)) t)"
    "tsk_cnt ?s = 0" "cur_task ?s = None" "ticks ?s = 0" "ready_bitmap ?s = 0"
    "cur_delayed ?s = DelayedL" "next_delayed ?s = DelayedOverflowL"
    unfolding rtos_system_init_def Let_def f fold_zero_pool_slot fold2 by (simp_all add: init_kernel_list_def cong: if_cong)
  have e: "boot_view l = Some xs \<Longrightarrow> xs = []" for l xs by (auto simp: boot_view_def split: list_ref.splits if_splits)
  have "kernel_lists boot_view" by (auto simp: kernel_lists_def boot_view_def)
  moreover have "order_ok (val (lists ?s)) boot_view" unfolding order_ok_def using e by fastforce
  moreover have "bitmap_ok ?s boot_view" using e F(6) by (auto simp: bitmap_ok_def)
  moreover have "tick_ok ?s boot_view" using F(7,8) by (simp add: tick_ok_def boot_view_def)
  moreover have "delayed_ptrs_ok ?s" "pool_ok ?s" "idle_ok ?s" "cur_ok ?s" "\<And>t. \<not> user_task ?s t"
    using F by (auto simp: delayed_ptrs_ok_def pool_ok_def idle_ok_def cur_ok_def user_task_def zero_tcb_def fresh_tcb_def)
  moreover have "unlisted ?s t" for t using cL F(1) by (simp add: unlisted_def)
  ultimately show ?thesis using L F by (auto simp: kinv_def)
qed


text \<open>
  \<open>rtos_system_init\<close> establishes the invariant from any memory contents: all lists empty, no
  task, tick 0, the idle task ready to be switched to at priority 0.
\<close>

theorem system_init_establishes_inv:
  assumes "pool_bounded s"
  shows "kinv (rtos_system_init s) boot_view \<and> tick_ok (rtos_system_init s) boot_view \<and>
         cur_task (rtos_system_init s) = None \<and> ticks (rtos_system_init s) = 0 \<and> tsk_cnt (rtos_system_init s) = 0 \<and>
         tcbs (rtos_system_init s) IdleTask = fresh_tcb (idle_task_addr s) 0 (idle_task_stack_addr s) ARTOS_MIN_STACK_WORDS 0"
  using system_init_kinv[OF assms] .

end
