(* ===== verification/Kernel_API.thy ===== *)
theory Kernel_API
  imports Tasks_Create
begin

unbundle bit_operations_syntax

text \<open>
  The public task API, \<open>src/rtos/rtos.c\<close>: start-up, yielding, and relative and absolute delays.
\<close>

section \<open>Operations\<close>

definition ARTOS_MS_TO_TICKS :: "u32 \<Rightarrow> u32" where
  "ARTOS_MS_TO_TICKS ms = ucast ((ucast ms :: 64 word) * ucast ARTOS_TICK_HZ div 1000)"

definition artos_init :: "'z kernel_scheme \<Rightarrow> 'z kernel_scheme" where
  "artos_init s = rtos_system_init s"

text \<open>\<open>None\<close>: the call does not return, the first task runs.\<close>

definition artos_start :: "(u32 \<Rightarrow> u8) \<Rightarrow> 'z kernel_scheme \<Rightarrow> (artos_status option \<times> 'z kernel_scheme, 'z) kres" where
  "artos_start clz s =
     res_bind (rtos_scheduler_start clz s) (\<lambda>(first_task, s).
       case first_task of
         None \<Rightarrow> Ret (Some ARTOS_ERROR_NO_TASKS, s)
       | Some t \<Rightarrow> Ret (None, rtos_port_start_first_task (stack_pointer (tcbs s t)) s))"

definition artos_yield :: "'z kernel_scheme \<Rightarrow> 'z kernel_scheme" where
  "artos_yield s = rtos_port_request_context_switch s"

definition artos_yield_from_isr :: "'z kernel_scheme \<Rightarrow> 'z kernel_scheme" where
  "artos_yield_from_isr s = rtos_port_request_context_switch_from_isr s"

definition artos_wait :: "u32 \<Rightarrow> 'z kproc" where
  "artos_wait tick_count s =
     res_bind
       (if tick_count > 0 then
          (let (prev_state, s) = rtos_port_enter_critical s in
           res_bind (rtos_block_current_task
               (if tick_count = ARTOS_DELAY_INFINITY then ARTOS_DELAY_INFINITY else rtos_current_tick s + tick_count)
               None (tick_count = ARTOS_DELAY_INFINITY) s) (\<lambda>s.
           Ret (rtos_port_exit_critical prev_state s)))
        else Ret s) (\<lambda>s.
     Ret (rtos_port_request_context_switch s))"

definition artos_get_tick :: "'z kernel_scheme \<Rightarrow> u32" where
  "artos_get_tick s = rtos_current_tick s"

definition artos_wait_until :: "u32 \<Rightarrow> 'z kproc" where
  "artos_wait_until wake_tick s =
     (let (prev_state, s) = rtos_port_enter_critical s;
          delta = wake_tick - rtos_current_tick s
      in res_bind (if delta \<noteq> 0 \<and> delta < 0x80000000
                   then rtos_block_current_task wake_tick None False s else Ret s) (\<lambda>s.
         let s = rtos_port_exit_critical prev_state s
         in Ret (rtos_port_request_context_switch s)))"

section \<open>Delays\<close>

text \<open>The task that calls a task-level service: the current one, in no list.\<close>

definition running :: "'z kernel_scheme \<Rightarrow> tcb_ref \<Rightarrow> bool" where
  "running s t \<longleftrightarrow> cur_task s = Some t \<and> user_task s t \<and> cont (lists s) (StateItem t) = None"

text \<open>Task \<open>t\<close> sleeps until tick \<open>w\<close>, waiting for the object with wait list \<open>obj\<close>, if any.\<close>

definition sleeping :: "'z kernel_scheme \<Rightarrow> tcb_ref \<Rightarrow> u32 \<Rightarrow> list_ref option \<Rightarrow> bool" where
  "sleeping s t w obj \<longleftrightarrow> cont (lists s) (StateItem t) \<in> {Some DelayedL, Some DelayedOverflowL} \<and>
     val (lists s) (StateItem t) = w \<and> cont (lists s) (EventItem t) = obj"

lemma kinv_block_target:
  "kinv s C \<Longrightarrow> block_target w False s \<in> {DelayedL, DelayedOverflowL}"
  by (auto simp: block_target_def kinv_def delayed_ptrs_ok_def)

lemma block_delay:
  assumes "kinv s C" "tick_ok s C" "running s t" "forever \<or> w \<noteq> ticks s"
  shows "\<exists>m C'. rtos_block_current_task w None forever s = Ret (s\<lparr>lists := m\<rparr>) \<and>
           kinv (s\<lparr>lists := m\<rparr>) C' \<and> tick_ok (s\<lparr>lists := m\<rparr>) C' \<and> (\<forall>l. is_wait_list l \<longrightarrow> C' l = C l) \<and> keeps_tasks {} s (s\<lparr>lists := m\<rparr>) \<and> ready_grows C C' \<and>
           (if forever then cont m (StateItem t) = Some SuspendL else sleeping (s\<lparr>lists := m\<rparr>) t w None)"
proof -
  have t: "cur_task s = Some t" "user_task s t" "cont (lists s) (StateItem t) = None" using assms(3) by (auto simp: running_def)
  have wt: "waitable None C" by (simp add: waitable_def)
  obtain m C' where b: "rtos_block_current_task w None forever s = Ret (s\<lparr>lists := m\<rparr>)" "blocks_to t w None forever s C m C'"
    using block_runs[OF assms(1) t wt] by blast
  moreover have "kinv (s\<lparr>lists := m\<rparr>) C'" by (rule blocks_to_kinv[OF assms(1) t(2,3) wt b(2)])
  moreover have "tick_ok (s\<lparr>lists := m\<rparr>) C'" by (rule blocks_to_tick_ok[OF assms(1,2) t(3) wt b(2) assms(4)])
  moreover have "if forever then cont m (StateItem t) = Some SuspendL else sleeping (s\<lparr>lists := m\<rparr>) t w None"
    using b(2) kinv_block_target[OF assms(1), of w] by (auto simp: blocks_to_def sleeping_def block_target_def)
  moreover have "keeps_tasks {} s (s\<lparr>lists := m\<rparr>)"
    using b(2) t(3) by (intro keeps_tasksI[of _ _ t]) (auto simp: blocks_to_def rests_def stays_def blocked_list_def)
  moreover have "\<forall>l. is_wait_list l \<longrightarrow> C' l = C l"
    using b(2) kinv_block_target[OF assms(1), of w] by (cases forever) (auto simp: blocks_to_def block_target_def)
  moreover have "ready_grows C C'" using blocks_to_ready[OF assms(1) b(2)] by (intro ready_grows_same) simp
  ultimately show ?thesis by blast
qed

lemma block_critical:
  assumes "kinv s C" "tick_ok s C" "running s t" "forever \<or> w \<noteq> ticks s"
  shows "\<exists>s' C'. rtos_block_current_task w None forever (s\<lparr>primask := 1\<rparr>) = Ret s' \<and> kinv s' C' \<and> tick_ok s' C' \<and>
           tcbs s' = tcbs s \<and> ticks s' = ticks s \<and> cur_task s' = cur_task s \<and> quiet s C s' C' \<and> keeps_tasks {} s s' \<and> ready_grows C C' \<and>
           (if forever then cont (lists s') (StateItem t) = Some SuspendL else sleeping s' t w None)"
proof -
  have "kinv (s\<lparr>primask := 1\<rparr>) C" "tick_ok (s\<lparr>primask := 1\<rparr>) C" "running (s\<lparr>primask := 1\<rparr>) t"
      "forever \<or> w \<noteq> ticks (s\<lparr>primask := 1\<rparr>)"
    using assms by (simp_all add: running_def user_task_def)
  then obtain m C' where "rtos_block_current_task w None forever (s\<lparr>primask := 1\<rparr>) = Ret (s\<lparr>primask := 1, lists := m\<rparr>)"
      "kinv (s\<lparr>primask := 1, lists := m\<rparr>) C'" "tick_ok (s\<lparr>primask := 1, lists := m\<rparr>) C'"
      "\<forall>l. is_wait_list l \<longrightarrow> C' l = C l" "keeps_tasks {} s (s\<lparr>primask := 1, lists := m\<rparr>)" "ready_grows C C'"
      "if forever then cont m (StateItem t) = Some SuspendL else sleeping (s\<lparr>primask := 1, lists := m\<rparr>) t w None"
    using block_delay[of "s\<lparr>primask := 1\<rparr>" C t forever w] unfolding keeps_tasks_port by blast
  then show ?thesis by (intro exI[of _ "s\<lparr>primask := 1, lists := m\<rparr>"] exI[of _ C']) (simp add: quiet_def)
qed

lemma sleeping_port [simp]:
  "sleeping (rtos_port_exit_critical p s) t w obj = sleeping s t w obj"
  "sleeping (rtos_port_request_context_switch s) t w obj = sleeping s t w obj"
  by (simp_all add: sleeping_def)

text \<open>What \<open>artos_wait\<close> and \<open>artos_wait_until\<close> leave behind.\<close>

definition waits :: "'z kernel_scheme \<Rightarrow> 'z kernel_scheme \<Rightarrow> bool" where
  "waits s s' \<longleftrightarrow> tcbs s' = tcbs s \<and> ticks s' = ticks s \<and> cur_task s' = cur_task s \<and> pendsv s' \<and> primask s' = primask s"

lemma quiet_port [simp]:
  "quiet s C (rtos_port_exit_critical p s') C' = quiet s C s' C'"
  "quiet s C (rtos_port_request_context_switch s') C' = quiet s C s' C'" "quiet s C s C" "quiet s C (s\<lparr>primask := p\<rparr>) C"
  by (simp_all add: quiet_def)

lemma wait_runs:
  assumes "kinv s C" "tick_ok s C" "running s t"
  shows "\<exists>s' C'. artos_wait n s = Ret s' \<and> kinv s' C' \<and> tick_ok s' C' \<and> waits s s' \<and> quiet s C s' C' \<and> keeps_tasks {} s s' \<and> ready_grows C C' \<and>
           (if n = 0 then lists s' = lists s \<and> C' = C
            else if n = ARTOS_DELAY_INFINITY then cont (lists s') (StateItem t) = Some SuspendL
            else sleeping s' t (ticks s + n) None)"
proof (cases "n = 0")
  case True
  then show ?thesis using assms(1,2)
    by (intro exI[of _ "rtos_port_request_context_switch s"] exI[of _ C]) (simp add: artos_wait_def waits_def)
next
  case False
  let ?inf = "n = ARTOS_DELAY_INFINITY" let ?w = "if ?inf then ARTOS_DELAY_INFINITY else ticks s + n"
  have "?inf \<or> ?w \<noteq> ticks s" using False by simp
  from block_critical[OF assms this] obtain s1 C' where
    s1: "rtos_block_current_task ?w None ?inf (s\<lparr>primask := 1\<rparr>) = Ret s1" "kinv s1 C'" "tick_ok s1 C'" "tcbs s1 = tcbs s"
      "ticks s1 = ticks s" "cur_task s1 = cur_task s" "quiet s C s1 C'" "keeps_tasks {} s s1" "ready_grows C C'"
      "if ?inf then cont (lists s1) (StateItem t) = Some SuspendL else sleeping s1 t ?w None"
    by blast
  let ?s' = "rtos_port_request_context_switch (rtos_port_exit_critical (primask s) s1)"
  have "artos_wait n s = Ret ?s'"
    using False s1(1) by (cases ?inf) (simp_all add: artos_wait_def rtos_port_enter_critical_def rtos_current_tick_def word_neq_0_conv)
  then show ?thesis using s1(2-) False
    by (intro exI[of _ ?s'] exI[of _ C']) (cases ?inf; simp add: waits_def)
qed

text \<open>
  \<open>artos_wait\<close>, called by the running task: no assertion fails, the invariant is kept, the interrupt
  mask is restored and a context switch is requested. Zero ticks touch no list, the infinite delay
  suspends the task, and any other delay puts it to sleep until the tick counter (modulo \<open>2 ^ 32\<close>)
  reaches the current tick plus the delay.
\<close>

theorem wait_correct:
  assumes "kinv s C" "tick_ok s C" "running s t"
  shows "\<exists>s' C'. artos_wait n s = Ret s' \<and> kinv s' C' \<and> tick_ok s' C' \<and> waits s s' \<and>
           (if n = 0 then lists s' = lists s \<and> C' = C
            else if n = ARTOS_DELAY_INFINITY then cont (lists s') (StateItem t) = Some SuspendL
            else sleeping s' t (ticks s + n) None)"
  using wait_runs[OF assms, of n] by blast

lemma wait_until_runs:
  assumes "kinv s C" "tick_ok s C" "running s t"
  shows "\<exists>s' C'. artos_wait_until w s = Ret s' \<and> kinv s' C' \<and> tick_ok s' C' \<and> waits s s' \<and> quiet s C s' C' \<and> keeps_tasks {} s s' \<and> ready_grows C C' \<and>
           (if 1 \<le> unat (w - ticks s) \<and> unat (w - ticks s) \<le> 0x7fffffff then sleeping s' t w None
            else lists s' = lists s \<and> C' = C)"
proof -
  let ?d = "w - ticks s"
  have d: "1 \<le> unat ?d \<and> unat ?d \<le> 0x7fffffff \<longleftrightarrow> ?d \<noteq> 0 \<and> ?d < 0x80000000"
    using unat_gt_0[of ?d] by (auto simp: word_less_nat_alt simp del: right_minus_eq eq_iff_diff_eq_0)
  show ?thesis
  proof (cases "?d \<noteq> 0 \<and> ?d < 0x80000000")
    case True
    then have "False \<or> w \<noteq> ticks s" by simp
    from block_critical[OF assms this] obtain s1 C' where
      s1: "rtos_block_current_task w None False (s\<lparr>primask := 1\<rparr>) = Ret s1" "kinv s1 C'" "tick_ok s1 C'" "tcbs s1 = tcbs s"
        "ticks s1 = ticks s" "cur_task s1 = cur_task s" "quiet s C s1 C'" "keeps_tasks {} s s1" "ready_grows C C'" "sleeping s1 t w None"
      by auto
    let ?s' = "rtos_port_request_context_switch (rtos_port_exit_critical (primask s) s1)"
    have "artos_wait_until w s = Ret ?s'"
      using True s1(1) by (simp add: artos_wait_until_def rtos_port_enter_critical_def rtos_current_tick_def Let_def)
    then show ?thesis unfolding d using s1(2-) True by (intro exI[of _ ?s'] exI[of _ C']) (simp add: waits_def)
  next
    case False
    let ?s' = "rtos_port_request_context_switch (rtos_port_exit_critical (primask s) (s\<lparr>primask := 1\<rparr>))"
    have "artos_wait_until w s = Ret ?s'"
      using False by (auto simp: artos_wait_until_def rtos_port_enter_critical_def rtos_current_tick_def Let_def)
    then show ?thesis unfolding d using assms(1,2) False
      by (intro exI[of _ ?s'] exI[of _ C]) (auto simp: waits_def rtos_port_exit_critical_def)
  qed
qed

text \<open>
  \<open>artos_wait_until\<close>: a wake tick 1 to \<open>0x7fffffff\<close> ticks ahead (modulo \<open>2 ^ 32\<close>) puts the running
  task to sleep until exactly that tick; any other value counts as past and does not block. In both
  cases a context switch is requested, the invariant is kept and the interrupt mask restored.
\<close>

theorem wait_until_correct:
  assumes "kinv s C" "tick_ok s C" "running s t"
  shows "\<exists>s' C'. artos_wait_until w s = Ret s' \<and> kinv s' C' \<and> tick_ok s' C' \<and> waits s s' \<and>
           (if 1 \<le> unat (w - ticks s) \<and> unat (w - ticks s) \<le> 0x7fffffff then sleeping s' t w None
            else lists s' = lists s \<and> C' = C)"
  using wait_until_runs[OF assms, of w] by blast

section \<open>Exact wake-up\<close>

fun ticks_run :: "nat \<Rightarrow> 'z kproc" where
  "ticks_run 0 s = Ret s"
| "ticks_run (Suc k) s = res_bind (ticks_run k s) rtos_tick_handler"

lemma of_nat_add_eq_iff:
  assumes "k < unat (n :: u32)"
  shows "w + of_nat k + 1 = w + n \<longleftrightarrow> Suc k = unat n"
proof -
  have "w + of_nat k + 1 = w + n \<longleftrightarrow> (of_nat (Suc k) :: u32) = n" by (auto simp: add.assoc add.commute)
  also have "\<dots> \<longleftrightarrow> Suc k = unat n"
  proof -
    have "unat n < 2 ^ 32" by (rule order_less_le_trans[OF unsigned_less]) simp
    then have "unat (of_nat (Suc k) :: u32) = Suc k" using assms unfolding unat_of_nat by (intro mod_less) simp
    then show ?thesis unfolding word_unat_eq_iff by simp
  qed
  finally show ?thesis .
qed

lemma ticks_run_sleeping:
  assumes "kinv s C" "tick_ok s C" "sleeping s t (ticks s + n) obj" "k < unat n"
  shows "\<exists>s' C'. ticks_run k s = Ret s' \<and> kinv s' C' \<and> tick_ok s' C' \<and> ticks s' = ticks s + of_nat k \<and>
           sleeping s' t (ticks s + n) obj \<and> tcbs s' t = tcbs s t"
  using assms(4)
proof (induction k)
  case 0
  then show ?case using assms(1-3) by auto
next
  case (Suc k)
  then obtain s1 C1 where 1: "ticks_run k s = Ret s1" "kinv s1 C1" "tick_ok s1 C1" "ticks s1 = ticks s + of_nat k"
      "sleeping s1 t (ticks s + n) obj" "tcbs s1 t = tcbs s t" by auto
  have nd: "\<not> due s1 t" using of_nat_add_eq_iff[of k n "ticks s"] Suc(2) 1(4,5) by (auto simp: due_def sleeping_def)
  obtain s' C' where 2: "rtos_tick_handler s1 = Ret s'" "kinv s' C'" "tick_ok s' C'" "\<forall>j. val (lists s') j = val (lists s1) j"
     "ticks s' = ticks s1 + 1"
     "if due s1 t
      then cont (lists s') (StateItem t) = Some (ReadyL (unat (effective_priority (tcbs s1 t)))) \<and>
           cont (lists s') (EventItem t) = None \<and> tcbs s' t = (tcbs s1 t)\<lparr>wait_reason := WAIT_TIMED_OUT\<rparr>
      else cont (lists s') (StateItem t) = cont (lists s1) (StateItem t) \<and>
           cont (lists s') (EventItem t) = cont (lists s1) (EventItem t) \<and> tcbs s' t = tcbs s1 t"
    using tick_handler_runs[OF 1(2,3)] by blast
  then show ?case using 1 nd by (intro exI[of _ s'] exI[of _ C']) (simp add: sleeping_def ac_simps)
qed

text \<open>
  A delay ends after exactly as many ticks as were asked for. After \<open>artos_wait n\<close> the task still
  sleeps after every number of ticks below \<open>n\<close>, and the \<open>n\<close>-th tick makes it ready, at its
  effective priority and marked as timed out; also when the tick counter wraps in between. The tick
  handlers all return.
\<close>

theorem wait_wakes_exactly:
  assumes "kinv s C" "tick_ok s C" "running s t" "n \<noteq> 0" "n \<noteq> ARTOS_DELAY_INFINITY" "k \<le> unat n"
  shows "\<exists>s1 s'. artos_wait n s = Ret s1 \<and> ticks_run k s1 = Ret s' \<and> ticks s' = ticks s + of_nat k \<and>
           (if k < unat n then sleeping s' t (ticks s + n) None
            else cont (lists s') (StateItem t) = Some (ReadyL (unat (effective_priority (tcbs s t)))) \<and>
                 wait_reason (tcbs s' t) = WAIT_TIMED_OUT)"
proof -
  obtain s1 C1 where 1: "artos_wait n s = Ret s1" "kinv s1 C1" "tick_ok s1 C1" "waits s s1" "sleeping s1 t (ticks s1 + n) None"
    using wait_runs[OF assms(1-3), of n] assms(4,5) by (auto simp: waits_def)
  have f: "ticks s1 = ticks s" "tcbs s1 = tcbs s" using 1(4) by (auto simp: waits_def)
  show ?thesis
  proof (cases "k < unat n")
    case True
    then show ?thesis using ticks_run_sleeping[OF 1(2,3,5) True] 1(1) f by auto
  next
    case False
    then obtain j where j: "k = Suc j" "Suc j = unat n" using assms(4,6) by (cases k) (auto simp: unat_eq_zero)
    then obtain s2 C2 where 2: "ticks_run j s1 = Ret s2" "kinv s2 C2" "tick_ok s2 C2" "ticks s2 = ticks s + of_nat j"
        "sleeping s2 t (ticks s + n) None" "tcbs s2 t = tcbs s t"
      using ticks_run_sleeping[OF 1(2,3,5), of j] f by auto
    have d: "due s2 t" using of_nat_add_eq_iff[of j n "ticks s"] j 2(4,5) by (auto simp: due_def sleeping_def)
    obtain s' where "rtos_tick_handler s2 = Ret s'" "ticks s' = ticks s2 + 1"
       "if due s2 t
        then cont (lists s') (StateItem t) = Some (ReadyL (unat (effective_priority (tcbs s2 t)))) \<and>
             cont (lists s') (EventItem t) = None \<and> tcbs s' t = (tcbs s2 t)\<lparr>wait_reason := WAIT_TIMED_OUT\<rparr>
        else cont (lists s') (StateItem t) = cont (lists s2) (StateItem t) \<and>
             cont (lists s') (EventItem t) = cont (lists s2) (EventItem t) \<and> tcbs s' t = tcbs s2 t"
      using tick_handler_runs[OF 2(2,3)] by blast
    moreover have "\<not> Suc j < unat n" using j(2) by simp
    ultimately have "ticks_run k s1 = Ret s' \<and> ticks s' = ticks s + of_nat k \<and>
        (if k < unat n then sleeping s' t (ticks s + n) None
         else cont (lists s') (StateItem t) = Some (ReadyL (unat (effective_priority (tcbs s t)))) \<and>
              wait_reason (tcbs s' t) = WAIT_TIMED_OUT)"
      using 2(1,4,6) d unfolding j(1) by (simp add: ac_simps)
    then show ?thesis using 1(1) by blast
  qed
qed

section \<open>Starting\<close>

lemma start_first_task_fields [simp]:
  "lists (rtos_port_start_first_task sp s) = lists s" "tcbs (rtos_port_start_first_task sp s) = tcbs s"
  "tsk_cnt (rtos_port_start_first_task sp s) = tsk_cnt s" "cur_task (rtos_port_start_first_task sp s) = cur_task s"
  "ticks (rtos_port_start_first_task sp s) = ticks s" "ready_bitmap (rtos_port_start_first_task sp s) = ready_bitmap s"
  "cur_delayed (rtos_port_start_first_task sp s) = cur_delayed s" "next_delayed (rtos_port_start_first_task sp s) = next_delayed s"
  "primask (rtos_port_start_first_task sp s) = 0" "psp (rtos_port_start_first_task sp s) = sp"
  "systick_ctrl (rtos_port_start_first_task sp s) = 7" "systick_load (rtos_port_start_first_task sp s) = 15999"
  "kernel.more (rtos_port_start_first_task sp s) = kernel.more s"
  by (simp_all add: rtos_port_start_first_task_def rtos_port_tick_init_def ARTOS_CPU_CLOCK_HZ_def ARTOS_TICK_HZ_def)

lemma start_runs:
  assumes "kinv s C" "tick_ok s C" "clz_spec clz" "cur_task s = None"
  shows "if none_ready C then artos_start clz s = Ret (Some ARTOS_ERROR_NO_TASKS, s)
         else \<exists>n s' C'. artos_start clz s = Ret (None, s') \<and> kinv s' C' \<and> tick_ok s' C' \<and> scheduled C n C' \<and> quiet s C s' C' \<and> undisturbed {} s s' \<and> cur_task s' = Some n \<and>
                (\<forall>u. cont (lists s') (StateItem u) = None \<longrightarrow> u = n \<or> cont (lists s) (StateItem u) = None) \<and>
                running s' n \<and> psp s' = stack_pointer (tcbs s n) \<and> primask s' = 0 \<and>
                systick_ctrl s' = 7 \<and> systick_load s' + 1 = ARTOS_CPU_CLOCK_HZ div ARTOS_TICK_HZ"
proof (cases "none_ready C")
  case True
  then have "rtos_scheduler_start clz s = Ret (None, s)" using assms bitmap_zero_iff[of s C]
    by (simp add: rtos_scheduler_start_def rtos_scheduler_select_next_def kinv_def)
  then show ?thesis using True by (simp add: artos_start_def)
next
  case False
  obtain n s1 C' where 1: "rtos_scheduler_start clz s = Ret (Some n, s1)" "kinv s1 C'" "tick_ok s1 C'" "cur_task s1 = Some n"
      "user_task s n" "cont (lists s1) (StateItem n) = None" "tcbs s1 = tcbs s" "tsk_cnt s1 = tsk_cnt s" "scheduled C n C'" "quiet s C s1 C'"
      "\<forall>u. cont (lists s1) (StateItem u) = None \<longrightarrow> u = n \<or> cont (lists s) (StateItem u) = None" "undisturbed {} s s1"
    using scheduler_start_runs[OF assms False] by blast
  let ?s' = "rtos_port_start_first_task (stack_pointer (tcbs s n)) s1"
  have "kinv ?s' C'" using 1(2) by (subst kinv_cong[of _ s1]) simp_all
  moreover have "tick_ok ?s' C'" using 1(3) by (simp add: tick_ok_def)
  moreover have "running ?s' n" using 1 by (simp add: running_def user_task_def)
  moreover have "artos_start clz s = Ret (None, ?s')" using 1(1,7) by (simp add: artos_start_def)
  moreover have "systick_load ?s' + 1 = ARTOS_CPU_CLOCK_HZ div ARTOS_TICK_HZ"
    by (simp add: ARTOS_CPU_CLOCK_HZ_def ARTOS_TICK_HZ_def)
  moreover have "quiet s C ?s' C'" using 1(10) by (simp add: quiet_def)
  moreover have "undisturbed {} s ?s'" using 1(12) by (simp add: undisturbed_def user_task_def)
  ultimately show ?thesis using False 1(4,9,11)
    by (simp only: if_False) (rule exI[of _ n], rule exI[of _ ?s'], rule exI[of _ C'], simp)
qed

text \<open>
  \<^bold>\<open>C27.\<close> \<open>artos_start\<close>: with no task created it returns \<open>ARTOS_ERROR_NO_TASKS\<close> and changes nothing. Otherwise it does
  not return: the first task of the highest non-empty ready list is the running task, the process stack pointer
  holds its saved stack pointer, interrupts are enabled and SysTick counts 16000 clock cycles per tick;
  the invariant holds.
\<close>

theorem start_correct:
  assumes "kinv s C" "tick_ok s C" "clz_spec clz" "cur_task s = None"
  shows "if none_ready C then artos_start clz s = Ret (Some ARTOS_ERROR_NO_TASKS, s)
         else \<exists>n s' C'. artos_start clz s = Ret (None, s') \<and> kinv s' C' \<and> tick_ok s' C' \<and> scheduled C n C' \<and>
                running s' n \<and> psp s' = stack_pointer (tcbs s n) \<and> primask s' = 0 \<and>
                systick_ctrl s' = 7 \<and> systick_load s' + 1 = ARTOS_CPU_CLOCK_HZ div ARTOS_TICK_HZ"
proof (cases "none_ready C")
  case True
  then show ?thesis using start_runs[OF assms] by simp
next
  case False
  then show ?thesis using start_runs[OF assms] unfolding if_not_P[OF False] by blast
qed

text \<open>
  \<open>ARTOS_MS_TO_TICKS\<close> is the identity at 1000 ticks per second: the 64-bit product does not
  overflow for any 32-bit argument.
\<close>

theorem ms_to_ticks_exact: "ARTOS_MS_TO_TICKS ms = ms"
proof -
  let ?m = "ucast ms :: 64 word"
  have m: "unat ?m = unat ms" by (simp add: unsigned_ucast_eq take_bit_nat_eq_self order_less_le_trans[OF unsigned_less])
  have lt: "unat ms < 2 ^ 32" by (rule order_less_le_trans[OF unsigned_less]) simp
  have p: "unat (?m * 1000) = unat ms * 1000"
    using lt m by (subst unat_mult_lem[THEN iffD1]) simp_all
  have "unat (?m * 1000 div 1000) = unat ms" using p by (simp add: unat_div)
  then have "?m * 1000 div 1000 = ?m" using m by (simp add: word_unat_eq_iff)
  moreover have "(ucast ?m :: u32) = ms" by (rule bit_word_eqI) (simp add: bit_simps)
  ultimately show ?thesis by (simp add: ARTOS_MS_TO_TICKS_def ARTOS_TICK_HZ_def)
qed

end
