(* ===== verification/Tasks_Prio.thy ===== *)
theory Tasks_Prio
  imports Tasks_Sched
begin

unbundle bit_operations_syntax

text \<open>
  Effective priorities: moving a ready task between ready lists and a waiting task inside its wait
  list, the three operations the mutexes use, the count of held mutexes, and task inspection.
\<close>

section \<open>Effective priorities\<close>

text \<open>The steps of \<open>rtos_set_effective_priority\<close>, each on a consistent kernel.\<close>

lemma remove_event_kinv:
  assumes inv: "kinv s C" and t: "user_task s t" "cont (lists s) (EventItem t) = Some l"
  shows "\<exists>m. rtos_list_remove (Some (EventItem t)) (lists s) = Ret m \<and>
           kinv (s\<lparr>lists := m\<rparr>) (C(l \<mapsto> remove1 (EventItem t) (the (C l)))) \<and> same_data (lists s) m \<and>
           (\<forall>j. \<not> is_sentinel j \<longrightarrow> cont m j = (if j = EventItem t then None else cont (lists s) j))"
proof -
  have w: "is_wait_list l" using kinv_task[OF inv t(1)] t(2) by (simp add: task_ok_def)
  obtain xs where x: "C l = Some xs" "EventItem t \<in> set xs"
    using rl.member[OF kinv_wf[OF inv], of "EventItem t" l] t(2) by auto
  let ?C = "C(l \<mapsto> remove1 (EventItem t) xs)"
  obtain m where m: "rtos_list_remove (Some (EventItem t)) (lists s) = Ret m" "lists_wf m ?C" "same_data (lists s) m"
     "\<And>j. \<not> is_sentinel j \<Longrightarrow> cont m j = (if j = EventItem t then None else cont (lists s) j)"
    using remove_take_out[OF kinv_wf[OF inv] _ t(2) kinv_short[OF inv]] take_out_upd[OF kinv_wf[OF inv] x] by auto
  let ?s = "s\<lparr>lists := m\<rparr>"
  have "order_ok (val m) ?C"
    using inv x w unfolding order_ok_same_data[OF m(3)] kinv_def
    by (intro order_ok_upd) (auto simp: order_ok_def intro: desc_remove1)
  moreover have "kernel_lists ?C" using inv x by (intro kernel_lists_upd) (simp_all add: kinv_def)
  moreover have "bitmap_ok ?s ?C" using inv w by (auto simp: bitmap_ok_def kinv_def)
  moreover have "if user_task s u then task_ok ?s u else unlisted ?s u" for u
  proof (rule tasks_frame[OF inv t(1)])
    show "task_ok ?s t" using kinv_task[OF inv t(1)] m(3,4) by (auto simp: task_ok_def same_data_def)
  qed (use m(3,4) in \<open>auto simp: same_data_def\<close>)
  ultimately have "kinv ?s ?C"
    using inv m(2) unfolding kinv_def
    by (auto simp: pool_ok_def idle_ok_def cur_ok_def delayed_ptrs_ok_def user_task_def)
  then show ?thesis using m x by auto
qed

text \<open>A task that is in no ready list and waits for nothing may change its priority.\<close>

lemma set_priority_kinv:
  assumes inv: "kinv s C" and t: "user_task s t" "cont (lists s) (EventItem t) = None"
      "cont (lists s) (StateItem t) = None \<or> blocked_list (cont (lists s) (StateItem t))"
    and p: "unat p < ARTOS_PRIORITY_COUNT" "priority (tcbs s t) \<le> p"
  shows "kinv (upd_tcb t (\<lambda>x. x\<lparr>effective_priority := p\<rparr>) s) C"
proof -
  let ?s = "upd_tcb t (\<lambda>x. x\<lparr>effective_priority := p\<rparr>) s"
  have "if user_task s u then task_ok ?s u else unlisted ?s u" for u
  proof (rule tasks_frame[OF inv t(1)])
    show "task_ok ?s t" using kinv_task[OF inv t(1)] t p by (auto simp: task_ok_def)
  qed auto
  moreover have "t \<noteq> IdleTask" using t(1) by (auto simp: user_task_def)
  ultimately show ?thesis using inv
    by (auto simp: kinv_def bitmap_ok_def pool_ok_def idle_ok_def cur_ok_def delayed_ptrs_ok_def user_task_def)
qed

lemma insert_event_kinv:
  assumes inv: "kinv s C" and t: "user_task s t" "cont (lists s) (EventItem t) = None"
      "blocked_list (cont (lists s) (StateItem t))"
    and l: "is_wait_list l" "C l = Some xs" and v: "v = ucast (effective_priority (tcbs s t))"
  shows "\<exists>m. rtos_list_insert_reversed_sorted (Some l) (Some (EventItem t)) (set_value (EventItem t) v (lists s)) = Ret m \<and>
           kinv (s\<lparr>lists := m\<rparr>) (C(l \<mapsto> ins_reversed (\<lambda>j. val m j) (EventItem t) xs)) \<and>
           same_data (set_value (EventItem t) v (lists s)) m \<and>
           (\<forall>j. \<not> is_sentinel j \<longrightarrow> cont m j = (if j = EventItem t then Some l else cont (lists s) j))"
proof -
  let ?m0 = "set_value (EventItem t) v (lists s)"
  have ok: "own (lists s) (EventItem t) = Some t" using kinv_task[OF inv t(1)] by (simp add: task_ok_def)
  have o: "order_ok (val ?m0) C" using inv t(2) by (intro order_ok_set_value) (auto simp: kinv_def)
  have w: "lists_wf ?m0 C" using inv by (simp add: kinv_def)
  obtain m where m: "rtos_list_insert_reversed_sorted (Some l) (Some (EventItem t)) ?m0 = Ret m"
      "lists_wf m (C(l \<mapsto> ins_reversed (val ?m0) (EventItem t) xs))" "same_data ?m0 m"
      "order_ok (val m) (C(l \<mapsto> ins_reversed (val ?m0) (EventItem t) xs))"
      "\<And>j. \<not> is_sentinel j \<Longrightarrow> cont m j = (if j = EventItem t then Some l else cont (lists s) j)"
    using event_insert_law[OF w l(2) o l(1), of "EventItem t"] t(2) ok by auto
  have eq: "ins_reversed (val ?m0) (EventItem t) xs = ins_reversed (\<lambda>j. val m j) (EventItem t) xs"
    using m(3) by (intro ins_reversed_cong) (auto simp: same_data_def)
  let ?s = "s\<lparr>lists := m\<rparr>" and ?C = "C(l \<mapsto> ins_reversed (\<lambda>j. val m j) (EventItem t) xs)"
  have "kernel_lists ?C" using inv l by (intro kernel_lists_upd) (simp_all add: kinv_def)
  moreover have "bitmap_ok ?s ?C" using inv l by (auto simp: bitmap_ok_def kinv_def)
  moreover have "if user_task s u then task_ok ?s u else unlisted ?s u" for u
  proof (rule tasks_frame[OF inv t(1)])
    show "task_ok ?s t" using kinv_task[OF inv t(1)] m(3,5) t l v by (auto simp: task_ok_def same_data_def)
  qed (use m(3,5) in \<open>auto simp: same_data_def\<close>)
  ultimately have "kinv ?s ?C"
    using inv m(2,4)[unfolded eq] unfolding kinv_def
    by (auto simp: pool_ok_def idle_ok_def cur_ok_def delayed_ptrs_ok_def user_task_def)
  then show ?thesis using m by blast
qed


text \<open>
  What a change of task \<open>t\<close>'s effective priority to \<open>p\<close> does to the lists: a ready task moves to the end of the
  ready list of the new priority, a waiting task is sorted again into the wait list it is in.
\<close>

definition reprio_view :: "tcb_ref \<Rightarrow> u8 \<Rightarrow> 'z kernel_scheme \<Rightarrow> (item_ref \<Rightarrow> u32) \<Rightarrow> list_view \<Rightarrow> list_view" where
  "reprio_view t p s f C =
     (let old = ReadyL (unat (effective_priority (tcbs s t))) in
      if cont (lists s) (StateItem t) = Some old
      then C(old \<mapsto> remove1 (StateItem t) (the (C old)),
             ReadyL (unat p) \<mapsto> the (C (ReadyL (unat p))) @ [StateItem t])
      else case cont (lists s) (EventItem t) of None \<Rightarrow> C
           | Some l \<Rightarrow> C(l \<mapsto> ins_reversed f (EventItem t) (remove1 (EventItem t) (the (C l)))))"

definition reprio_cont :: "tcb_ref \<Rightarrow> u8 \<Rightarrow> 'z kernel_scheme \<Rightarrow> item_ref \<Rightarrow> list_ref option" where
  "reprio_cont t p s j =
     (if j = StateItem t \<and> cont (lists s) j = Some (ReadyL (unat (effective_priority (tcbs s t))))
      then Some (ReadyL (unat p)) else cont (lists s) j)"

definition reprioritised ::
    "tcb_ref \<Rightarrow> u8 \<Rightarrow> 'z kernel_scheme \<Rightarrow> list_view \<Rightarrow> 'z kernel_scheme \<Rightarrow> list_view \<Rightarrow> bool" where
  "reprioritised t p s C s' C' \<longleftrightarrow>
     (\<exists>m b. s' = s\<lparr>lists := m, ready_bitmap := b, tcbs := (tcbs s)(t := (tcbs s t)\<lparr>effective_priority := p\<rparr>)\<rparr> \<and>
        C' = reprio_view t p s (\<lambda>j. val m j) C \<and>
        (\<forall>j. own m j = own (lists s) j \<and>
          (\<not> is_sentinel j \<longrightarrow> cont m j = reprio_cont t p s j \<and>
             (j \<noteq> EventItem t \<longrightarrow> val m j = val (lists s) j))))"

lemma set_priority_guard:
  assumes "kinv s C" "user_task s t" "unat p < ARTOS_PRIORITY_COUNT" "priority (tcbs s t) \<le> p"
  shows "list_all snd [(344, Some t \<noteq> None), (345, unat (priority (tcbs s t)) < ARTOS_PRIORITY_COUNT),
    (346, unat (effective_priority (tcbs s t)) < ARTOS_PRIORITY_COUNT), (347, unat p < ARTOS_PRIORITY_COUNT),
    (348, p \<ge> priority (tcbs s t))]"
  using kinv_task[OF assms(1,2)] assms(3,4) by (auto simp: task_ok_def word_le_nat_alt)

lemma set_priority_ready:
  assumes inv: "kinv s C" and t: "user_task s t" and p: "unat p < ARTOS_PRIORITY_COUNT" "priority (tcbs s t) \<le> p"
      "effective_priority (tcbs s t) \<noteq> p"
    and r: "cont (lists s) (StateItem t) = Some (ReadyL (unat (effective_priority (tcbs s t))))"
  shows "\<exists>s' C'. rtos_set_effective_priority (Some t) p s = Ret (True, s') \<and> kinv s' C' \<and> reprioritised t p s C s' C'"
proof -
  let ?old = "unat (effective_priority (tcbs s t))" and ?S = "StateItem t"
  obtain xs where x: "C (ReadyL ?old) = Some xs" "?S \<in> set xs"
    using rl.member[OF kinv_wf[OF inv], of ?S "ReadyL ?old"] r by auto
  have E: "cont (lists s) (EventItem t) = None"
    using kinv_task[OF inv t] r by (cases "cont (lists s) (EventItem t)") (auto simp: task_ok_def blocked_list_def)
  let ?b = "pop_bitmap ?old (remove1 ?S xs) (ready_bitmap s)" and ?C1 = "C(ReadyL ?old \<mapsto> remove1 ?S xs)"
  obtain m1 where m1: "rtos_list_remove (Some ?S) (lists s) = Ret m1" "counts m1 (ReadyL ?old) = 0 \<longleftrightarrow> remove1 ?S xs = []"
     "kinv (s\<lparr>lists := m1, ready_bitmap := ?b\<rparr>) ?C1" "same_data (lists s) m1"
     "\<And>j. \<not> is_sentinel j \<Longrightarrow> cont m1 j = (if j = ?S then None else cont (lists s) j)"
    using remove_ready_kinv[OF inv t x] by blast
  let ?s1 = "s\<lparr>lists := m1, ready_bitmap := ?b\<rparr>" let ?s2 = "upd_tcb t (\<lambda>x. x\<lparr>effective_priority := p\<rparr>) ?s1"
  have k2: "kinv ?s2 ?C1"
    using set_priority_kinv[OF m1(3), of t p] t p m1(5)[of ?S] m1(5)[of "EventItem t"] E by (simp add: user_task_def)
  have u2: "user_task ?s2 t" "cont (lists ?s2) ?S = None" "unat p = unat (effective_priority (tcbs ?s2 t))"
    using t m1(5)[of ?S] by (simp_all add: user_task_def)
  obtain m where m: "rtos_insert_ready_list (Some t) ?s2 = Ret (?s2\<lparr>lists := m, ready_bitmap := ready_bitmap ?s2 OR push_bit (unat p) 1\<rparr>)"
     "kinv (?s2\<lparr>lists := m, ready_bitmap := ready_bitmap ?s2 OR push_bit (unat p) 1\<rparr>) (append_to (ReadyL (unat p)) ?S ?C1)"
     "same_data (lists ?s2) m"
     "\<And>j. \<not> is_sentinel j \<Longrightarrow> cont m j = (if j = ?S then Some (ReadyL (unat p)) else cont (lists ?s2) j)"
    using insert_ready_kinv[OF k2 u2] by blast
  let ?s' = "?s2\<lparr>lists := m, ready_bitmap := ready_bitmap ?s2 OR push_bit (unat p) 1\<rparr>"
  have "unat p \<noteq> ?old" using p(3) by (simp add: word_unat_eq_iff)
  then have C': "append_to (ReadyL (unat p)) ?S ?C1 = reprio_view t p s (\<lambda>j. val m j) C"
    using r x(1) by (simp add: append_to_def reprio_view_def)
  have "rtos_set_effective_priority (Some t) p s = Ret (True, ?s')"
    using set_priority_guard[OF inv t p(1,2)] p E r m(1) m1(2)
      on_lists_Ret[of "rtos_list_remove (Some ?S)" s, OF m1(1)]
    by (auto simp: rtos_set_effective_priority_def asserts_all Let_def pop_bitmap_def)
  moreover have "reprioritised t p s C ?s' (append_to (ReadyL (unat p)) ?S ?C1)"
    unfolding reprioritised_def C' using m1(4,5) m(3,4) r
    by (intro exI[of _ m] exI[of _ "ready_bitmap ?s2 OR push_bit (unat p) 1"])
       (auto simp: upd_tcb_def same_data_def reprio_cont_def)
  ultimately show ?thesis using m(2) by blast
qed

lemma set_priority_waiting:
  assumes inv: "kinv s C" and t: "user_task s t" and p: "unat p < ARTOS_PRIORITY_COUNT" "priority (tcbs s t) \<le> p"
      "effective_priority (tcbs s t) \<noteq> p"
    and l: "cont (lists s) (EventItem t) = Some l"
  shows "\<exists>s' C'. rtos_set_effective_priority (Some t) p s = Ret (True, s') \<and> kinv s' C' \<and> reprioritised t p s C s' C'"
proof -
  let ?S = "StateItem t" and ?E = "EventItem t"
  have B: "blocked_list (cont (lists s) ?S)" "is_wait_list l" using kinv_task[OF inv t] l by (auto simp: task_ok_def)
  then have nr: "cont (lists s) ?S \<noteq> Some (ReadyL q)" for q by (auto simp: blocked_list_def)
  obtain xs where x: "C l = Some xs" "?E \<in> set xs" using rl.member[OF kinv_wf[OF inv], of ?E l] l by auto
  let ?C1 = "C(l \<mapsto> remove1 ?E (the (C l)))"
  obtain m1 where m1: "rtos_list_remove (Some ?E) (lists s) = Ret m1" "kinv (s\<lparr>lists := m1\<rparr>) ?C1" "same_data (lists s) m1"
     "\<And>j. \<not> is_sentinel j \<Longrightarrow> cont m1 j = (if j = ?E then None else cont (lists s) j)"
    using remove_event_kinv[OF inv t l] by blast
  let ?s2 = "upd_tcb t (\<lambda>x. x\<lparr>effective_priority := p\<rparr>) (s\<lparr>lists := m1\<rparr>)"
  have k2: "kinv ?s2 ?C1"
    using set_priority_kinv[OF m1(2), of t p] t p m1(4)[of ?S] m1(4)[of ?E] B by (simp add: user_task_def)
  have u2: "user_task ?s2 t" "cont (lists ?s2) ?E = None" "blocked_list (cont (lists ?s2) ?S)" "?C1 l = Some (remove1 ?E xs)"
      "ucast p = ucast (effective_priority (tcbs ?s2 t))"
    using t m1(4)[of ?S] m1(4)[of ?E] B x by (simp_all add: user_task_def)
  obtain m where m: "rtos_list_insert_reversed_sorted (Some l) (Some ?E) (set_value ?E (ucast p) (lists ?s2)) = Ret m"
     "kinv (?s2\<lparr>lists := m\<rparr>) (?C1(l \<mapsto> ins_reversed (\<lambda>j. val m j) ?E (remove1 ?E xs)))"
     "same_data (set_value ?E (ucast p) (lists ?s2)) m"
     "\<And>j. \<not> is_sentinel j \<Longrightarrow> cont m j = (if j = ?E then Some l else cont (lists ?s2) j)"
    using insert_event_kinv[OF k2 u2(1-3) B(2) u2(4,5)] by blast
  have C': "?C1(l \<mapsto> ins_reversed (\<lambda>j. val m j) ?E (remove1 ?E xs)) = reprio_view t p s (\<lambda>j. val m j) C"
    using l x(1) nr by (simp add: reprio_view_def)
  have "rtos_set_effective_priority (Some t) p s = Ret (True, ?s2\<lparr>lists := m\<rparr>)"
    using set_priority_guard[OF inv t p(1,2)] p l nr m(1)
      on_lists_Ret[of "rtos_list_remove (Some ?E)" s, OF m1(1)]
    by (auto simp: rtos_set_effective_priority_def asserts_all Let_def on_lists_def upd_tcb_def)
  moreover have "reprioritised t p s C (?s2\<lparr>lists := m\<rparr>) (reprio_view t p s (\<lambda>j. val m j) C)"
    unfolding reprioritised_def using m1(3,4) m(3,4) l nr
    by (intro exI[of _ m] exI[of _ "ready_bitmap s"]) (auto simp: upd_tcb_def same_data_def reprio_cont_def)
  ultimately show ?thesis using m(2) unfolding C' by blast
qed

lemma set_priority_other:
  assumes inv: "kinv s C" and t: "user_task s t" and p: "unat p < ARTOS_PRIORITY_COUNT" "priority (tcbs s t) \<le> p"
      "effective_priority (tcbs s t) \<noteq> p"
    and l: "cont (lists s) (EventItem t) = None" "cont (lists s) (StateItem t) \<noteq> Some (ReadyL (unat (effective_priority (tcbs s t))))"
  shows "\<exists>s' C'. rtos_set_effective_priority (Some t) p s = Ret (True, s') \<and> kinv s' C' \<and> reprioritised t p s C s' C'"
proof -
  let ?s' = "upd_tcb t (\<lambda>x. x\<lparr>effective_priority := p\<rparr>) s"
  have "cont (lists s) (StateItem t) = None \<or> blocked_list (cont (lists s) (StateItem t))"
    using kinv_task[OF inv t] l(2) by (auto simp: task_ok_def)
  then have "kinv ?s' C" using set_priority_kinv[OF inv t l(1) _ p(1,2)] by simp
  moreover have "rtos_set_effective_priority (Some t) p s = Ret (True, ?s')"
    using set_priority_guard[OF inv t p(1,2)] p l by (auto simp: rtos_set_effective_priority_def asserts_all Let_def)
  moreover have "reprioritised t p s C ?s' C"
    unfolding reprioritised_def using l
    by (intro exI[of _ "lists s"] exI[of _ "ready_bitmap s"]) (auto simp: upd_tcb_def reprio_view_def reprio_cont_def)
  ultimately show ?thesis by blast
qed

lemma set_effective_priority_runs:
  assumes "kinv s C" "user_task s t" "unat p < ARTOS_PRIORITY_COUNT" "priority (tcbs s t) \<le> p"
      "effective_priority (tcbs s t) \<noteq> p"
  shows "\<exists>s' C'. rtos_set_effective_priority (Some t) p s = Ret (True, s') \<and> kinv s' C' \<and> reprioritised t p s C s' C'"
proof (cases "cont (lists s) (StateItem t) = Some (ReadyL (unat (effective_priority (tcbs s t))))")
  case True
  then show ?thesis by (rule set_priority_ready[OF assms])
next
  case False
  then show ?thesis
    using set_priority_waiting[OF assms] set_priority_other[OF assms _ False] by (cases "cont (lists s) (EventItem t)") auto
qed

lemma set_effective_priority_same:
  assumes "kinv s C" "user_task s t" "effective_priority (tcbs s t) = p"
  shows "rtos_set_effective_priority (Some t) p s = Ret (False, s)"
  using set_priority_guard[OF assms(1,2), of p] kinv_task[OF assms(1,2)] assms(3)
  by (auto simp: rtos_set_effective_priority_def asserts_all task_ok_def)

lemma reprioritised_tick_ok:
  assumes inv: "kinv s C" "user_task s t" "tick_ok s C" and r: "reprioritised t p s C s' C'"
  shows "tick_ok s' C'"
proof -
  have w: "is_wait_list l" if "cont (lists s) (EventItem t) = Some l" for l
    using kinv_task[OF inv(1,2)] that by (simp add: task_ok_def)
  have C': "C' d = C d" if "\<not> is_wait_list d" "\<And>q. d \<noteq> ReadyL q" for d
    using r that w by (auto simp: reprioritised_def reprio_view_def Let_def split: option.splits)
  have v: "val (lists s') i = val (lists s) i" if i: "i \<in> set (the (C d))" "d = cur_delayed s \<or> d = next_delayed s" for i d
  proof -
    obtain xs where xs: "C d = Some xs" "i \<in> set xs" "\<not> is_wait_list d"
      using i inv(1) by (auto simp: kinv_def delayed_ptrs_ok_def kernel_lists_def)
    with kinv_listed[OF inv(1) xs(1,2)] show ?thesis using r by (auto simp: reprioritised_def)
  qed
  have d: "C' (cur_delayed s) = C (cur_delayed s)" "C' (next_delayed s) = C (next_delayed s)"
    using C' kinv_delayed_distinct[OF inv(1)] by auto
  moreover have "ticks s' = ticks s" "cur_delayed s' = cur_delayed s" "next_delayed s' = next_delayed s"
    using r by (auto simp: reprioritised_def)
  ultimately show ?thesis using inv(3) v by (simp add: tick_ok_def)
qed


section \<open>Priority inheritance\<close>

lemma reprioritised_fields:
  assumes "reprioritised t p s C s' C'"
  shows "tcbs s' = (tcbs s)(t := (tcbs s t)\<lparr>effective_priority := p\<rparr>)" "primask s' = primask s"
    "cur_task s' = cur_task s" "ticks s' = ticks s" "tsk_cnt s' = tsk_cnt s" "pendsv s' = pendsv s"
    "\<not> is_sentinel j \<Longrightarrow> cont (lists s') j = reprio_cont t p s j" "C' = reprio_view t p s (\<lambda>j. val (lists s') j) C"
  using assms by (auto simp: reprioritised_def)

lemma set_priority_total:
  assumes "kinv s C" "tick_ok s C" "user_task s t" "unat p < ARTOS_PRIORITY_COUNT" "priority (tcbs s t) \<le> p"
  shows "\<exists>s' C'. rtos_set_effective_priority (Some t) p s = Ret (effective_priority (tcbs s t) \<noteq> p, s') \<and>
           kinv s' C' \<and> tick_ok s' C' \<and>
           (if effective_priority (tcbs s t) = p then s' = s \<and> C' = C else reprioritised t p s C s' C')"
proof (cases "effective_priority (tcbs s t) = p")
  case True
  then show ?thesis using set_effective_priority_same[OF assms(1,3) True] assms(1,2) by auto
next
  case False
  then obtain s' C' where r: "rtos_set_effective_priority (Some t) p s = Ret (True, s')" "kinv s' C'" "reprioritised t p s C s' C'"
    using set_effective_priority_runs[OF assms(1,3-5) False] by blast
  then show ?thesis using False reprioritised_tick_ok[OF assms(1,3,2) r(3)] by auto
qed


text \<open>
  What the three operations on priorities do together: inheriting raises to the donor's
  priority and never lowers; giving up the last mutex returns to the base priority; a timed-out
  waiter lowers the owner of its only mutex to the highest priority still required.
\<close>

definition only_priority :: "tcb_ref \<Rightarrow> u8 \<Rightarrow> 'z kernel_scheme \<Rightarrow> 'z kernel_scheme \<Rightarrow> bool" where
  "only_priority t p s s' \<longleftrightarrow>
     tcbs s' = (tcbs s)(t := (tcbs s t)\<lparr>effective_priority := p\<rparr>) \<and> cur_task s' = cur_task s \<and> ticks s' = ticks s \<and>
     primask s' = primask s \<and> pendsv s' = pendsv s \<and> tsk_cnt s' = tsk_cnt s \<and>
     (\<forall>j. \<not> is_sentinel j \<longrightarrow> cont (lists s') j = reprio_cont t p s j)"

lemma only_priority_refl: "effective_priority (tcbs s t) = p \<Longrightarrow> only_priority t p s s"
  by (auto simp: only_priority_def reprio_cont_def)

lemma reprioritised_only: "reprioritised t p s C s' C' \<Longrightarrow> only_priority t p s s'"
  by (auto simp: only_priority_def dest: reprioritised_fields)

lemma set_priority_only:
  assumes "kinv s C" "tick_ok s C" "user_task s t" "unat p < ARTOS_PRIORITY_COUNT" "priority (tcbs s t) \<le> p"
  shows "\<exists>s' C'. rtos_set_effective_priority (Some t) p s = Ret (effective_priority (tcbs s t) \<noteq> p, s') \<and>
           kinv s' C' \<and> tick_ok s' C' \<and> only_priority t p s s'"
  using set_priority_total[OF assms] only_priority_refl[of s t p] reprioritised_only by (fastforce split: if_splits)

text \<open>
  Priority inheritance: the inheritor's effective priority becomes the maximum of its own and
  the donor's.
\<close>

theorem priority_inherit_max:
  assumes "kinv s C" "tick_ok s C" "user_task s t" "unat donor < ARTOS_PRIORITY_COUNT"
  shows "\<exists>s' C'. rtos_priority_inherit (Some t) donor s = Ret s' \<and> kinv s' C' \<and> tick_ok s' C' \<and>
           only_priority t (max (effective_priority (tcbs s t)) donor) s s'"
proof (cases "donor \<le> effective_priority (tcbs s t)")
  case True
  then show ?thesis using assms only_priority_refl[of s t] by (auto simp: rtos_priority_inherit_def max_def)
next
  case False
  then have "priority (tcbs s t) \<le> donor" using kinv_task[OF assms(1,3)] by (auto simp: task_ok_def)
  then show ?thesis using set_priority_only[OF assms(1-4)] False by (auto simp: rtos_priority_inherit_def max_def)
qed

text \<open>
  After a waiter timed out: the owner of exactly one mutex falls back to the larger of its base
  priority and the priority the remaining waiters require, but is never raised. An owner of
  no or several mutexes keeps its priority.
\<close>

theorem disinherit_after_timeout_min_max:
  assumes "kinv s C" "tick_ok s C" "user_task s t" "unat req < ARTOS_PRIORITY_COUNT"
  defines "p \<equiv> (if mutexes_held (tcbs s t) = 1
                then min (effective_priority (tcbs s t)) (max req (priority (tcbs s t)))
                else effective_priority (tcbs s t))"
  shows "\<exists>s' C'. rtos_priority_disinherit_after_timeout (Some t) req s = Ret (effective_priority (tcbs s t) \<noteq> p, s') \<and>
           kinv s' C' \<and> tick_ok s' C' \<and> only_priority t p s s'"
proof -
  let ?q = "max req (priority (tcbs s t))"
  have ok: "priority (tcbs s t) \<le> effective_priority (tcbs s t)" "unat (effective_priority (tcbs s t)) < ARTOS_PRIORITY_COUNT"
    using kinv_task[OF assms(1,3)] by (auto simp: task_ok_def)
  show ?thesis
  proof (cases "mutexes_held (tcbs s t) = 1 \<and> ?q < effective_priority (tcbs s t)")
    case True
    then have p: "p = ?q" unfolding p_def using less_imp_le min_absorb2 by (metis (no_types, lifting))
    have "unat p < ARTOS_PRIORITY_COUNT" "priority (tcbs s t) \<le> p" using True ok(2) unfolding p by (auto simp: word_less_nat_alt)
    from set_priority_only[OF assms(1-3) this] show ?thesis using True p
      by (auto simp: rtos_priority_disinherit_after_timeout_def Let_def max_def split: if_splits)
  next
    case False
    then have p: "p = effective_priority (tcbs s t)" unfolding p_def by (metis min_absorb1 not_le)
    then have "rtos_priority_disinherit_after_timeout (Some t) req s = Ret (False, s)"
      using False by (auto simp: rtos_priority_disinherit_after_timeout_def Let_def max_def split: if_splits)
    then show ?thesis using assms(1,2) p only_priority_refl[of s t] by auto
  qed
qed

text \<open>
  A task that has released its last mutex returns to its base priority; one that still holds
  a mutex keeps its effective priority.
\<close>

theorem relinquish_after_unlock_base:
  assumes "kinv s C" "tick_ok s C" "user_task s t"
  defines "p \<equiv> (if mutexes_held (tcbs s t) = 0 then priority (tcbs s t) else effective_priority (tcbs s t))"
  shows "\<exists>s' C'. rtos_priority_relinquish_after_unlock (Some t) s = Ret (effective_priority (tcbs s t) \<noteq> p, s') \<and>
           kinv s' C' \<and> tick_ok s' C' \<and> only_priority t p s s'"
proof (cases "mutexes_held (tcbs s t) = 0")
  case True
  have "unat (priority (tcbs s t)) < ARTOS_PRIORITY_COUNT"
    using kinv_task[OF assms(1,3)] by (auto simp: task_ok_def word_le_nat_alt)
  from set_priority_only[OF assms(1-3) this] show ?thesis using True
    by (auto simp: rtos_priority_relinquish_after_unlock_def p_def)
next
  case False
  then show ?thesis using assms only_priority_refl[of s t]
    by (auto simp: rtos_priority_relinquish_after_unlock_def)
qed


section \<open>Mutex counts and inspection\<close>

text \<open>
  The per-task count of held mutexes saturates instead of wrapping: incrementing stops at
  255, decrementing at 0, and in between the two are inverse.
\<close>

theorem mutex_count_saturates:
  "unat (mutexes_held (tcbs (rtos_increment_mutex_count (Some t) s) t)) = min 255 (unat (mutexes_held (tcbs s t)) + 1) \<and>
   unat (mutexes_held (tcbs (rtos_decrement_mutex_count (Some t) s) t)) = unat (mutexes_held (tcbs s t)) - 1 \<and>
   (if mutexes_held (tcbs s t) = 0xFF then rtos_increment_mutex_count (Some t) s = s
    else rtos_decrement_mutex_count (Some t) (rtos_increment_mutex_count (Some t) s) = s)"
proof -
  let ?m = "mutexes_held (tcbs s t)"
  have lt: "unat ?m < 256" by (rule order_less_le_trans[OF unsigned_less]) simp
  have ne: "unat ?m < 255" if "?m \<noteq> 0xFF" using that lt by (auto simp: word_unat_eq_iff)
  have inc: "unat (?m + 1) = unat ?m + 1" if "?m \<noteq> 0xFF"
    using that lt unat_add_lem[of ?m 1] by (simp add: word_unat_eq_iff)
  have dec: "unat (?m - 1) = unat ?m - 1" if "?m \<noteq> 0" using that by (simp add: unat_minus_one)
  have nz: "?m + 1 \<noteq> 0" if "?m \<noteq> 0xFF" using inc[OF that] by auto
  have "unat (mutexes_held (tcbs (rtos_increment_mutex_count (Some t) s) t)) = min 255 (unat ?m + 1)"
    using inc ne by (cases "?m = 0xFF") (simp_all add: rtos_increment_mutex_count_def)
  moreover have "unat (mutexes_held (tcbs (rtos_decrement_mutex_count (Some t) s) t)) = unat ?m - 1"
    using dec by (cases "?m = 0") (simp_all add: rtos_decrement_mutex_count_def)
  moreover have "rtos_increment_mutex_count (Some t) s = s" if "?m = 0xFF"
    using that by (simp add: rtos_increment_mutex_count_def)
  moreover have "rtos_decrement_mutex_count (Some t) (rtos_increment_mutex_count (Some t) s) = s" if "?m \<noteq> 0xFF"
    using that nz[OF that] by (simp add: rtos_decrement_mutex_count_def rtos_increment_mutex_count_def) (simp add: upd_tcb_def)
  ultimately show ?thesis by simp
qed

text \<open>
  Task inspection: for an index beyond the created tasks or a NULL buffer it fails and leaves
  the buffer alone. Otherwise it reports the priorities and the state, which is \<open>RUNNING\<close> for exactly the
  task in no list, \<open>READY\<close> in a ready list, \<open>BLOCKED\<close> in a delayed list and
  \<open>SUSPENDED\<close> in the suspended list, and the kernel state is unchanged.
\<close>

theorem task_get_info_state:
  assumes "kinv s C" "index < tsk_cnt s" "tcb_entry (tcbs s (Pool (unat index))) \<noteq> 0"
  defines "t \<equiv> Pool (unat index)"
  shows "\<exists>i. artos_task_get_info index (Some buf) s = (True, Some i, s) \<and>
           info_base_priority i = priority (tcbs s t) \<and> info_effective_priority i = effective_priority (tcbs s t) \<and>
           info_entry i = tcb_entry (tcbs s t) \<and> info_mutexes_held i = mutexes_held (tcbs s t) \<and>
           (info_state i = ARTOS_TASK_STATE_RUNNING \<longleftrightarrow> cont (lists s) (StateItem t) = None) \<and>
           (info_state i = ARTOS_TASK_STATE_READY \<longleftrightarrow>
              cont (lists s) (StateItem t) = Some (ReadyL (unat (effective_priority (tcbs s t))))) \<and>
           (info_state i = ARTOS_TASK_STATE_BLOCKED \<longleftrightarrow> cont (lists s) (StateItem t) \<in> {Some DelayedL, Some DelayedOverflowL}) \<and>
           (info_state i = ARTOS_TASK_STATE_SUSPENDED \<longleftrightarrow> cont (lists s) (StateItem t) = Some SuspendL)"
proof -
  have "user_task s t" using assms(2) by (auto simp: user_task_def t_def word_less_nat_alt)
  from kinv_task[OF assms(1) this] have "cont (lists s) (StateItem t) = None \<or>
      cont (lists s) (StateItem t) = Some (ReadyL (unat (effective_priority (tcbs s t)))) \<or>
      blocked_list (cont (lists s) (StateItem t))" by (simp add: task_ok_def)
  then show ?thesis using assms(2,3)
    by (auto simp: artos_task_get_info_def t_def blocked_list_def rtos_port_enter_critical_def rtos_port_exit_critical_def
        Let_def not_le)
qed

end
