(* ===== verification/Waiters.thy ===== *)
theory Waiters
  imports Kernel_API Tasks_Prio
begin

unbundle bit_operations_syntax

text \<open>
  The wait lists of semaphores, queues and mutexes: a new one, the task that blocks on one, and the waiter
  that is woken first. Shared by the three synchronisation objects.
\<close>

section \<open>Creating a wait list\<close>

lemma kinv_new_wait_list:
  assumes inv: "kinv s C" and l: "is_wait_list l" "C l = None \<or> C l = Some []"
  shows "kinv (s\<lparr>lists := rtos_init_list (Some l) (lists s)\<rparr>) (C(l \<mapsto> []))"
proof -
  let ?m = "rtos_init_list (Some l) (lists s)" and ?C = "C(l \<mapsto> [])"
  have f: "cont ?m j = cont (lists s) j" "own ?m j = own (lists s) j" "val ?m j = val (lists s) j" if "\<not> is_sentinel j" for j
    using that by (auto simp: init_list_fields)
  have "order_ok (val ?m) ?C"
  proof (rule order_ok_cong)
    show "order_ok (\<lambda>i. val (lists s) i) ?C" using inv l by (intro order_ok_upd) (auto simp: kinv_def)
    show "val ?m i = val (lists s) i" if "?C k = Some xs" "i \<in> set xs" for k xs i
      using that f(3) rl.node[OF kinv_wf[OF inv], of k xs i] by (auto split: if_splits)
  qed
  moreover have "lists_wf ?m ?C" by (rule init_list_law[OF kinv_wf[OF inv] l(2)])
  moreover have "kernel_lists ?C" "bitmap_ok (s\<lparr>lists := ?m\<rparr>) ?C"
    using inv l by (auto simp: kinv_def kernel_lists_def bitmap_ok_def)
  moreover have "task_ok (s\<lparr>lists := ?m\<rparr>) t" if "user_task s t" for t
    using kinv_task[OF inv that] by (simp add: task_ok_def f)
  moreover have "unlisted (s\<lparr>lists := ?m\<rparr>) t" if "\<not> user_task s t" for t
    using kinv_unlisted[OF inv that] by (simp add: unlisted_def f)
  ultimately show ?thesis using inv
    by (simp add: kinv_def pool_ok_def idle_ok_def cur_ok_def delayed_ptrs_ok_def user_task_def)
qed

lemma tick_ok_new_wait_list:
  assumes inv: "kinv s C" "tick_ok s C" and l: "is_wait_list l"
  shows "tick_ok (s\<lparr>lists := rtos_init_list (Some l) (lists s)\<rparr>) (C(l \<mapsto> []))"
proof -
  obtain xs ys where d: "C (cur_delayed s) = Some xs" "C (next_delayed s) = Some ys"
    using inv(1) by (auto simp: kinv_def delayed_ptrs_ok_def kernel_lists_def)
  have "val (rtos_init_list (Some l) (lists s)) i = val (lists s) i" if "i \<in> set xs \<or> i \<in> set ys" for i
    using rl.node[OF kinv_wf[OF inv(1)] d(1), of i] rl.node[OF kinv_wf[OF inv(1)] d(2), of i] that
    by (auto simp: init_list_fields)
  then show ?thesis using inv(2) d l kinv_delayed_distinct(3,4)[OF inv(1)] by (auto simp: tick_ok_def)
qed

section \<open>The first waiter\<close>

text \<open>The waiters of a list, as tasks, in the order they will be woken.\<close>

definition waiters :: "list_view \<Rightarrow> list_ref \<Rightarrow> tcb_ref list" where
  "waiters C l = map (\<lambda>i. case i of EventItem t \<Rightarrow> t | StateItem t \<Rightarrow> t | Sentinel _ \<Rightarrow> IdleTask) (the (C l))"

lemma waiters_items:
  assumes inv: "kinv s C" and l: "is_wait_list l" "C l = Some xs"
  shows "xs = map EventItem (waiters C l)"
proof -
  have "\<forall>i \<in> set xs. \<exists>t. i = EventItem t" using kinv_listed[OF inv l(2)] l(1) by auto
  then show ?thesis unfolding waiters_def l(2) by (induction xs) auto
qed

lemma waiter_blocked:
  assumes inv: "kinv s C" and l: "is_wait_list l" "C l \<noteq> None" and t: "t \<in> set (waiters C l)"
  shows "user_task s t" "cont (lists s) (EventItem t) = Some l" "blocked_list (cont (lists s) (StateItem t))"
    "val (lists s) (EventItem t) = ucast (effective_priority (tcbs s t))" "own (lists s) (EventItem t) = Some t"
proof -
  obtain xs where xs: "C l = Some xs" using l(2) by blast
  have m: "EventItem t \<in> set xs" using t waiters_items[OF inv l(1) xs] by auto
  show u: "user_task s t" using kinv_listed[OF inv xs m] l(1) by auto
  show c: "cont (lists s) (EventItem t) = Some l" by (rule lists_wf_container[OF kinv_wf[OF inv] xs m])
  show "blocked_list (cont (lists s) (StateItem t))" "val (lists s) (EventItem t) = ucast (effective_priority (tcbs s t))"
    "own (lists s) (EventItem t) = Some t"
    using kinv_task[OF inv u] c by (auto simp: task_ok_def)
qed

lemma ucast_u8_le: "(ucast (a :: u8) :: u32) \<le> ucast b \<longleftrightarrow> a \<le> b"
proof -
  have "unat (ucast a :: u32) = unat a" for a :: u8
    by (simp add: unsigned_ucast_eq take_bit_nat_eq_self order_less_le_trans[OF unsigned_less])
  then show ?thesis by (simp add: word_le_nat_alt)
qed

lemma ucast_u8_less: "(ucast (a :: u8) :: u32) < ucast b \<longleftrightarrow> a < b"
  using ucast_u8_le[of b a] by (simp flip: not_le)

text \<open>The waiters are sorted by effective priority, highest first.\<close>

lemma waiters_sorted:
  assumes inv: "kinv s C" and l: "is_wait_list l" "C l \<noteq> None"
  shows "sorted_wrt (\<lambda>a b. effective_priority (tcbs s b) \<le> effective_priority (tcbs s a)) (waiters C l)"
proof -
  obtain xs where xs: "C l = Some xs" using l(2) by blast
  have "desc (val (lists s)) xs" using inv l(1) xs by (auto simp: kinv_def order_ok_def)
  then have "sorted_wrt (\<lambda>a b. val (lists s) (EventItem b) \<le> val (lists s) (EventItem a)) (waiters C l)"
    unfolding waiters_items[OF inv l(1) xs] desc_def sorted_wrt_map .
  then show ?thesis
    by (rule sorted_wrt_mono_rel[rotated]) (simp add: waiter_blocked(4)[OF inv l] ucast_u8_le)
qed

text \<open>The code's test for waiters and its access to the first one.\<close>

lemma wait_list_head:
  assumes inv: "kinv s C" and l: "is_wait_list l" "C l \<noteq> None"
  shows "counts (lists s) l = 0 \<longleftrightarrow> waiters C l = []"
    and "waiters C l = t # ts \<Longrightarrow> nxt (lists s) (Sentinel l) = Some (EventItem t)"
proof -
  obtain xs where xs: "C l = Some xs" using l(2) by blast
  show "counts (lists s) l = 0 \<longleftrightarrow> waiters C l = []"
    using rl.count_zero_iff[OF kinv_wf[OF inv] xs kinv_length[OF inv xs]] by (simp add: waiters_def xs)
  show "waiters C l = t # ts \<Longrightarrow> nxt (lists s) (Sentinel l) = Some (EventItem t)"
    using rl.first[OF kinv_wf[OF inv] xs] waiters_items[OF inv l(1) xs] by simp
qed

lemma waiters_cong: "C' l = C l \<Longrightarrow> waiters C' l = waiters C l"
  by (simp add: waiters_def)

lemma unblock_view_other:
  assumes inv: "kinv s C" and l: "is_wait_list l" "C l \<noteq> None" "t \<notin> set (waiters C l)"
  shows "unblock_view t p C l = C l"
proof -
  obtain xs where xs: "C l = Some xs" using l(2) by blast
  then have "StateItem t \<notin> set xs" "EventItem t \<notin> set xs" using waiters_items[OF inv l(1) xs] l(3) by auto
  then show ?thesis using xs l(1) by (auto simp: unblock_view_def append_to_def take_out_def remove1_idem)
qed

lemma waiter_in_one_list:
  assumes "kinv s C" "is_wait_list l" "C l \<noteq> None" "is_wait_list k" "C k \<noteq> None"
    "t \<in> set (waiters C l)" "t \<in> set (waiters C k)"
  shows "k = l"
  using waiter_blocked(2)[OF assms(1-3,6)] waiter_blocked(2)[OF assms(1,4,5,7)] by simp

text \<open>
  Waking the first waiter \<open>t\<close> of \<open>l\<close>: it becomes ready at the end of its ready list, and the
  wait list loses its head.
\<close>

lemma wake_head:
  assumes inv: "kinv s C" "tick_ok s C" and l: "is_wait_list l" "C l \<noteq> None" and w: "waiters C l = t # ts"
  defines "p \<equiv> unat (effective_priority (tcbs s t))"
  shows "\<exists>m. rtos_unblock_task (Some (EventItem t)) reason s = Ret (unblocked t reason m s) \<and>
           kinv (unblocked t reason m s) (unblock_view t p C) \<and> tick_ok (unblocked t reason m s) (unblock_view t p C) \<and>
           waiters (unblock_view t p C) l = ts \<and>
           (\<forall>k. is_wait_list k \<longrightarrow> k \<noteq> l \<longrightarrow> unblock_view t p C k = C k) \<and> same_data (lists s) m \<and>
           (\<forall>j. \<not> is_sentinel j \<longrightarrow> cont m j =
              (if j = StateItem t then Some (ReadyL p) else if j = EventItem t then None else cont (lists s) j)) \<and>
           ready_grows C (unblock_view t p C)"
proof -
  have t: "t \<in> set (waiters C l)" using w by simp
  note b = waiter_blocked[OF inv(1) l t]
  obtain xs where xs: "C l = Some xs" using l(2) by blast
  have "xs = EventItem t # map EventItem ts" using waiters_items[OF inv(1) l(1) xs] w by simp
  moreover have "remove1 (StateItem t) (map EventItem ts) = map EventItem ts" by (rule remove1_idem) auto
  ultimately have "unblock_view t p C l = Some (map EventItem ts)"
    using xs l(1) by (auto simp: unblock_view_def append_to_def take_out_def remove1_idem)
  then have wl: "waiters (unblock_view t p C) l = ts" by (simp add: waiters_def comp_def)
  have "unblock_view t p C k = C k" if k: "is_wait_list k" "k \<noteq> l" for k
  proof (cases "C k")
    case None
    then show ?thesis using k(1) by (auto simp: unblock_view_def append_to_def take_out_def)
  next
    case (Some ys)
    then show ?thesis using unblock_view_other[OF inv(1) k(1)] waiter_in_one_list[OF inv(1) l k(1) _ t] k(2) by auto
  qed
  moreover have "EventItem t = StateItem t \<or> EventItem t = EventItem t \<and> cont (lists s) (EventItem t) \<noteq> None" using b(2) by simp
  ultimately show ?thesis
    using unblock_all[OF inv b(1,3)] wl unblock_grows[OF inv(1) b(1,3) kinv_ready_live[OF inv(1) b(1)]] unfolding p_def by blast
qed

section \<open>Blocking on an object\<close>

text \<open>Where a new waiter goes: behind every waiter of at least its priority.\<close>

definition enqueue_waiter :: "(tcb_ref \<Rightarrow> u8) \<Rightarrow> tcb_ref \<Rightarrow> tcb_ref list \<Rightarrow> tcb_ref list" where
  "enqueue_waiter pr t ts = takeWhile (\<lambda>u. pr t \<le> pr u) ts @ t # dropWhile (\<lambda>u. pr t \<le> pr u) ts"

lemma set_enqueue_waiter [simp]: "set (enqueue_waiter pr t ts) = insert t (set ts)"
proof -
  have "set (takeWhile P ts) \<union> set (dropWhile P ts) = set ts" for P by (metis set_append takeWhile_dropWhile_id)
  then show ?thesis by (auto simp: enqueue_waiter_def)
qed

lemma ins_reversed_waiters:
  assumes "desc f (map EventItem ts)" "\<And>u. u \<in> set ts \<Longrightarrow> f (EventItem u) = ucast (pr u)" "f (EventItem t) = ucast (pr t)"
  shows "ins_reversed f (EventItem t) (map EventItem ts) = map EventItem (enqueue_waiter pr t ts)"
proof -
  obtain ys zs where s: "map EventItem ts = ys @ zs" "ins_reversed f (EventItem t) (map EventItem ts) = ys @ EventItem t # zs"
      "\<forall>y \<in> set ys. f (EventItem t) \<le> f y" "\<forall>z \<in> set zs. f z < f (EventItem t)"
    using ins_reversed_split[OF assms(1)] by blast
  obtain us vs where uv: "ts = us @ vs" "ys = map EventItem us" "zs = map EventItem vs"
    using s(1) by (auto simp: map_eq_append_conv)
  have "\<forall>u \<in> set us. pr t \<le> pr u" "\<forall>v \<in> set vs. \<not> pr t \<le> pr v"
    using s(3,4) uv assms(2,3) by (auto simp: ucast_u8_le ucast_u8_less not_le)
  then have "takeWhile (\<lambda>u. pr t \<le> pr u) ts = us" "dropWhile (\<lambda>u. pr t \<le> pr u) ts = vs"
    unfolding uv(1) by (simp_all add: takeWhile_append dropWhile_append) (auto simp: takeWhile_eq_Nil_iff dropWhile_eq_self_iff hd_in_set)
  then show ?thesis using s(2) uv by (simp add: enqueue_waiter_def)
qed

lemma block_on:
  assumes inv: "kinv s C" "tick_ok s C" and r: "running s t" and l: "is_wait_list l" "C l \<noteq> None"
    and w: "forever \<or> wake \<noteq> ticks s"
  shows "\<exists>m C'. rtos_block_current_task wake (Some l) forever s = Ret (s\<lparr>lists := m\<rparr>) \<and>
           kinv (s\<lparr>lists := m\<rparr>) C' \<and> tick_ok (s\<lparr>lists := m\<rparr>) C' \<and>
           waiters C' l = enqueue_waiter (\<lambda>u. effective_priority (tcbs s u)) t (waiters C l) \<and>
           (\<forall>k. is_wait_list k \<longrightarrow> k \<noteq> l \<longrightarrow> C' k = C k) \<and> C' l \<noteq> None \<and>
           cont m (StateItem t) = Some (block_target wake forever s) \<and> cont m (EventItem t) = Some l \<and>
           val m (StateItem t) = wake \<and>
           (\<forall>u. u \<noteq> t \<longrightarrow> stays (lists s) m u) \<and> ready_grows C C'"
proof -
  have t: "cur_task s = Some t" "user_task s t" "cont (lists s) (StateItem t) = None" using r by (auto simp: running_def)
  have wt: "waitable (Some l) C" using l by (simp add: waitable_def)
  obtain m C' where b: "rtos_block_current_task wake (Some l) forever s = Ret (s\<lparr>lists := m\<rparr>)"
      "blocks_to t wake (Some l) forever s C m C'"
    using block_runs[OF inv(1) t wt] by blast
  have k: "kinv (s\<lparr>lists := m\<rparr>) C'" by (rule blocks_to_kinv[OF inv(1) t(2,3) wt b(2)])
  have tk: "tick_ok (s\<lparr>lists := m\<rparr>) C'" by (rule blocks_to_tick_ok[OF inv t(3) wt b(2) w])
  obtain xs ys zs where v: "C (block_target wake forever s) = Some xs" "C l = Some zs"
      "C' = C(block_target wake forever s \<mapsto> ys, l \<mapsto> ins_reversed (\<lambda>j. val m j) (EventItem t) zs)"
    using b(2) by (auto simp: blocks_to_def)
  have nw: "\<not> is_wait_list (block_target wake forever s)"
    using kinv_delayed_distinct(3,4)[OF inv(1)] by (simp add: block_target_def)
  have E: "cont (lists s) (EventItem t) = None"
    using kinv_task[OF inv(1) t(2)] t(3) by (cases "cont (lists s) (EventItem t)") (auto simp: task_ok_def blocked_list_def)
  have nt: "t \<notin> set (waiters C l)" using waiter_blocked(2)[OF inv(1) l] E by auto
  note it = waiters_items[OF inv(1) l(1) v(2)]
  have vv: "val m (EventItem u) = ucast (effective_priority (tcbs s u))" if "u \<in> set (waiters C l) \<or> u = t" for u
    using that waiter_blocked(4)[OF inv(1) l, of u] b(2) nt by (auto simp: blocks_to_def)
  have "desc (\<lambda>j. val (lists s) j) zs" using inv(1) l(1) v(2) by (auto simp: kinv_def order_ok_def)
  then have "desc (\<lambda>j. val m j) (map EventItem (waiters C l))"
    unfolding it using vv waiter_blocked(4)[OF inv(1) l] by (subst desc_cong[where g = "\<lambda>j. val (lists s) j"]) auto
  then have "ins_reversed (\<lambda>j. val m j) (EventItem t) zs =
      map EventItem (enqueue_waiter (\<lambda>u. effective_priority (tcbs s u)) t (waiters C l))"
    unfolding it using vv by (intro ins_reversed_waiters) (auto simp: waiters_def)
  then have "waiters C' l = enqueue_waiter (\<lambda>u. effective_priority (tcbs s u)) t (waiters C l)"
    unfolding v(3) by (simp add: waiters_def comp_def)
  moreover have "\<forall>k. is_wait_list k \<longrightarrow> k \<noteq> l \<longrightarrow> C' k = C k" using v(3) nw by auto
  moreover have "C' l \<noteq> None" using v(3) by simp
  moreover have "ready_grows C C'" using blocks_to_ready[OF inv(1) b(2)] l(1) by (intro ready_grows_same) auto
  ultimately show ?thesis using b k tk by (intro exI[of _ m] exI[of _ C']) (auto simp: blocks_to_def stays_def)
qed

text \<open>Waking a waiter and blocking the running task disturb no other task.\<close>

lemma wake_keeps:
  assumes "kinv s C" "is_wait_list l" "C l \<noteq> None" "t \<in> set (waiters C l)"
    and c: "\<And>j. \<not> is_sentinel j \<Longrightarrow> cont m j = (if j = StateItem t then Some (ReadyL p) else if j = EventItem t then None else cont (lists s) j)"
    and d: "same_data (lists s) m"
  shows "keeps_tasks {l} s (unblocked t reason m s)"
  using waiter_blocked(2)[OF assms(1-4)] c d
  by (intro keeps_tasksI[of _ _ t]) (simp_all add: unblocked_def upd_tcb_def rests_def stays_def same_data_def)

lemma block_keeps:
  assumes "running s t" "cont m (StateItem t) \<noteq> None" "\<And>u. u \<noteq> t \<Longrightarrow> stays (lists s) m u"
  shows "keeps_tasks {} s (s\<lparr>lists := m\<rparr>)"
  using assms by (intro keeps_tasksI[of _ _ t]) (simp_all add: running_def rests_def blocked_list_def)

text \<open>First come, first served among equals, and priorities stay sorted.\<close>

lemma enqueue_waiter_fifo:
  assumes "sorted_wrt (\<lambda>a b. pr b \<le> pr a) ts"
  shows "filter (\<lambda>u. pr u = p) (enqueue_waiter pr t ts) = filter (\<lambda>u. pr u = p) ts @ (if pr t = p then [t] else [])"
  using assms
proof (induction ts)
  case (Cons a ts)
  show ?case
  proof (cases "pr t \<le> pr a")
    case True
    then show ?thesis using Cons by (simp add: enqueue_waiter_def)
  next
    case False
    then have "filter (\<lambda>u. pr u = pr t) ts = []" using Cons(2) by (auto simp: filter_empty_conv)
    then show ?thesis using False by (auto simp: enqueue_waiter_def)
  qed
qed (simp add: enqueue_waiter_def)

section \<open>Changing a priority\<close>

text \<open>
  Task \<open>t\<close> has effective priority \<open>p\<close> now: it may stand elsewhere in the wait list it is in, which otherwise has
  the same waiters; every other wait list is the same.
\<close>

definition reprio :: "tcb_ref \<Rightarrow> u8 \<Rightarrow> 'z kernel_scheme \<Rightarrow> list_view \<Rightarrow> 'z kernel_scheme \<Rightarrow> list_view \<Rightarrow> bool" where
  "reprio t p s C s' C' \<longleftrightarrow> kinv s' C' \<and> tick_ok s' C' \<and> only_priority t p s s' \<and> kernel.more s' = kernel.more s \<and>
     (\<forall>u. val (lists s') (StateItem u) = val (lists s) (StateItem u)) \<and>
     (\<forall>l. is_wait_list l \<longrightarrow> (C' l = None \<longleftrightarrow> C l = None) \<and> set (waiters C' l) = set (waiters C l) \<and>
        (t \<notin> set (waiters C l) \<longrightarrow> C' l = C l))"

text \<open>No object is created or destroyed.\<close>

definition same_live :: "list_view \<Rightarrow> list_view \<Rightarrow> bool" where
  "same_live C C' \<longleftrightarrow> (\<forall>l. is_wait_list l \<longrightarrow> (C' l = None \<longleftrightarrow> C l = None))"

lemma same_live_refl [simp]: "same_live C C"
  by (simp add: same_live_def)

lemma same_live_trans: "same_live C C1 \<Longrightarrow> same_live C1 C2 \<Longrightarrow> same_live C C2"
  by (simp add: same_live_def)

lemma reprio_live: "reprio t p s C s' C' \<Longrightarrow> same_live C C'"
  by (simp add: reprio_def same_live_def)

lemma reprio_keeps: "reprio t p s C s' C' \<Longrightarrow> keeps_tasks X s s'"
  by (auto simp: reprio_def only_priority_def reprio_cont_def keeps_tasks_defs blocked_list_def split: if_splits)

lemma reprio_refl: "kinv s C \<Longrightarrow> tick_ok s C \<Longrightarrow> effective_priority (tcbs s t) = p \<Longrightarrow> reprio t p s C s C"
  by (simp add: reprio_def only_priority_refl)

lemma reprioritised_waiters:
  assumes inv: "kinv s C" "user_task s t" and r: "reprioritised t p s C s' C'" and l: "is_wait_list l"
  shows "C' l = None \<longleftrightarrow> C l = None" "set (waiters C' l) = set (waiters C l)" "t \<notin> set (waiters C l) \<Longrightarrow> C' l = C l"
proof -
  note v = reprioritised_fields(8)[OF r]
  let ?E = "EventItem t"
  have *: "C' l = C l \<or> (\<exists>xs f. C l = Some xs \<and> ?E \<in> set xs \<and> C' l = Some (ins_reversed f ?E (remove1 ?E xs)))"
  proof (cases "cont (lists s) (StateItem t) = Some (ReadyL (unat (effective_priority (tcbs s t))))")
    case True
    then show ?thesis using v l by (auto simp: reprio_view_def Let_def)
  next
    case False
    show ?thesis
    proof (cases "cont (lists s) ?E = Some l")
      case True
      then obtain xs where "C l = Some xs" "?E \<in> set xs" using rl.member[OF kinv_wf[OF inv(1)], of ?E l] by auto
      then show ?thesis using v False True by (auto simp: reprio_view_def Let_def)
    next
      case n: False
      then show ?thesis using v False l by (auto simp: reprio_view_def Let_def split: option.splits)
    qed
  qed
  have "(C' l = None \<longleftrightarrow> C l = None) \<and> set (waiters C' l) = set (waiters C l) \<and> (t \<notin> set (waiters C l) \<longrightarrow> C' l = C l)"
  proof (cases "C' l = C l")
    case False
    then obtain xs f where a: "C l = Some xs" "?E \<in> set xs" "C' l = Some (ins_reversed f ?E (remove1 ?E xs))" using * by blast
    have d: "distinct xs" by (rule lists_wf_distinct[OF kinv_wf[OF inv(1)] a(1)])
    have "set (ins_reversed f ?E (remove1 ?E xs)) = set xs" using a(2) d by auto
    then have "set (waiters C' l) = set (waiters C l)" by (simp add: waiters_def a)
    moreover have "t \<in> set (waiters C l)" using waiters_items[OF inv(1) l a(1)] a(2) by auto
    ultimately show ?thesis by (simp add: a)
  qed (simp add: waiters_def)
  then show "C' l = None \<longleftrightarrow> C l = None" "set (waiters C' l) = set (waiters C l)" "t \<notin> set (waiters C l) \<Longrightarrow> C' l = C l" by auto
qed

lemma set_priority_reprio:
  assumes inv: "kinv s C" "tick_ok s C" "user_task s t" and p: "unat p < ARTOS_PRIORITY_COUNT" "priority (tcbs s t) \<le> p"
  shows "\<exists>s' C'. rtos_set_effective_priority (Some t) p s = Ret (effective_priority (tcbs s t) \<noteq> p, s') \<and> reprio t p s C s' C'"
proof -
  obtain s' C' where r: "rtos_set_effective_priority (Some t) p s = Ret (effective_priority (tcbs s t) \<noteq> p, s')" "kinv s' C'" "tick_ok s' C'"
      "if effective_priority (tcbs s t) = p then s' = s \<and> C' = C else reprioritised t p s C s' C'"
    using set_priority_total[OF assms] by blast
  have "reprio t p s C s' C'"
  proof (cases "effective_priority (tcbs s t) = p")
    case True
    then show ?thesis using r(2-4) by (simp add: reprio_refl)
  next
    case False
    then have rp: "reprioritised t p s C s' C'" using r(4) by simp
    then have "kernel.more s' = kernel.more s" "\<forall>u. val (lists s') (StateItem u) = val (lists s) (StateItem u)"
      by (auto simp: reprioritised_def)
    then show ?thesis using r(2,3) reprioritised_only[OF rp] reprioritised_waiters[OF inv(1,3) rp] unfolding reprio_def by blast
  qed
  then show ?thesis using r(1) by blast
qed

text \<open>Inheriting, falling back after a time-out, and giving up what was inherited.\<close>

lemma inherit_runs:
  assumes "kinv s C" "tick_ok s C" "user_task s t" "unat d < ARTOS_PRIORITY_COUNT"
  shows "\<exists>s' C'. rtos_priority_inherit (Some t) d s = Ret s' \<and> reprio t (max (effective_priority (tcbs s t)) d) s C s' C'"
proof (cases "d \<le> effective_priority (tcbs s t)")
  case True
  then show ?thesis using assms(1,2) by (auto simp: rtos_priority_inherit_def max_def intro!: reprio_refl)
next
  case False
  then have "priority (tcbs s t) \<le> d" using kinv_task[OF assms(1,3)] by (auto simp: task_ok_def)
  from set_priority_reprio[OF assms this] show ?thesis using False by (auto simp: rtos_priority_inherit_def max_def)
qed

lemma relinquish_runs:
  assumes "kinv s C" "tick_ok s C" "user_task s t"
  defines "p \<equiv> (if mutexes_held (tcbs s t) = 0 then priority (tcbs s t) else effective_priority (tcbs s t))"
  shows "\<exists>s' C'. rtos_priority_relinquish_after_unlock (Some t) s = Ret (effective_priority (tcbs s t) \<noteq> p, s') \<and> reprio t p s C s' C'"
proof (cases "mutexes_held (tcbs s t) = 0")
  case True
  have "unat (priority (tcbs s t)) < ARTOS_PRIORITY_COUNT" using kinv_task[OF assms(1,3)] by (auto simp: task_ok_def word_le_nat_alt)
  from set_priority_reprio[OF assms(1-3) this] show ?thesis using True
    by (simp add: rtos_priority_relinquish_after_unlock_def p_def)
next
  case False
  then show ?thesis using assms(1,2)
    by (auto simp: rtos_priority_relinquish_after_unlock_def p_def intro!: exI[of _ s] exI[of _ C] reprio_refl)
qed

lemma disinherit_runs:
  assumes "kinv s C" "tick_ok s C" "user_task s t" "unat r < ARTOS_PRIORITY_COUNT"
  defines "p \<equiv> (if mutexes_held (tcbs s t) = 1 then min (effective_priority (tcbs s t)) (max r (priority (tcbs s t)))
                else effective_priority (tcbs s t))"
  shows "\<exists>s' C'. rtos_priority_disinherit_after_timeout (Some t) r s = Ret (effective_priority (tcbs s t) \<noteq> p, s') \<and> reprio t p s C s' C'"
proof -
  let ?q = "max r (priority (tcbs s t))"
  show ?thesis
  proof (cases "mutexes_held (tcbs s t) = 1 \<and> ?q < effective_priority (tcbs s t)")
    case True
    have e: "(if r > priority (tcbs s t) then r else priority (tcbs s t)) = ?q" by (auto simp: max_def)
    have q: "unat ?q < ARTOS_PRIORITY_COUNT" "priority (tcbs s t) \<le> ?q"
      using kinv_task[OF assms(1,3)] assms(4) by (auto simp: task_ok_def word_le_nat_alt max_def)
    have "p = ?q" using True by (simp add: p_def)
    then show ?thesis using set_priority_reprio[OF assms(1-3) q] True
      by (auto simp: rtos_priority_disinherit_after_timeout_def Let_def e)
  next
    case False
    have e: "(if r > priority (tcbs s t) then r else priority (tcbs s t)) = ?q" by (auto simp: max_def)
    have "p = effective_priority (tcbs s t)" using False by (auto simp: p_def not_less min_absorb1 simp del: max_less_iff_conj)
    moreover have "rtos_priority_disinherit_after_timeout (Some t) r s = Ret (False, s)"
      using False e by (auto simp: rtos_priority_disinherit_after_timeout_def Let_def)
    ultimately show ?thesis using assms(1,2) by (auto intro!: exI[of _ s] exI[of _ C] reprio_refl)
  qed
qed

end
