(* ===== verification/Semaphore.thy ===== *)
theory Semaphore
  imports Waiters
begin

unbundle bit_operations_syntax
text \<open>
  Binary and counting semaphores, \<open>src/rtos/semaphore.c\<close>. A handle is the number of the semaphore's
  storage, \<open>None\<close> for NULL; the wait list of semaphore \<open>n\<close> is \<open>SemWaitL n\<close>.

  A task that blocks in \<open>artos_semaphore_take\<close> is switched out right after it has requested the context
  switch, and continues when it is scheduled again. What happens in between is the argument \<open>run\<close> of the
  definition: everything that other tasks and interrupts do until then.
\<close>

section \<open>State and operations\<close>

record artos_semaphore =
  sem_count :: u32
  sem_max :: u32

record sem_kernel = kernel +
  sems :: "nat \<Rightarrow> artos_semaphore"

type_synonym ('a, 'z) sres = "('a, 'z sem_kernel_scheme) res"
type_synonym 'z sproc = "'z sem_kernel_scheme \<Rightarrow> ('z sem_kernel_scheme, 'z) sres"

definition upd_sem :: "nat \<Rightarrow> (artos_semaphore \<Rightarrow> artos_semaphore) \<Rightarrow> 'z sem_kernel_scheme \<Rightarrow> 'z sem_kernel_scheme" where
  "upd_sem n f s = s\<lparr>sems := (sems s)(n := f (sems s n))\<rparr>"

definition artos_binary_semaphore_init ::
    "nat option \<Rightarrow> bool \<Rightarrow> 'z sem_kernel_scheme \<Rightarrow> nat option \<times> 'z sem_kernel_scheme" where
  "artos_binary_semaphore_init storage initially_available s =
     (case storage of None \<Rightarrow> (None, s)
      | Some sem \<Rightarrow>
          (let s = upd_sem sem (\<lambda>x. x\<lparr>sem_count := (if initially_available then 1 else 0)\<rparr>) s;
               s = upd_sem sem (\<lambda>x. x\<lparr>sem_max := 1\<rparr>) s;
               s = s\<lparr>lists := rtos_init_list (Some (SemWaitL sem)) (lists s)\<rparr>
           in (Some sem, s)))"

definition artos_counting_semaphore_init ::
    "nat option \<Rightarrow> u32 \<Rightarrow> u32 \<Rightarrow> 'z sem_kernel_scheme \<Rightarrow> nat option \<times> 'z sem_kernel_scheme" where
  "artos_counting_semaphore_init storage max_count initial_count s =
     (if storage = None \<or> max_count = 0 \<or> initial_count > max_count then (None, s)
      else let sem = the storage;
               s = upd_sem sem (\<lambda>x. x\<lparr>sem_count := initial_count\<rparr>) s;
               s = upd_sem sem (\<lambda>x. x\<lparr>sem_max := max_count\<rparr>) s;
               s = s\<lparr>lists := rtos_init_list (Some (SemWaitL sem)) (lists s)\<rparr>
           in (Some sem, s))"

text \<open>
  \<open>artos_semaphore_take\<close> up to the context switch (\<open>None\<close>: the task has blocked), and from where it
  continues.
\<close>

definition semaphore_take_enter ::
    "nat \<Rightarrow> u32 \<Rightarrow> 'z sem_kernel_scheme \<Rightarrow> (bool option \<times> 'z sem_kernel_scheme, 'z) sres" where
  "semaphore_take_enter sem tick_timeout s =
     (let (prev_state, s) = rtos_port_enter_critical s in
      if sem_count (sems s sem) \<noteq> 0 then
        let s = upd_sem sem (\<lambda>x. x\<lparr>sem_count := sem_count x - 1\<rparr>) s
        in Ret (Some True, rtos_port_exit_critical prev_state s)
      else if tick_timeout = 0 then Ret (Some False, rtos_port_exit_critical prev_state s)
      else res_bind
        (if tick_timeout = ARTOS_DELAY_INFINITY
         then rtos_block_current_task ARTOS_DELAY_INFINITY (Some (SemWaitL sem)) True s
         else rtos_block_current_task (tick_timeout + rtos_current_tick s) (Some (SemWaitL sem)) False s) (\<lambda>s.
        let s = rtos_port_exit_critical prev_state s
        in Ret (None, rtos_port_request_context_switch s)))"

definition semaphore_take_resume :: "'z sem_kernel_scheme \<Rightarrow> bool \<times> 'z sem_kernel_scheme" where
  "semaphore_take_resume s =
     (let res = (rtos_current_wait_reason s = WAIT_SIGNALED) in (res, rtos_clear_current_wait_reason s))"

definition artos_semaphore_take ::
    "'z sproc \<Rightarrow> nat option \<Rightarrow> u32 \<Rightarrow> 'z sem_kernel_scheme \<Rightarrow> (bool \<times> 'z sem_kernel_scheme, 'z) sres" where
  "artos_semaphore_take run semaphore tick_timeout s =
     (case semaphore of None \<Rightarrow> Ret (False, s)
      | Some sem \<Rightarrow>
          res_bind (semaphore_take_enter sem tick_timeout s) (\<lambda>(r, s).
            case r of Some b \<Rightarrow> Ret (b, s)
            | None \<Rightarrow> res_bind (run s) (\<lambda>s. Ret (semaphore_take_resume s))))"

definition artos_semaphore_signal ::
    "nat option \<Rightarrow> 'z sem_kernel_scheme \<Rightarrow> (bool \<times> 'z sem_kernel_scheme, 'z) sres" where
  "artos_semaphore_signal semaphore s =
     (case semaphore of None \<Rightarrow> Ret (False, s)
      | Some sem \<Rightarrow>
          (let (prev_state, s) = rtos_port_enter_critical s in
           if sem_count (sems s sem) \<noteq> 0 then
             (let res = (sem_count (sems s sem) \<noteq> sem_max (sems s sem));
                  s = (if res then upd_sem sem (\<lambda>x. x\<lparr>sem_count := sem_count x + 1\<rparr>) s else s)
              in Ret (res, rtos_port_exit_critical prev_state s))
           else if counts (lists s) (SemWaitL sem) = 0 then
             (let s = upd_sem sem (\<lambda>x. x\<lparr>sem_count := sem_count x + 1\<rparr>) s
              in Ret (True, rtos_port_exit_critical prev_state s))
           else deref (nxt (lists s) (Sentinel (SemWaitL sem))) s (\<lambda>first.
             let gt_prio = (val (lists s) first > ucast (rtos_current_effective_priority s)) in
             res_bind (rtos_unblock_task (Some first) WAIT_SIGNALED s) (\<lambda>s.
             let s = rtos_port_exit_critical prev_state s;
                 s = (if gt_prio then rtos_port_request_context_switch s else s)
             in Ret (True, s)))))"

definition artos_semaphore_take_isr ::
    "nat option \<Rightarrow> 'z sem_kernel_scheme \<Rightarrow> bool \<times> 'z sem_kernel_scheme" where
  "artos_semaphore_take_isr semaphore s =
     (case semaphore of None \<Rightarrow> (False, s)
      | Some sem \<Rightarrow>
          (let (prev_state, s) = rtos_port_enter_critical s in
           if sem_count (sems s sem) \<noteq> 0 then
             (let s = upd_sem sem (\<lambda>x. x\<lparr>sem_count := sem_count x - 1\<rparr>) s
              in (True, rtos_port_exit_critical prev_state s))
           else (False, rtos_port_exit_critical prev_state s)))"

text \<open>The caller's flag \<open>gt_task_woken\<close> is \<open>None\<close> for NULL; its new value is part of the result.\<close>

definition artos_semaphore_signal_isr ::
    "nat option \<Rightarrow> bool option \<Rightarrow> 'z sem_kernel_scheme \<Rightarrow> (bool \<times> bool option \<times> 'z sem_kernel_scheme, 'z) sres" where
  "artos_semaphore_signal_isr semaphore gt_task_woken s =
     (case semaphore of None \<Rightarrow> Ret (False, gt_task_woken, s)
      | Some sem \<Rightarrow>
          (let (prev_state, s) = rtos_port_enter_critical s in
           if sem_count (sems s sem) \<noteq> 0 then
             (let res = (sem_count (sems s sem) \<noteq> sem_max (sems s sem));
                  s = (if res then upd_sem sem (\<lambda>x. x\<lparr>sem_count := sem_count x + 1\<rparr>) s else s)
              in Ret (res, gt_task_woken, rtos_port_exit_critical prev_state s))
           else if counts (lists s) (SemWaitL sem) = 0 then
             (let s = upd_sem sem (\<lambda>x. x\<lparr>sem_count := sem_count x + 1\<rparr>) s
              in Ret (True, gt_task_woken, rtos_port_exit_critical prev_state s))
           else deref (nxt (lists s) (Sentinel (SemWaitL sem))) s (\<lambda>first.
             let gt_prio = (val (lists s) first > ucast (rtos_current_effective_priority s));
                 gt_task_woken = (if gt_task_woken \<noteq> None \<and> gt_prio then Some True else gt_task_woken)
             in res_bind (rtos_unblock_task (Some first) WAIT_SIGNALED s) (\<lambda>s.
                Ret (True, gt_task_woken, rtos_port_exit_critical prev_state s)))))"

section \<open>Invariant and specification\<close>

text \<open>
  The contract of a semaphore: so many tokens of at most \<open>limit\<close>, and the tasks waiting for one, in
  the order they will be served.
\<close>

record sem_spec =
  tokens :: nat
  limit :: nat
  queue :: "tcb_ref list"

definition sem_abs :: "'z sem_kernel_scheme \<Rightarrow> list_view \<Rightarrow> nat \<Rightarrow> sem_spec" where
  "sem_abs s C n = \<lparr>tokens = unat (sem_count (sems s n)), limit = unat (sem_max (sems s n)), queue = waiters C (SemWaitL n)\<rparr>"

definition sem_wf :: "sem_spec \<Rightarrow> bool" where
  "sem_wf a \<longleftrightarrow> 0 < limit a \<and> tokens a \<le> limit a \<and> (tokens a \<noteq> 0 \<longrightarrow> queue a = [])"

definition spec_signal :: "sem_spec \<Rightarrow> bool \<times> sem_spec" where
  "spec_signal a =
     (if tokens a \<noteq> 0 then if tokens a < limit a then (True, a\<lparr>tokens := tokens a + 1\<rparr>) else (False, a)
      else case queue a of [] \<Rightarrow> (True, a\<lparr>tokens := 1\<rparr>) | t # ts \<Rightarrow> (True, a\<lparr>queue := ts\<rparr>))"

definition spec_take :: "(tcb_ref \<Rightarrow> u8) \<Rightarrow> tcb_ref \<Rightarrow> bool \<Rightarrow> sem_spec \<Rightarrow> bool option \<times> sem_spec" where
  "spec_take pr t may_wait a =
     (if tokens a \<noteq> 0 then (Some True, a\<lparr>tokens := tokens a - 1\<rparr>)
      else if \<not> may_wait then (Some False, a)
      else (None, a\<lparr>queue := enqueue_waiter pr t (queue a)\<rparr>))"

definition sinv :: "'z sem_kernel_scheme \<Rightarrow> list_view \<Rightarrow> bool" where
  "sinv s C \<longleftrightarrow> kinv s C \<and> tick_ok s C \<and> (\<forall>n. C (SemWaitL n) \<noteq> None \<longrightarrow> sem_wf (sem_abs s C n))"

lemma upd_sem_fields [simp]:
  "sems (upd_sem n f s) = (sems s)(n := f (sems s n))" "lists (upd_sem n f s) = lists s" "tcbs (upd_sem n f s) = tcbs s"
  "tsk_cnt (upd_sem n f s) = tsk_cnt s" "cur_task (upd_sem n f s) = cur_task s" "ticks (upd_sem n f s) = ticks s"
  "ready_bitmap (upd_sem n f s) = ready_bitmap s" "cur_delayed (upd_sem n f s) = cur_delayed s"
  "next_delayed (upd_sem n f s) = next_delayed s" "primask (upd_sem n f s) = primask s" "pendsv (upd_sem n f s) = pendsv s"
  by (simp_all add: upd_sem_def)

lemma sems_port [simp]:
  "sems (rtos_port_exit_critical p s) = sems s" "sems (rtos_port_request_context_switch s) = sems s"
  "sems (unblocked t r m s) = sems s"
  by (simp_all add: rtos_port_exit_critical_def rtos_port_request_context_switch_def unblocked_def upd_tcb_def)

lemma kinv_upd_sem [simp]: "kinv (upd_sem n f s) C = kinv s C" "tick_ok (upd_sem n f s) C = tick_ok s C"
  by (rule kinv_cong; simp) (simp add: tick_ok_def)

lemma sem_abs_port [simp]:
  "sem_abs (rtos_port_exit_critical p s) C n = sem_abs s C n" "sem_abs (rtos_port_request_context_switch s) C n = sem_abs s C n"
  "sem_abs (s\<lparr>primask := p\<rparr>) C n = sem_abs s C n"
  by (simp_all add: sem_abs_def)

lemma sinv_port [simp]:
  "sinv (rtos_port_exit_critical p s) C = sinv s C" "sinv (rtos_port_request_context_switch s) C = sinv s C"
  "sinv (s\<lparr>primask := p\<rparr>) C = sinv s C"
  by (simp_all add: sinv_def)

lemma sinv_kinv: "sinv s C \<Longrightarrow> kinv s C" "sinv s C \<Longrightarrow> tick_ok s C" "sinv s C \<Longrightarrow> C (SemWaitL n) \<noteq> None \<Longrightarrow> sem_wf (sem_abs s C n)"
  by (simp_all add: sinv_def)

text \<open>
  What an operation on semaphore \<open>n\<close> leaves alone: the other objects, all other wait lists, and the counts of
  held mutexes.
\<close>

definition sem_frame :: "list_ref set \<Rightarrow> nat \<Rightarrow> 'z sem_kernel_scheme \<Rightarrow> list_view \<Rightarrow> 'z sem_kernel_scheme \<Rightarrow> list_view \<Rightarrow> bool" where
  "sem_frame X n s C s' C' \<longleftrightarrow> sem_kernel.more s' = sem_kernel.more s \<and> tsk_cnt s' = tsk_cnt s \<and>
     (\<forall>u. mutexes_held (tcbs s' u) = mutexes_held (tcbs s u)) \<and>
     (\<forall>l. is_wait_list l \<longrightarrow> (C' l = None \<longleftrightarrow> C l = None) \<and> (l \<noteq> SemWaitL n \<longrightarrow> C' l = C l)) \<and> keeps_tasks X s s' \<and>
     ready_grows C C' \<and> (\<forall>k. k \<noteq> n \<longrightarrow> sems s' k = sems s k)"

lemma keeps_tasks_upd_sem [simp]: "keeps_tasks X s (upd_sem n f s') = keeps_tasks X s s'"
  by (simp add: keeps_tasks_defs)

lemma sem_frame_port [simp]:
  "sem_frame X n s C (rtos_port_exit_critical p s') C' = sem_frame X n s C s' C'"
  "sem_frame X n s C (rtos_port_request_context_switch s') C' = sem_frame X n s C s' C'"
  "sem_frame X n (s\<lparr>primask := p\<rparr>) C s' C' = sem_frame X n s C s' C'"
  "sem_frame X n s C s C" "sem_frame X n s C (s\<lparr>primask := p\<rparr>) C" "sem_frame X n s C (upd_sem n f s) C"
  "sem_frame X n s C (upd_sem n f (s\<lparr>primask := p\<rparr>)) C"
proof -
  have "sem_kernel.more (rtos_port_exit_critical p s') = sem_kernel.more s'" "sem_kernel.more (rtos_port_request_context_switch s') = sem_kernel.more s'"
      "sem_kernel.more (upd_sem n f s') = sem_kernel.more s'" for s' :: "'a sem_kernel_scheme" and p
    by (simp_all add: rtos_port_exit_critical_def rtos_port_request_context_switch_def upd_sem_def)
  then show "sem_frame X n s C (rtos_port_exit_critical p s') C' = sem_frame X n s C s' C'"
    "sem_frame X n s C (rtos_port_request_context_switch s') C' = sem_frame X n s C s' C'"
    "sem_frame X n (s\<lparr>primask := p\<rparr>) C s' C' = sem_frame X n s C s' C'"
    "sem_frame X n s C s C" "sem_frame X n s C (s\<lparr>primask := p\<rparr>) C" "sem_frame X n s C (upd_sem n f s) C"
    "sem_frame X n s C (upd_sem n f (s\<lparr>primask := p\<rparr>)) C"
    by (simp_all add: sem_frame_def)
qed

text \<open>Only the count of semaphore \<open>n\<close> changes, within its bounds.\<close>

lemma sinv_set_count:
  assumes "sinv s C" "C (SemWaitL n) \<noteq> None" "c \<le> sem_max (sems s n)" "c = 0 \<or> waiters C (SemWaitL n) = []"
  shows "sinv (upd_sem n (\<lambda>x. x\<lparr>sem_count := c\<rparr>) s) C"
    "sem_abs (upd_sem n (\<lambda>x. x\<lparr>sem_count := c\<rparr>) s) C n = (sem_abs s C n)\<lparr>tokens := unat c\<rparr>"
    "k \<noteq> n \<Longrightarrow> sem_abs (upd_sem n (\<lambda>x. x\<lparr>sem_count := c\<rparr>) s) C k = sem_abs s C k"
proof -
  let ?s = "upd_sem n (\<lambda>x. x\<lparr>sem_count := c\<rparr>) s"
  show 1: "sem_abs ?s C n = (sem_abs s C n)\<lparr>tokens := unat c\<rparr>" by (simp add: sem_abs_def)
  have 2: "sem_abs ?s C k = sem_abs s C k" if "k \<noteq> n" for k using that by (simp add: sem_abs_def)
  then show "k \<noteq> n \<Longrightarrow> sem_abs ?s C k = sem_abs s C k" .
  have "sem_wf ((sem_abs s C n)\<lparr>tokens := unat c\<rparr>)"
    using sinv_kinv(3)[OF assms(1,2)] assms(3,4) by (auto simp: sem_wf_def sem_abs_def word_le_nat_alt)
  then have "sem_wf (sem_abs ?s C k)" if "C (SemWaitL k) \<noteq> None" for k
    using 1 2[of k] sinv_kinv(3)[OF assms(1) that] by (cases "k = n") auto
  then show "sinv ?s C" using assms(1) by (simp add: sinv_def)
qed

text \<open>Waking the first waiter.\<close>

lemma sem_wake:
  assumes inv: "sinv s C" and n: "C (SemWaitL n) \<noteq> None" and w: "waiters C (SemWaitL n) = t # ts"
  shows "\<exists>m C'. rtos_unblock_task (Some (EventItem t)) WAIT_SIGNALED s = Ret (unblocked t WAIT_SIGNALED m s) \<and>
           sinv (unblocked t WAIT_SIGNALED m s) C' \<and>
           sem_abs (unblocked t WAIT_SIGNALED m s) C' n = (sem_abs s C n)\<lparr>queue := ts\<rparr> \<and>
           (\<forall>k. k \<noteq> n \<longrightarrow> sem_abs (unblocked t WAIT_SIGNALED m s) C' k = sem_abs s C k) \<and>
           (\<forall>k. C' (SemWaitL k) = None \<longleftrightarrow> C (SemWaitL k) = None) \<and>
           cont m (StateItem t) = Some (ReadyL (unat (effective_priority (tcbs s t)))) \<and> cont m (EventItem t) = None \<and>
           sem_frame {SemWaitL n} n s C (unblocked t WAIT_SIGNALED m s) C'"
proof -
  let ?p = "unat (effective_priority (tcbs s t))" let ?C = "unblock_view t ?p C"
  have wl: "is_wait_list (SemWaitL n)" by simp
  obtain m where m: "rtos_unblock_task (Some (EventItem t)) WAIT_SIGNALED s = Ret (unblocked t WAIT_SIGNALED m s)"
      "kinv (unblocked t WAIT_SIGNALED m s) ?C" "tick_ok (unblocked t WAIT_SIGNALED m s) ?C"
      "waiters ?C (SemWaitL n) = ts" "\<And>k. is_wait_list k \<Longrightarrow> k \<noteq> SemWaitL n \<Longrightarrow> ?C k = C k"
      "\<And>j. \<not> is_sentinel j \<Longrightarrow> cont m j =
         (if j = StateItem t then Some (ReadyL ?p) else if j = EventItem t then None else cont (lists s) j)" "ready_grows C ?C" "same_data (lists s) m"
    using wake_head[OF sinv_kinv(1,2)[OF inv] wl n w, of WAIT_SIGNALED] by blast
  let ?s = "unblocked t WAIT_SIGNALED m s"
  have live: "?C (SemWaitL k) = None \<longleftrightarrow> C (SemWaitL k) = None" for k by (simp add: unblock_view_def append_to_def)
  have 1: "sem_abs ?s ?C n = (sem_abs s C n)\<lparr>queue := ts\<rparr>" using m(4) by (simp add: sem_abs_def)
  have 2: "sem_abs ?s ?C k = sem_abs s C k" if "k \<noteq> n" for k
    using m(5)[of "SemWaitL k"] that by (simp add: sem_abs_def waiters_def)
  have "sem_wf (sem_abs ?s ?C k)" if "?C (SemWaitL k) \<noteq> None" for k
  proof (cases "k = n")
    case True
    then show ?thesis using sinv_kinv(3)[OF inv n] 1 w by (auto simp: sem_wf_def sem_abs_def)
  qed (use sinv_kinv(3)[OF inv, of k] 2[of k] that live[of k] in auto)
  then have "sinv ?s ?C" using m(2,3) by (simp add: sinv_def)
  moreover have "keeps_tasks {SemWaitL n} s ?s" by (rule wake_keeps[OF sinv_kinv(1)[OF inv] wl n _ m(6,8)]) (simp add: w)
  then have "sem_frame {SemWaitL n} n s C ?s ?C" using m(5,7)
    by (simp add: sem_frame_def unblocked_def upd_tcb_def) (auto simp: unblock_view_def append_to_def)
  ultimately show ?thesis using m(1) m(6)[of "StateItem t"] m(6)[of "EventItem t"] 1 2 live by (intro exI[of _ m] exI[of _ ?C]) simp
qed

lemma current_priority_port [simp]: "rtos_current_effective_priority (s\<lparr>primask := p\<rparr>) = rtos_current_effective_priority s"
  by (cases "cur_task s") (simp_all add: rtos_current_effective_priority_def)

lemma unat_inc_below:
  assumes "unat (a :: u32) < unat (b :: u32)"
  shows "unat (a + 1) = unat a + 1"
proof -
  have "unat b < 2 ^ 32" by (rule order_less_le_trans[OF unsigned_less]) simp
  then show ?thesis using assms unat_add_lem[of a 1] by simp
qed

text \<open>One signal, on all its branches.\<close>

definition wakes_higher :: "'z sem_kernel_scheme \<Rightarrow> list_view \<Rightarrow> nat \<Rightarrow> bool" where
  "wakes_higher s C n \<longleftrightarrow> sem_count (sems s n) = 0 \<and>
     (\<exists>t ts. waiters C (SemWaitL n) = t # ts \<and> rtos_current_effective_priority s < effective_priority (tcbs s t))"

definition served :: "'z sem_kernel_scheme \<Rightarrow> list_view \<Rightarrow> nat \<Rightarrow> 'z sem_kernel_scheme \<Rightarrow> bool" where
  "served s C n s' \<longleftrightarrow>
     (if sem_count (sems s n) = 0 \<and> waiters C (SemWaitL n) \<noteq> []
      then (let t = hd (waiters C (SemWaitL n)) in
        tcbs s' = (tcbs s)(t := (tcbs s t)\<lparr>wait_reason := WAIT_SIGNALED\<rparr>) \<and>
        cont (lists s') (StateItem t) = Some (ReadyL (unat (effective_priority (tcbs s t)))) \<and>
        cont (lists s') (EventItem t) = None)
      else tcbs s' = tcbs s \<and> lists s' = lists s)"

definition signal_ok ::
    "nat \<Rightarrow> bool option \<Rightarrow> 'z sem_kernel_scheme \<Rightarrow> list_view \<Rightarrow> 'z sem_kernel_scheme \<Rightarrow> list_view \<Rightarrow> bool" where
  "signal_ok n flag s C s' C' \<longleftrightarrow>
     artos_semaphore_signal (Some n) s =
       Ret (fst (spec_signal (sem_abs s C n)), if wakes_higher s C n then rtos_port_request_context_switch s' else s') \<and>
     artos_semaphore_signal_isr (Some n) flag s =
       Ret (fst (spec_signal (sem_abs s C n)), if flag \<noteq> None \<and> wakes_higher s C n then Some True else flag, s') \<and>
     sinv s' C' \<and> sem_abs s' C' n = snd (spec_signal (sem_abs s C n)) \<and>
     (\<forall>k. k \<noteq> n \<longrightarrow> sem_abs s' C' k = sem_abs s C k) \<and> (\<forall>k. C' (SemWaitL k) = None \<longleftrightarrow> C (SemWaitL k) = None) \<and>
     served s C n s' \<and> primask s' = primask s \<and> pendsv s' = pendsv s \<and> cur_task s' = cur_task s \<and> ticks s' = ticks s \<and>
     sem_frame {SemWaitL n} n s C s' C'"

lemmas signal_defs = signal_ok_def artos_semaphore_signal_def artos_semaphore_signal_isr_def rtos_port_enter_critical_def
  wakes_higher_def served_def

text \<open>The token is stored, or there are too many already.\<close>

lemma signal_stores:
  assumes inv: "sinv s C" and n: "C (SemWaitL n) \<noteq> None" and c: "sem_count (sems s n) \<noteq> sem_max (sems s n)"
    and w: "waiters C (SemWaitL n) = []"
  shows "\<exists>s' C'. signal_ok n flag s C s' C'"
proof -
  let ?s0 = "s\<lparr>primask := 1\<rparr>" let ?c = "sem_count (sems s n)"
  let ?s' = "rtos_port_exit_critical (primask s) (upd_sem n (\<lambda>x. x\<lparr>sem_count := ?c + 1\<rparr>) ?s0)"
  note wf = sinv_kinv(3)[OF inv n]
  have inv0: "sinv ?s0 C" using inv by simp
  have lt: "unat ?c < unat (sem_max (sems s n))" using c wf by (auto simp: sem_wf_def sem_abs_def word_unat_eq_iff)
  then have bound: "unat (?c + 1) = unat ?c + 1" "?c + 1 \<le> sem_max (sems s n)" using unat_inc_below[OF lt] by (simp_all add: word_le_nat_alt)
  note u = sinv_set_count[OF inv0 n, of "?c + 1"]
  have e: "upd_sem n (\<lambda>x. x\<lparr>sem_count := sem_count x + 1\<rparr>) ?s0 = upd_sem n (\<lambda>x. x\<lparr>sem_count := ?c + 1\<rparr>) ?s0"
    by (simp add: upd_sem_def)
  have "spec_signal (sem_abs s C n) = (True, (sem_abs s C n)\<lparr>tokens := unat (?c + 1)\<rparr>)"
    using lt w bound(1) by (simp add: spec_signal_def sem_abs_def)
  then show ?thesis using c u w bound(2) wait_list_head(1)[OF sinv_kinv(1)[OF inv] _ n]
    by (intro exI[of _ ?s'] exI[of _ C]) (simp add: signal_defs e)
qed

lemma signal_full:
  assumes inv: "sinv s C" and n: "C (SemWaitL n) \<noteq> None" and c: "sem_count (sems s n) \<noteq> 0" "sem_count (sems s n) = sem_max (sems s n)"
  shows "\<exists>s' C'. signal_ok n flag s C s' C'"
proof -
  have "spec_signal (sem_abs s C n) = (False, sem_abs s C n)"
    using c by (auto simp: spec_signal_def sem_abs_def unat_eq_zero)
  then show ?thesis using c inv
    by (intro exI[of _ "rtos_port_exit_critical (primask s) (s\<lparr>primask := 1\<rparr>)"] exI[of _ C]) (simp add: signal_defs)
qed

text \<open>The token goes to the first waiter.\<close>

lemma signal_wakes:
  assumes inv: "sinv s C" and n: "C (SemWaitL n) \<noteq> None" and c: "sem_count (sems s n) = 0" and w: "waiters C (SemWaitL n) = t # ts"
  shows "\<exists>s' C'. signal_ok n flag s C s' C'"
proof -
  let ?s0 = "s\<lparr>primask := 1\<rparr>"
  have inv0: "sinv ?s0 C" using inv by simp
  obtain m C' where m: "rtos_unblock_task (Some (EventItem t)) WAIT_SIGNALED ?s0 = Ret (unblocked t WAIT_SIGNALED m ?s0)"
     "sinv (unblocked t WAIT_SIGNALED m ?s0) C'" "sem_abs (unblocked t WAIT_SIGNALED m ?s0) C' n = (sem_abs s C n)\<lparr>queue := ts\<rparr>"
     "\<forall>k. k \<noteq> n \<longrightarrow> sem_abs (unblocked t WAIT_SIGNALED m ?s0) C' k = sem_abs s C k"
     "\<forall>k. C' (SemWaitL k) = None \<longleftrightarrow> C (SemWaitL k) = None"
     "cont m (StateItem t) = Some (ReadyL (unat (effective_priority (tcbs s t))))" "cont m (EventItem t) = None"
     "sem_frame {SemWaitL n} n s C (unblocked t WAIT_SIGNALED m ?s0) C'"
    using sem_wake[OF inv0 n w] by auto
  have "t \<in> set (waiters C (SemWaitL n))" using w by simp
  note v = waiter_blocked(4)[OF sinv_kinv(1)[OF inv] _ n this]
  have "spec_signal (sem_abs s C n) = (True, (sem_abs s C n)\<lparr>queue := ts\<rparr>)"
    using c w by (auto simp: spec_signal_def sem_abs_def)
  then show ?thesis using c w m v wait_list_head[OF sinv_kinv(1)[OF inv] _ n]
    by (intro exI[of _ "rtos_port_exit_critical (primask s) (unblocked t WAIT_SIGNALED m ?s0)"] exI[of _ C'])
       (simp add: signal_defs ucast_u8_less)
qed

lemma signal_runs:
  assumes inv: "sinv s C" and n: "C (SemWaitL n) \<noteq> None"
  shows "\<exists>s' C'. signal_ok n flag s C s' C'"
proof -
  note wf = sinv_kinv(3)[OF inv n]
  have "sem_max (sems s n) \<noteq> 0" using wf by (auto simp: sem_wf_def sem_abs_def)
  then consider "sem_count (sems s n) \<noteq> sem_max (sems s n)" "waiters C (SemWaitL n) = []"
    | "sem_count (sems s n) \<noteq> 0" "sem_count (sems s n) = sem_max (sems s n)"
    | t ts where "sem_count (sems s n) = 0" "waiters C (SemWaitL n) = t # ts"
    using wf by (cases "waiters C (SemWaitL n)") (auto simp: sem_wf_def sem_abs_def unat_eq_zero)
  then show ?thesis using signal_stores[OF inv n] signal_full[OF inv n] signal_wakes[OF inv n] by cases blast+
qed

lemmas signal_cases = signal_runs[unfolded signal_ok_def]

lemma served_port [simp]:
  "served s C n (rtos_port_request_context_switch s') = served s C n s'"
  by (simp add: served_def Let_def)

text \<open>
  \<^bold>\<open>C12.\<close> Signalling a semaphore refines its contract. With tokens left it adds one unless the limit is
  reached, in which case it fails; with none left and nobody waiting it stores one; otherwise the token goes directly to
  the first waiter, which becomes ready with reason \<open>WAIT_SIGNALED\<close> and leaves the wait list, and the count stays 0. No
  assertion fails, the invariant is kept, other semaphores are untouched, the interrupt mask is
  restored, and a context switch is requested if and only if the woken task outranks the caller.
\<close>

theorem semaphore_signal_refines:
  assumes "sinv s C" "C (SemWaitL n) \<noteq> None"
  shows "\<exists>s' C'. artos_semaphore_signal (Some n) s = Ret (fst (spec_signal (sem_abs s C n)), s') \<and>
           sinv s' C' \<and> sem_abs s' C' n = snd (spec_signal (sem_abs s C n)) \<and>
           (\<forall>k. k \<noteq> n \<longrightarrow> sem_abs s' C' k = sem_abs s C k) \<and> served s C n s' \<and>
           primask s' = primask s \<and> pendsv s' = (pendsv s \<or> wakes_higher s C n)"
proof -
  obtain s' C' where r: "artos_semaphore_signal (Some n) s =
        Ret (fst (spec_signal (sem_abs s C n)), if wakes_higher s C n then rtos_port_request_context_switch s' else s')"
      "sinv s' C'" "sem_abs s' C' n = snd (spec_signal (sem_abs s C n))" "\<forall>k. k \<noteq> n \<longrightarrow> sem_abs s' C' k = sem_abs s C k"
      "served s C n s'" "primask s' = primask s" "pendsv s' = pendsv s"
    using signal_cases[OF assms, of None] by blast
  then show ?thesis
    by (intro exI[of _ "if wakes_higher s C n then rtos_port_request_context_switch s' else s'"] exI[of _ C'])
       (cases "wakes_higher s C n"; simp)
qed

text \<open>
  The interrupt variant of signal does exactly what signal does, except that it never requests a
  context switch: instead it sets the caller's flag, if there is one, in exactly the cases in which
  signal would have requested the switch.
\<close>

theorem semaphore_signal_isr_equiv:
  assumes "sinv s C" "C (SemWaitL n) \<noteq> None"
  shows "\<exists>b s'. artos_semaphore_signal_isr (Some n) flag s =
             Ret (b, if flag \<noteq> None \<and> wakes_higher s C n then Some True else flag, s') \<and>
           artos_semaphore_signal (Some n) s = Ret (b, if wakes_higher s C n then rtos_port_request_context_switch s' else s') \<and>
           pendsv s' = pendsv s"
  using signal_cases[OF assms, of flag] by blast

text \<open>Taking a token, up to the point where the task has either its answer or is blocked.\<close>

definition take_blocked :: "'z sem_kernel_scheme \<Rightarrow> tcb_ref \<Rightarrow> nat \<Rightarrow> u32 \<Rightarrow> 'z sem_kernel_scheme \<Rightarrow> bool" where
  "take_blocked s t n timeout s' \<longleftrightarrow>
     pendsv s' \<and> cont (lists s') (EventItem t) = Some (SemWaitL n) \<and>
     (if timeout = ARTOS_DELAY_INFINITY then cont (lists s') (StateItem t) = Some SuspendL
      else sleeping s' t (timeout + ticks s) (Some (SemWaitL n)))"

lemma sems_lists [simp]: "sems (s\<lparr>lists := m\<rparr>) = sems s" "sems (s\<lparr>primask := p\<rparr>) = sems s"
  by simp_all

lemma take_enter_blocks:
  assumes inv: "sinv s C" and r: "running s t" and n: "C (SemWaitL n) \<noteq> None"
    and c: "sem_count (sems s n) = 0" "timeout \<noteq> 0"
  shows "\<exists>s' C'. semaphore_take_enter n timeout s = Ret (None, s') \<and> sinv s' C' \<and>
           sem_abs s' C' n = (sem_abs s C n)\<lparr>queue := enqueue_waiter (\<lambda>u. effective_priority (tcbs s u)) t (queue (sem_abs s C n))\<rparr> \<and>
           (\<forall>k. k \<noteq> n \<longrightarrow> sem_abs s' C' k = sem_abs s C k) \<and> (\<forall>k. C' (SemWaitL k) = None \<longleftrightarrow> C (SemWaitL k) = None) \<and>
           take_blocked s t n timeout s' \<and> primask s' = primask s \<and> tcbs s' = tcbs s \<and> cur_task s' = cur_task s \<and> ticks s' = ticks s \<and>
           sem_frame {} n s C s' C'"
proof -
  let ?s0 = "s\<lparr>primask := 1\<rparr>" and ?inf = "timeout = ARTOS_DELAY_INFINITY"
  let ?w = "if ?inf then ARTOS_DELAY_INFINITY else timeout + ticks s"
  have k0: "kinv ?s0 C" "tick_ok ?s0 C" "running ?s0 t" "?inf \<or> ?w \<noteq> ticks ?s0" "is_wait_list (SemWaitL n)"
    using sinv_kinv(1,2)[OF inv] r c(2) by (simp_all add: running_def user_task_def)
  obtain m C' where m: "rtos_block_current_task ?w (Some (SemWaitL n)) ?inf ?s0 = Ret (?s0\<lparr>lists := m\<rparr>)"
      "kinv (?s0\<lparr>lists := m\<rparr>) C'" "tick_ok (?s0\<lparr>lists := m\<rparr>) C'"
      "waiters C' (SemWaitL n) = enqueue_waiter (\<lambda>u. effective_priority (tcbs s u)) t (waiters C (SemWaitL n))"
      "\<And>k. is_wait_list k \<Longrightarrow> k \<noteq> SemWaitL n \<Longrightarrow> C' k = C k" "C' (SemWaitL n) \<noteq> None"
      "cont m (StateItem t) = Some (block_target ?w ?inf ?s0)" "cont m (EventItem t) = Some (SemWaitL n)" "val m (StateItem t) = ?w"
      "\<And>u. u \<noteq> t \<Longrightarrow> stays (lists s) m u" "ready_grows C C'"
    using block_on[OF k0(1-3) k0(5) n k0(4)] by auto
  let ?s' = "rtos_port_request_context_switch (rtos_port_exit_critical (primask s) (?s0\<lparr>lists := m\<rparr>))"
  have 1: "sem_abs ?s' C' n = (sem_abs s C n)\<lparr>queue := enqueue_waiter (\<lambda>u. effective_priority (tcbs s u)) t (queue (sem_abs s C n))\<rparr>"
    using m(4) by (simp add: sem_abs_def)
  have 2: "sem_abs ?s' C' k = sem_abs s C k" if "k \<noteq> n" for k
    using m(5)[of "SemWaitL k"] that by (simp add: sem_abs_def waiters_def)
  have live: "C' (SemWaitL k) = None \<longleftrightarrow> C (SemWaitL k) = None" for k
    using m(5)[of "SemWaitL k"] m(6) n by (cases "k = n") auto
  have "sem_wf (sem_abs ?s' C' k)" if "C' (SemWaitL k) \<noteq> None" for k
  proof (cases "k = n")
    case True
    then show ?thesis using sinv_kinv(3)[OF inv n] 1 c(1) by (auto simp: sem_wf_def sem_abs_def)
  qed (use sinv_kinv(3)[OF inv, of k] 2[of k] that live[of k] in auto)
  then have "sinv ?s' C'" using m(2,3) by (simp add: sinv_def)
  moreover have "take_blocked s t n timeout ?s'"
    using m(7-9) kinv_block_target[OF k0(1), of ?w] by (cases ?inf) (auto simp: take_blocked_def sleeping_def block_target_def)
  moreover have "semaphore_take_enter n timeout s = Ret (None, ?s')"
    using c m(1) by (cases ?inf) (simp_all add: semaphore_take_enter_def rtos_port_enter_critical_def rtos_current_tick_def)
  moreover have "sem_frame {} n s C ?s' C'"
  proof -
    have "C' l = None \<longleftrightarrow> C l = None" if "is_wait_list l" for l using m(5)[OF that] m(6) n by (cases "l = SemWaitL n") auto
    moreover have "keeps_tasks {} s (?s0\<lparr>lists := m\<rparr>)" using block_keeps[OF k0(3), of m] m(7,10) by simp
    ultimately have "sem_frame {} n s C (?s0\<lparr>lists := m\<rparr>) C'" using m(5,11) by (simp add: sem_frame_def)
    then show ?thesis by simp
  qed
  ultimately show ?thesis using 1 2 live by (intro exI[of _ ?s'] exI[of _ C']) simp
qed

lemma take_enter_runs:
  fixes timeout :: u32
  assumes "sinv s C" "running s t" "C (SemWaitL n) \<noteq> None"
  defines "a \<equiv> spec_take (\<lambda>u. effective_priority (tcbs s u)) t (timeout \<noteq> 0) (sem_abs s C n)"
  shows "\<exists>s' C'. semaphore_take_enter n timeout s = Ret (fst a, s') \<and> sinv s' C' \<and> sem_abs s' C' n = snd a \<and>
           (\<forall>k. k \<noteq> n \<longrightarrow> sem_abs s' C' k = sem_abs s C k) \<and> primask s' = primask s \<and> tcbs s' = tcbs s \<and>
           (if fst a = None then take_blocked s t n timeout s' else lists s' = lists s) \<and> sem_frame {} n s C s' C'"
proof -
  let ?c = "sem_count (sems s n)" and ?ex = "rtos_port_exit_critical (primask s)" and ?s0 = "s\<lparr>primask := 1\<rparr>"
  consider "?c \<noteq> 0" | "?c = 0" "timeout = 0" | "?c = 0" "timeout \<noteq> 0" by blast
  then show ?thesis
  proof cases
    case 1
    let ?s' = "?ex (upd_sem n (\<lambda>x. x\<lparr>sem_count := ?c - 1\<rparr>) ?s0)"
    note wf = sinv_kinv(3)[OF assms(1,3)]
    have d: "unat (?c - 1) = unat ?c - 1" using 1 by (simp add: unat_minus_one)
    have le: "?c - 1 \<le> sem_max (sems ?s0 n)" "?c - 1 = 0 \<or> waiters C (SemWaitL n) = []"
      using wf d 1 by (auto simp: sem_wf_def sem_abs_def word_le_nat_alt unat_eq_zero)
    have "sinv ?s0 C" using assms(1) by simp
    note u = sinv_set_count[OF this assms(3) le]
    have e: "upd_sem n (\<lambda>x. x\<lparr>sem_count := sem_count x - 1\<rparr>) ?s0 = upd_sem n (\<lambda>x. x\<lparr>sem_count := ?c - 1\<rparr>) ?s0"
      by (simp add: upd_sem_def)
    have "a = (Some True, (sem_abs s C n)\<lparr>tokens := unat (?c - 1)\<rparr>)"
      unfolding a_def using 1 d by (simp add: spec_take_def sem_abs_def unat_eq_zero)
    then show ?thesis using 1 u
      by (intro exI[of _ ?s'] exI[of _ C]) (simp add: semaphore_take_enter_def rtos_port_enter_critical_def e)
  next
    case 2
    then have "a = (Some False, sem_abs s C n)" unfolding a_def by (simp add: spec_take_def sem_abs_def)
    then show ?thesis using 2 assms(1)
      by (intro exI[of _ "?ex ?s0"] exI[of _ C]) (simp add: semaphore_take_enter_def rtos_port_enter_critical_def)
  next
    case 3
    then have "a = (None, (sem_abs s C n)\<lparr>queue := enqueue_waiter (\<lambda>u. effective_priority (tcbs s u)) t (queue (sem_abs s C n))\<rparr>)"
      unfolding a_def by (simp add: spec_take_def sem_abs_def)
    then show ?thesis using take_enter_blocks[OF assms(1-3) 3] by auto
  qed
qed

text \<open>
  \<^bold>\<open>C13.\<close> Taking from a semaphore refines its contract: a stored token is taken at once; without one a zero
  timeout fails at once and changes nothing; otherwise the task is blocked, asleep until the
  timeout (or suspended for the infinite one), in the wait list behind every waiter of at least its priority.
  No assertion fails, the invariant is kept and the interrupt mask restored.
\<close>

theorem semaphore_take_refines:
  fixes timeout :: u32
  assumes "sinv s C" "running s t" "C (SemWaitL n) \<noteq> None"
  defines "a \<equiv> spec_take (\<lambda>u. effective_priority (tcbs s u)) t (timeout \<noteq> 0) (sem_abs s C n)"
  shows "\<exists>s' C'. artos_semaphore_take run (Some n) timeout s =
             (case fst a of Some b \<Rightarrow> Ret (b, s') | None \<Rightarrow> res_bind (run s') (\<lambda>s. Ret (semaphore_take_resume s))) \<and> sinv s' C' \<and> sem_abs s' C' n = snd a \<and>
           (\<forall>k. k \<noteq> n \<longrightarrow> sem_abs s' C' k = sem_abs s C k) \<and> primask s' = primask s \<and> tcbs s' = tcbs s \<and>
           (if fst a = None then take_blocked s t n timeout s' else lists s' = lists s)"
proof -
  obtain s' C' where r: "semaphore_take_enter n timeout s = Ret (fst a, s')" "sinv s' C'" "sem_abs s' C' n = snd a"
      "\<forall>k. k \<noteq> n \<longrightarrow> sem_abs s' C' k = sem_abs s C k" "primask s' = primask s" "tcbs s' = tcbs s"
      "if fst a = None then take_blocked s t n timeout s' else lists s' = lists s"
    using take_enter_runs[OF assms(1-3), of timeout] unfolding a_def by blast
  then show ?thesis
    by (intro exI[of _ s'] exI[of _ C']) (simp add: artos_semaphore_take_def split: option.split)
qed

section \<open>Initialisation\<close>

lemma sinv_new_semaphore:
  assumes inv: "sinv s C" and n: "C (SemWaitL n) = None \<or> C (SemWaitL n) = Some []"
    and x: "sem_count x \<le> sem_max x" "sem_max x \<noteq> 0"
  shows "sinv (s\<lparr>sems := (sems s)(n := x), lists := rtos_init_list (Some (SemWaitL n)) (lists s)\<rparr>) (C(SemWaitL n \<mapsto> []))"
    (is "sinv ?s' ?C")
proof -
  let ?s = "s\<lparr>lists := rtos_init_list (Some (SemWaitL n)) (lists s)\<rparr>"
  have k: "kinv ?s ?C" "tick_ok ?s ?C"
    using kinv_new_wait_list[OF sinv_kinv(1)[OF inv] _ n] tick_ok_new_wait_list[OF sinv_kinv(1,2)[OF inv]] by simp_all
  have "kinv ?s' ?C" using k(1) by (subst kinv_cong[of _ ?s]) simp_all
  moreover have "tick_ok ?s' ?C" using k(2) by (simp add: tick_ok_def)
  moreover have "sem_wf (sem_abs ?s' ?C k)" if "?C (SemWaitL k) \<noteq> None" for k
  proof (cases "k = n")
    case True
    then show ?thesis using x by (simp add: sem_wf_def sem_abs_def waiters_def word_le_nat_alt unat_gt_0)
  next
    case False
    then show ?thesis using sinv_kinv(3)[OF inv, of k] that by (simp add: sem_abs_def waiters_def)
  qed
  ultimately show ?thesis by (simp add: sinv_def)
qed

text \<open>
  Semaphore initialisation: NULL storage, a zero maximum or an initial count above it give NULL and
  change nothing. Otherwise the semaphore has the given count and limit, nobody waits for it, and
  the invariant holds with its wait list live. A binary semaphore is a counting one with limit 1.
\<close>

theorem semaphore_init_correct:
  assumes "sinv s C" "C (SemWaitL n) = None \<or> C (SemWaitL n) = Some []"
  shows "(if max_count = 0 \<or> max_count < initial_count
          then artos_counting_semaphore_init (Some n) max_count initial_count s = (None, s)
          else \<exists>s'. artos_counting_semaphore_init (Some n) max_count initial_count s = (Some n, s') \<and>
                 sinv s' (C(SemWaitL n \<mapsto> [])) \<and>
                 sem_abs s' (C(SemWaitL n \<mapsto> [])) n = \<lparr>tokens = unat initial_count, limit = unat max_count, queue = []\<rparr>) \<and>
         artos_counting_semaphore_init None max_count initial_count s = (None, s) \<and>
         artos_binary_semaphore_init (Some n) available s =
           artos_counting_semaphore_init (Some n) 1 (if available then 1 else 0) s"
proof -
  let ?s' = "s\<lparr>sems := (sems s)(n := (sems s n)\<lparr>sem_count := initial_count, sem_max := max_count\<rparr>),
               lists := rtos_init_list (Some (SemWaitL n)) (lists s)\<rparr>"
  have r: "artos_counting_semaphore_init (Some n) max_count initial_count s = (Some n, ?s')"
    if "max_count \<noteq> 0" "initial_count \<le> max_count"
    using that by (simp add: artos_counting_semaphore_init_def upd_sem_def not_less)
  have "sinv ?s' (C(SemWaitL n \<mapsto> []))" if "max_count \<noteq> 0" "initial_count \<le> max_count"
    by (rule sinv_new_semaphore[OF assms]) (simp_all add: that)
  moreover have "sem_abs ?s' (C(SemWaitL n \<mapsto> [])) n = \<lparr>tokens = unat initial_count, limit = unat max_count, queue = []\<rparr>"
    by (simp add: sem_abs_def waiters_def)
  moreover have "artos_binary_semaphore_init (Some n) available s =
           artos_counting_semaphore_init (Some n) 1 (if available then 1 else 0) s"
    by (simp add: artos_binary_semaphore_init_def artos_counting_semaphore_init_def)
  ultimately show ?thesis using r
    by (auto simp: artos_counting_semaphore_init_def not_less)
qed

section \<open>Sequences of operations\<close>

text \<open>
  The interface both the task-level and the interrupt-level operations implement: a non-blocking
  service over the contract \<open>sem_spec\<close>.
\<close>

datatype sem_op = OpSignal | OpTryTake

definition spec_try_take :: "sem_spec \<Rightarrow> bool \<times> sem_spec" where
  "spec_try_take a = (if tokens a \<noteq> 0 then (True, a\<lparr>tokens := tokens a - 1\<rparr>) else (False, a))"

fun spec_exec :: "sem_op list \<Rightarrow> sem_spec \<Rightarrow> (sem_op \<times> bool) list \<times> sem_spec" where
  "spec_exec [] a = ([], a)"
| "spec_exec (x # xs) a =
     (let (b, a) = (case x of OpSignal \<Rightarrow> spec_signal a | OpTryTake \<Rightarrow> spec_try_take a);
          (rs, a) = spec_exec xs a
      in ((x, b) # rs, a))"

fun exec_ops ::
    "('s \<Rightarrow> (bool \<times> 's, 's) res) \<Rightarrow> ('s \<Rightarrow> (bool \<times> 's, 's) res) \<Rightarrow> sem_op list \<Rightarrow> 's \<Rightarrow> ((sem_op \<times> bool) list \<times> 's, 's) res" where
  "exec_ops sg tk [] s = Ret ([], s)"
| "exec_ops sg tk (x # xs) s =
     res_bind (case x of OpSignal \<Rightarrow> sg s | OpTryTake \<Rightarrow> tk s) (\<lambda>(b, s).
     res_bind (exec_ops sg tk xs s) (\<lambda>(rs, s). Ret ((x, b) # rs, s)))"

definition succeeded :: "sem_op \<Rightarrow> (sem_op \<times> bool) list \<Rightarrow> nat" where
  "succeeded x rs = length (filter (\<lambda>r. r = (x, True)) rs)"

lemma spec_exec_conserves:
  "sem_wf a \<Longrightarrow> queue a = [] \<Longrightarrow> spec_exec xs a = (rs, a') \<Longrightarrow>
   tokens a' + succeeded OpTryTake rs = tokens a + succeeded OpSignal rs \<and> tokens a' \<le> limit a' \<and> limit a' = limit a"
proof (induction xs arbitrary: a rs)
  case Nil
  then show ?case by (auto simp: sem_wf_def succeeded_def)
next
  case (Cons x xs)
  obtain b a1 where 1: "(case x of OpSignal \<Rightarrow> spec_signal a | OpTryTake \<Rightarrow> spec_try_take a) = (b, a1)" by fastforce
  obtain rs1 where 2: "spec_exec xs a1 = (rs1, a')" "rs = (x, b) # rs1" using Cons(4) 1 by (auto split: prod.splits)
  have "sem_wf a1" "queue a1 = []" "limit a1 = limit a"
      "tokens a1 + succeeded OpTryTake [(x, b)] = tokens a + succeeded OpSignal [(x, b)]"
    using 1 Cons(2,3) by (auto simp: spec_signal_def spec_try_take_def sem_wf_def succeeded_def split: sem_op.splits if_splits)
  then show ?case using Cons.IH[OF _ _ 2(1)] 2(2) by (auto simp: succeeded_def)
qed

locale semaphore_service =
  fixes ok :: "'s \<Rightarrow> list_view \<Rightarrow> bool" and abst :: "'s \<Rightarrow> list_view \<Rightarrow> nat \<Rightarrow> sem_spec"
    and signal :: "nat \<Rightarrow> 's \<Rightarrow> (bool \<times> 's, 's) res" and try_take :: "nat \<Rightarrow> 's \<Rightarrow> (bool \<times> 's, 's) res"
  assumes wf: "ok s C \<Longrightarrow> C (SemWaitL n) \<noteq> None \<Longrightarrow> sem_wf (abst s C n)"
    and signal_law: "ok s C \<Longrightarrow> C (SemWaitL n) \<noteq> None \<Longrightarrow>
      \<exists>s' C'. signal n s = Ret (fst (spec_signal (abst s C n)), s') \<and> ok s' C' \<and>
        abst s' C' n = snd (spec_signal (abst s C n)) \<and> C' (SemWaitL n) \<noteq> None"
    and try_take_law: "ok s C \<Longrightarrow> C (SemWaitL n) \<noteq> None \<Longrightarrow>
      \<exists>s' C'. try_take n s = Ret (fst (spec_try_take (abst s C n)), s') \<and> ok s' C' \<and>
        abst s' C' n = snd (spec_try_take (abst s C n)) \<and> C' (SemWaitL n) \<noteq> None"
begin

lemma op_law:
  assumes "ok s C" "C (SemWaitL n) \<noteq> None"
    and "r = (case x of OpSignal \<Rightarrow> spec_signal (abst s C n) | OpTryTake \<Rightarrow> spec_try_take (abst s C n))"
  shows "\<exists>s' C'. (case x of OpSignal \<Rightarrow> signal n s | OpTryTake \<Rightarrow> try_take n s) = Ret (fst r, s') \<and> ok s' C' \<and>
           abst s' C' n = snd r \<and> C' (SemWaitL n) \<noteq> None"
  using signal_law[OF assms(1,2)] try_take_law[OF assms(1,2)] assms(3) by (cases x) auto

lemma exec_refines:
  "ok s C \<Longrightarrow> C (SemWaitL n) \<noteq> None \<Longrightarrow>
   \<exists>s' C'. exec_ops (signal n) (try_take n) xs s = Ret (fst (spec_exec xs (abst s C n)), s') \<and> ok s' C' \<and>
     abst s' C' n = snd (spec_exec xs (abst s C n)) \<and> C' (SemWaitL n) \<noteq> None"
proof (induction xs arbitrary: s C)
  case (Cons x xs)
  let ?r = "case x of OpSignal \<Rightarrow> spec_signal (abst s C n) | OpTryTake \<Rightarrow> spec_try_take (abst s C n)"
  obtain s1 C1 where 1: "(case x of OpSignal \<Rightarrow> signal n s | OpTryTake \<Rightarrow> try_take n s) = Ret (fst ?r, s1)" "ok s1 C1"
      "abst s1 C1 n = snd ?r" "C1 (SemWaitL n) \<noteq> None"
    using op_law[OF Cons(2,3) refl] by blast
  obtain s' C' where 2: "exec_ops (signal n) (try_take n) xs s1 = Ret (fst (spec_exec xs (snd ?r)), s')" "ok s' C'"
      "abst s' C' n = snd (spec_exec xs (snd ?r))" "C' (SemWaitL n) \<noteq> None"
    using Cons.IH[OF 1(2,4)] unfolding 1(3) by blast
  then show ?case using 1(1) by (intro exI[of _ s'] exI[of _ C']) (simp add: split_beta)
qed auto

lemma tokens_conserved:
  assumes "ok s C" "C (SemWaitL n) \<noteq> None" "queue (abst s C n) = []"
  shows "\<exists>rs s' C'. exec_ops (signal n) (try_take n) xs s = Ret (rs, s') \<and> ok s' C' \<and>
           tokens (abst s' C' n) + succeeded OpTryTake rs = tokens (abst s C n) + succeeded OpSignal rs \<and>
           tokens (abst s' C' n) \<le> limit (abst s C n)"
proof -
  obtain s' C' where e: "exec_ops (signal n) (try_take n) xs s = Ret (fst (spec_exec xs (abst s C n)), s')" "ok s' C'"
      "abst s' C' n = snd (spec_exec xs (abst s C n))"
    using exec_refines[OF assms(1,2)] by blast
  have "spec_exec xs (abst s C n) = (fst (spec_exec xs (abst s C n)), abst s' C' n)" using e(3) by simp
  from spec_exec_conserves[OF wf[OF assms(1,2)] assms(3) this] show ?thesis using e(1,2) by auto
qed

end

section \<open>The two providers\<close>

lemma try_take_cases:
  assumes inv: "sinv s C" and n: "C (SemWaitL n) \<noteq> None"
  shows "\<exists>s'. artos_semaphore_take run (Some n) 0 s = Ret (fst (spec_try_take (sem_abs s C n)), s') \<and>
           artos_semaphore_take_isr (Some n) s = (fst (spec_try_take (sem_abs s C n)), s') \<and>
           sinv s' C \<and> sem_abs s' C n = snd (spec_try_take (sem_abs s C n)) \<and> sem_frame {} n s C s' C"
proof -
  let ?c = "sem_count (sems s n)" and ?ex = "rtos_port_exit_critical (primask s)" and ?s0 = "s\<lparr>primask := 1\<rparr>"
  show ?thesis
  proof (cases "?c = 0")
    case True
    then show ?thesis using inv
      by (intro exI[of _ "?ex ?s0"]) (simp add: artos_semaphore_take_def semaphore_take_enter_def
        artos_semaphore_take_isr_def rtos_port_enter_critical_def spec_try_take_def sem_abs_def)
  next
    case False
    let ?s' = "?ex (upd_sem n (\<lambda>x. x\<lparr>sem_count := ?c - 1\<rparr>) ?s0)"
    have d: "unat (?c - 1) = unat ?c - 1" using False by (simp add: unat_minus_one)
    have le: "?c - 1 \<le> sem_max (sems ?s0 n)" "?c - 1 = 0 \<or> waiters C (SemWaitL n) = []"
      using sinv_kinv(3)[OF inv n] d False by (auto simp: sem_wf_def sem_abs_def word_le_nat_alt unat_eq_zero)
    have "sinv ?s0 C" using inv by simp
    note u = sinv_set_count[OF this n le]
    have e: "upd_sem n (\<lambda>x. x\<lparr>sem_count := sem_count x - 1\<rparr>) ?s0 = upd_sem n (\<lambda>x. x\<lparr>sem_count := ?c - 1\<rparr>) ?s0"
      by (simp add: upd_sem_def)
    have "spec_try_take (sem_abs s C n) = (True, (sem_abs s C n)\<lparr>tokens := unat (?c - 1)\<rparr>)"
      using False d by (simp add: spec_try_take_def sem_abs_def unat_eq_zero)
    then show ?thesis using False u
      by (intro exI[of _ ?s']) (simp add: artos_semaphore_take_def semaphore_take_enter_def
        artos_semaphore_take_isr_def rtos_port_enter_critical_def e)
  qed
qed

text \<open>The interrupt-level operations in the shape of the interface; the caller's flag is dropped.\<close>

definition isr_signal :: "nat \<Rightarrow> 'z sem_kernel_scheme \<Rightarrow> (bool \<times> 'z sem_kernel_scheme, 'z) sres" where
  "isr_signal n s = res_bind (artos_semaphore_signal_isr (Some n) None s) (\<lambda>(b, _, s). Ret (b, s))"

definition isr_try_take :: "nat \<Rightarrow> 'z sem_kernel_scheme \<Rightarrow> (bool \<times> 'z sem_kernel_scheme, 'z) sres" where
  "isr_try_take n s = Ret (artos_semaphore_take_isr (Some n) s)"

interpretation task_sem: semaphore_service sinv sem_abs "\<lambda>n. artos_semaphore_signal (Some n)"
  "\<lambda>n. artos_semaphore_take run (Some n) 0" for run :: "'z sproc"
proof
  fix s :: "'z sem_kernel_scheme" and C n
  assume a: "sinv s C" "C (SemWaitL n) \<noteq> None"
  then show "sem_wf (sem_abs s C n)" by (rule sinv_kinv(3))
  obtain s' C' where "artos_semaphore_signal (Some n) s =
      Ret (fst (spec_signal (sem_abs s C n)), if wakes_higher s C n then rtos_port_request_context_switch s' else s')"
    "sinv s' C'" "sem_abs s' C' n = snd (spec_signal (sem_abs s C n))" "\<forall>k. C' (SemWaitL k) = None \<longleftrightarrow> C (SemWaitL k) = None"
    using signal_cases[OF a] by blast
  then show "\<exists>s' C'. artos_semaphore_signal (Some n) s = Ret (fst (spec_signal (sem_abs s C n)), s') \<and> sinv s' C' \<and>
      sem_abs s' C' n = snd (spec_signal (sem_abs s C n)) \<and> C' (SemWaitL n) \<noteq> None"
    using a(2) by (intro exI[of _ "if wakes_higher s C n then rtos_port_request_context_switch s' else s'"] exI[of _ C']) simp
  show "\<exists>s' C'. artos_semaphore_take run (Some n) 0 s = Ret (fst (spec_try_take (sem_abs s C n)), s') \<and> sinv s' C' \<and>
      sem_abs s' C' n = snd (spec_try_take (sem_abs s C n)) \<and> C' (SemWaitL n) \<noteq> None"
    using try_take_cases[OF a] a(2) by blast
qed

interpretation isr_sem: semaphore_service sinv sem_abs isr_signal isr_try_take
proof
  fix s :: "'z sem_kernel_scheme" and C n
  assume a: "sinv s C" "C (SemWaitL n) \<noteq> None"
  then show "sem_wf (sem_abs s C n)" by (rule sinv_kinv(3))
  obtain s' C' where "artos_semaphore_signal_isr (Some n) None s = Ret (fst (spec_signal (sem_abs s C n)), None, s')"
    "sinv s' C'" "sem_abs s' C' n = snd (spec_signal (sem_abs s C n))" "\<forall>k. C' (SemWaitL k) = None \<longleftrightarrow> C (SemWaitL k) = None"
    using signal_cases[OF a, of None] by auto
  then show "\<exists>s' C'. isr_signal n s = Ret (fst (spec_signal (sem_abs s C n)), s') \<and> sinv s' C' \<and>
      sem_abs s' C' n = snd (spec_signal (sem_abs s C n)) \<and> C' (SemWaitL n) \<noteq> None"
    using a(2) by (intro exI[of _ s'] exI[of _ C']) (simp add: isr_signal_def)
  show "\<exists>s' C'. isr_try_take n s = Ret (fst (spec_try_take (sem_abs s C n)), s') \<and> sinv s' C' \<and>
      sem_abs s' C' n = snd (spec_try_take (sem_abs s C n)) \<and> C' (SemWaitL n) \<noteq> None"
    using try_take_cases[OF a] a(2) by (fastforce simp: isr_try_take_def)
qed

end
