(* ===== verification/Queue.thy ===== *)
theory Queue
  imports Semaphore
begin

unbundle bit_operations_syntax

text \<open>
  Message queues, \<open>src/rtos/queue.c\<close>: a ring buffer of fixed-size items in caller-provided storage, with a wait
  list for readers and one for writers. A handle is the number of the control block, \<open>None\<close> for NULL.

  \<open>mem\<close> is the RAM that the storage and the callers' buffers live in, byte by byte; addresses are 32-bit
  and 0 is NULL. The C library's \<open>memcpy\<close> reads all its source bytes before it writes: for the
  overlapping buffers that C leaves undefined the model picks this order.
\<close>


section \<open>State and operations\<close>

record artos_queue =
  q_count :: u32
  q_capacity :: u32
  q_read_index :: u32
  q_write_index :: u32
  q_item_size :: u32
  q_storage :: u32

record queue_kernel = sem_kernel +
  queues :: "nat \<Rightarrow> artos_queue"
  mem :: "u32 \<Rightarrow> u8"

type_synonym ('a, 'z) qres = "('a, 'z queue_kernel_scheme) res"
type_synonym 'z qproc = "'z queue_kernel_scheme \<Rightarrow> ('z queue_kernel_scheme, 'z) qres"

definition upd_queue :: "nat \<Rightarrow> (artos_queue \<Rightarrow> artos_queue) \<Rightarrow> 'z queue_kernel_scheme \<Rightarrow> 'z queue_kernel_scheme" where
  "upd_queue n f s = s\<lparr>queues := (queues s)(n := f (queues s n))\<rparr>"

definition memcpy :: "u32 \<Rightarrow> u32 \<Rightarrow> u32 \<Rightarrow> (u32 \<Rightarrow> u8) \<Rightarrow> u32 \<Rightarrow> u8" where
  "memcpy dst src n m = fold (\<lambda>i f. f(dst + of_nat i := m (src + of_nat i))) [0..<unat n] m"

definition SIZE_MAX :: u32 where "SIZE_MAX = 0xFFFFFFFF"

definition artos_queue_init ::
    "nat option \<Rightarrow> u32 \<Rightarrow> u32 \<Rightarrow> u32 \<Rightarrow> 'z queue_kernel_scheme \<Rightarrow> nat option \<times> 'z queue_kernel_scheme" where
  "artos_queue_init control storage item_size capacity s =
     (if control = None \<or> storage = 0 \<or> capacity = 0 \<or> item_size = 0 then (None, s)
      else if SIZE_MAX div item_size < capacity then (None, s)
      else let q = the control;
               s = upd_queue q (\<lambda>x. x\<lparr>q_count := 0\<rparr>) s;
               s = upd_queue q (\<lambda>x. x\<lparr>q_item_size := item_size\<rparr>) s;
               s = upd_queue q (\<lambda>x. x\<lparr>q_capacity := capacity\<rparr>) s;
               s = upd_queue q (\<lambda>x. x\<lparr>q_read_index := 0\<rparr>) s;
               s = upd_queue q (\<lambda>x. x\<lparr>q_write_index := 0\<rparr>) s;
               s = upd_queue q (\<lambda>x. x\<lparr>q_storage := storage\<rparr>) s;
               s = s\<lparr>lists := rtos_init_list (Some (QueueReadL q)) (lists s)\<rparr>;
               s = s\<lparr>lists := rtos_init_list (Some (QueueWriteL q)) (lists s)\<rparr>
           in (Some q, s))"

definition rtos_queue_assert_valid :: "nat option \<Rightarrow> 'z qproc" where
  "rtos_queue_assert_valid qh s =
     (let q = the qh in asserts QUEUE_C
       [(50, qh \<noteq> None),
        (51, q_capacity (queues s q) > 0),
        (52, q_item_size (queues s q) > 0),
        (53, q_storage (queues s q) \<noteq> 0),
        (54, q_count (queues s q) \<le> q_capacity (queues s q)),
        (55, q_read_index (queues s q) < q_capacity (queues s q)),
        (56, q_write_index (queues s q) < q_capacity (queues s q))] s (Ret s))"

text \<open>The bytes of the new item, and the ring's write side.\<close>

definition queue_store :: "nat \<Rightarrow> u32 \<Rightarrow> 'z queue_kernel_scheme \<Rightarrow> 'z queue_kernel_scheme" where
  "queue_store q data s =
     (let s = s\<lparr>mem := memcpy (q_storage (queues s q) + q_item_size (queues s q) * q_write_index (queues s q)) data
                          (q_item_size (queues s q)) (mem s)\<rparr>;
          s = upd_queue q (\<lambda>x. x\<lparr>q_count := q_count x + 1\<rparr>) s;
          s = upd_queue q (\<lambda>x. x\<lparr>q_write_index := q_write_index x + 1\<rparr>) s
      in if q_write_index (queues s q) = q_capacity (queues s q)
         then upd_queue q (\<lambda>x. x\<lparr>q_write_index := 0\<rparr>) s else s)"

definition queue_fetch :: "nat \<Rightarrow> u32 \<Rightarrow> 'z queue_kernel_scheme \<Rightarrow> 'z queue_kernel_scheme" where
  "queue_fetch q dst s =
     (let s = s\<lparr>mem := memcpy dst (q_storage (queues s q) + q_item_size (queues s q) * q_read_index (queues s q))
                          (q_item_size (queues s q)) (mem s)\<rparr>;
          s = upd_queue q (\<lambda>x. x\<lparr>q_count := q_count x - 1\<rparr>) s;
          s = upd_queue q (\<lambda>x. x\<lparr>q_read_index := q_read_index x + 1\<rparr>) s
      in if q_read_index (queues s q) = q_capacity (queues s q)
         then upd_queue q (\<lambda>x. x\<lparr>q_read_index := 0\<rparr>) s else s)"

text \<open>Waking the first waiter of a list, if any; the result says whether it beats the current task.\<close>

definition queue_wake :: "list_ref \<Rightarrow> 'z kernel_scheme \<Rightarrow> (bool \<times> 'z kernel_scheme, 'z) kres" where
  "queue_wake l s =
     (if counts (lists s) l \<noteq> 0 then
        deref (nxt (lists s) (Sentinel l)) s (\<lambda>first.
          let gt_prio = (val (lists s) first > ucast (rtos_current_effective_priority s)) in
          res_bind (rtos_unblock_task (Some first) WAIT_SIGNALED s) (\<lambda>s. Ret (gt_prio, s)))
      else Ret (False, s))"

text \<open>
  The waiting loop of both task-level operations: while the queue is \<open>blocked\<close> (full or empty) the task
  blocks on \<open>wait_list\<close>. \<open>None\<close> is the return of false; otherwise the result is the interrupt state to restore.
  As for semaphores, \<open>run\<close> is what happens from the requested context switch until the task
  continues.
\<close>

partial_function (option) queue_wait ::
    "'z qproc \<Rightarrow> ('z queue_kernel_scheme \<Rightarrow> bool) \<Rightarrow> list_ref \<Rightarrow> u32 \<Rightarrow> bool \<Rightarrow> u32 \<Rightarrow> 'z queue_kernel_scheme \<Rightarrow>
     (u32 option \<times> 'z queue_kernel_scheme, 'z) qres option" where
  "queue_wait run blocked wait_list wake_tick forever prev_state s =
     (if \<not> blocked s then Some (Ret (Some prev_state, s))
      else let delta = wake_tick - rtos_current_tick s in
      if \<not> forever \<and> (delta = 0 \<or> delta \<ge> 0x80000000)
      then Some (Ret (None, rtos_port_exit_critical prev_state s))
      else case rtos_block_current_task wake_tick (Some wait_list) forever s of
        Halt c s \<Rightarrow> Some (Halt c s)
      | Loops \<Rightarrow> Some Loops
      | Ret s \<Rightarrow>
          (case run (rtos_port_request_context_switch (rtos_port_exit_critical prev_state s)) of
             Halt c s \<Rightarrow> Some (Halt c s)
           | Loops \<Rightarrow> Some Loops
           | Ret s \<Rightarrow>
               let (prev_state, s) = rtos_port_enter_critical s;
                   timed_out = (rtos_current_wait_reason s = WAIT_TIMED_OUT);
                   s = rtos_clear_current_wait_reason s
               in if timed_out then Some (Ret (None, rtos_port_exit_critical prev_state s))
                  else queue_wait run blocked wait_list wake_tick forever prev_state s))"

definition enqueue_wait ::
    "'z qproc \<Rightarrow> nat \<Rightarrow> u32 \<Rightarrow> bool \<Rightarrow> u32 \<Rightarrow> 'z queue_kernel_scheme \<Rightarrow> (u32 option \<times> 'z queue_kernel_scheme, 'z) qres option" where
  "enqueue_wait run q = queue_wait run (\<lambda>s. q_count (queues s q) = q_capacity (queues s q)) (QueueWriteL q)"

definition dequeue_wait ::
    "'z qproc \<Rightarrow> nat \<Rightarrow> u32 \<Rightarrow> bool \<Rightarrow> u32 \<Rightarrow> 'z queue_kernel_scheme \<Rightarrow> (u32 option \<times> 'z queue_kernel_scheme, 'z) qres option" where
  "dequeue_wait run q = queue_wait run (\<lambda>s. q_count (queues s q) = 0) (QueueReadL q)"

definition artos_queue_enqueue ::
    "'z qproc \<Rightarrow> nat option \<Rightarrow> u32 \<Rightarrow> u32 \<Rightarrow> 'z queue_kernel_scheme \<Rightarrow> (bool \<times> 'z queue_kernel_scheme, 'z) qres" where
  "artos_queue_enqueue run qh data tick_timeout s =
     (if qh = None \<or> data = 0 then Ret (False, s)
      else let q = the qh;
               (prev_state, s) = rtos_port_enter_critical s
        in res_bind (rtos_queue_assert_valid qh s) (\<lambda>s.
           let wake_tick = (if tick_timeout = ARTOS_DELAY_INFINITY then ARTOS_DELAY_INFINITY
                            else tick_timeout + rtos_current_tick s);
               infinity = (tick_timeout = ARTOS_DELAY_INFINITY)
           in res_bind (loop_res (enqueue_wait run q wake_tick infinity prev_state s)) (\<lambda>(go_on, s).
              case go_on of None \<Rightarrow> Ret (False, s)
              | Some prev_state \<Rightarrow>
                  res_bind (queue_wake (QueueReadL q) (queue_store q data s)) (\<lambda>(gt_prio, s).
                  let s = rtos_port_exit_critical prev_state s;
                      s = (if gt_prio then rtos_port_request_context_switch s else s)
                  in Ret (True, s)))))"

definition artos_queue_dequeue ::
    "'z qproc \<Rightarrow> nat option \<Rightarrow> u32 \<Rightarrow> u32 \<Rightarrow> 'z queue_kernel_scheme \<Rightarrow> (bool \<times> 'z queue_kernel_scheme, 'z) qres" where
  "artos_queue_dequeue run qh dst tick_timeout s =
     (if qh = None \<or> dst = 0 then Ret (False, s)
      else let q = the qh;
               (prev_state, s) = rtos_port_enter_critical s
        in res_bind (rtos_queue_assert_valid qh s) (\<lambda>s.
           let wake_tick = (if tick_timeout = ARTOS_DELAY_INFINITY then ARTOS_DELAY_INFINITY
                            else tick_timeout + rtos_current_tick s);
               infinity = (tick_timeout = ARTOS_DELAY_INFINITY)
           in res_bind (loop_res (dequeue_wait run q wake_tick infinity prev_state s)) (\<lambda>(go_on, s).
              case go_on of None \<Rightarrow> Ret (False, s)
              | Some prev_state \<Rightarrow>
                  res_bind (queue_wake (QueueWriteL q) (queue_fetch q dst s)) (\<lambda>(gt_prio, s).
                  let s = rtos_port_exit_critical prev_state s;
                      s = (if gt_prio then rtos_port_request_context_switch s else s)
                  in Ret (True, s)))))"

definition artos_queue_enqueue_from_isr ::
    "nat option \<Rightarrow> u32 \<Rightarrow> bool option \<Rightarrow> 'z queue_kernel_scheme \<Rightarrow> (bool \<times> bool option \<times> 'z queue_kernel_scheme, 'z) qres" where
  "artos_queue_enqueue_from_isr qh data gt_task_woken s =
     (if qh = None \<or> data = 0 then Ret (False, gt_task_woken, s)
      else let q = the qh;
               (prev_state, s) = rtos_port_enter_critical s
        in res_bind (rtos_queue_assert_valid qh s) (\<lambda>s.
           if q_count (queues s q) = q_capacity (queues s q)
           then Ret (False, gt_task_woken, rtos_port_exit_critical prev_state s)
           else res_bind (queue_wake (QueueReadL q) (queue_store q data s)) (\<lambda>(gt_prio, s).
             let gt_task_woken = (if gt_task_woken \<noteq> None \<and> gt_prio then Some True else gt_task_woken)
             in Ret (True, gt_task_woken, rtos_port_exit_critical prev_state s))))"

definition artos_queue_dequeue_from_isr ::
    "nat option \<Rightarrow> u32 \<Rightarrow> bool option \<Rightarrow> 'z queue_kernel_scheme \<Rightarrow> (bool \<times> bool option \<times> 'z queue_kernel_scheme, 'z) qres" where
  "artos_queue_dequeue_from_isr qh dst gt_task_woken s =
     (if qh = None \<or> dst = 0 then Ret (False, gt_task_woken, s)
      else let q = the qh;
               (prev_state, s) = rtos_port_enter_critical s
        in res_bind (rtos_queue_assert_valid qh s) (\<lambda>s.
           if q_count (queues s q) = 0
           then Ret (False, gt_task_woken, rtos_port_exit_critical prev_state s)
           else res_bind (queue_wake (QueueWriteL q) (queue_fetch q dst s)) (\<lambda>(gt_prio, s).
             let gt_task_woken = (if gt_task_woken \<noteq> None \<and> gt_prio then Some True else gt_task_woken)
             in Ret (True, gt_task_woken, rtos_port_exit_critical prev_state s))))"

section \<open>The ring buffer\<close>

definition buffer :: "(u32 \<Rightarrow> u8) \<Rightarrow> u32 \<Rightarrow> nat \<Rightarrow> u8 list" where
  "buffer m a n = map (\<lambda>j. m (a + of_nat j)) [0..<n]"

definition region :: "u32 \<Rightarrow> nat \<Rightarrow> u32 set" where
  "region a n = (\<lambda>j. a + of_nat j) ` {..<n}"

lemma unat_of_nat_u32: "n < 2 ^ 32 \<Longrightarrow> unat (of_nat n :: u32) = n"
  by (simp add: unat_of_nat)

lemma of_nat_u32_inj: "i < 2 ^ 32 \<Longrightarrow> j < 2 ^ 32 \<Longrightarrow> (of_nat i :: u32) = of_nat j \<Longrightarrow> i = j"
  by (metis unat_of_nat_u32)

lemma memcpy_fold:
  assumes "n \<le> 2 ^ 32"
  shows "fold (\<lambda>i f. f(dst + of_nat i := g i)) [0..<n] m a =
    (if a \<in> region dst n then g (unat (a - dst)) else m a)"
  using assms
proof (induction n)
  case 0
  then show ?case by (simp add: region_def)
next
  case (Suc n)
  have r: "region dst (Suc n) = insert (dst + of_nat n) (region dst n)" by (auto simp: region_def lessThan_Suc)
  have "unat (of_nat n :: u32) = n" using Suc(2) by (intro unat_of_nat_u32) simp
  then show ?case using Suc by (simp add: r)
qed

lemma memcpy_outside: "a \<notin> region dst (unat n) \<Longrightarrow> memcpy dst src n m a = m a"
  using memcpy_fold[OF less_imp_le[OF u32_bound], of dst "\<lambda>i. m (src + of_nat i)" n m a] by (simp add: memcpy_def)

lemma memcpy_buffer: "buffer (memcpy dst src n m) dst (unat n) = buffer m src (unat n)"
proof -
  have "memcpy dst src n m (dst + of_nat j) = m (src + of_nat j)" if "j < unat n" for j
  proof -
    have "unat (of_nat j :: u32) = j" using that u32_bound[of n] by (intro unat_of_nat_u32) simp
    moreover have "dst + of_nat j \<in> region dst (unat n)" using that by (auto simp: region_def)
    ultimately show ?thesis
      using memcpy_fold[OF less_imp_le[OF u32_bound], of dst "\<lambda>i. m (src + of_nat i)" n m "dst + of_nat j"]
      by (simp add: memcpy_def)
  qed
  then show ?thesis by (simp add: buffer_def)
qed

lemma buffer_outside:
  assumes "region a l \<inter> region dst (unat n) = {}"
  shows "buffer (memcpy dst src n m) a l = buffer m a l"
proof -
  have "a + of_nat j \<notin> region dst (unat n)" if "j < l" for j using assms that by (auto simp: region_def)
  then show ?thesis by (simp add: buffer_def memcpy_outside)
qed

text \<open>Slot \<open>k\<close> of the storage, and the items from the read index on.\<close>

definition slot_at :: "artos_queue \<Rightarrow> nat \<Rightarrow> u32" where
  "slot_at q k = q_storage q + of_nat (unat (q_item_size q) * k)"

definition queue_items :: "artos_queue \<Rightarrow> (u32 \<Rightarrow> u8) \<Rightarrow> u8 list list" where
  "queue_items q m =
     map (\<lambda>i. buffer m (slot_at q ((unat (q_read_index q) + i) mod unat (q_capacity q))) (unat (q_item_size q)))
       [0..<unat (q_count q)]"

definition queue_region :: "artos_queue \<Rightarrow> u32 set" where
  "queue_region q = region (q_storage q) (unat (q_item_size q) * unat (q_capacity q))"

definition queue_wf :: "artos_queue \<Rightarrow> bool" where
  "queue_wf q \<longleftrightarrow> q_capacity q \<noteq> 0 \<and> q_item_size q \<noteq> 0 \<and> q_storage q \<noteq> 0 \<and>
     unat (q_item_size q) * unat (q_capacity q) < 2 ^ 32 \<and>
     q_count q \<le> q_capacity q \<and> q_read_index q < q_capacity q \<and>
     unat (q_write_index q) = (unat (q_read_index q) + unat (q_count q)) mod unat (q_capacity q)"

lemma slot_bound:
  assumes "queue_wf q" "k < unat (q_capacity q)" "j < unat (q_item_size q)"
  shows "unat (q_item_size q) * k + j < unat (q_item_size q) * unat (q_capacity q)"
proof -
  have "unat (q_item_size q) * k + j < unat (q_item_size q) * Suc k" using assms(3) by simp
  also have "\<dots> \<le> unat (q_item_size q) * unat (q_capacity q)" using assms(2) by (intro mult_le_mono2) simp
  finally show ?thesis .
qed

lemma slot_region:
  assumes "queue_wf q" "k < unat (q_capacity q)"
  shows "region (slot_at q k) (unat (q_item_size q)) \<subseteq> queue_region q"
proof
  fix a assume "a \<in> region (slot_at q k) (unat (q_item_size q))"
  then obtain j where j: "j < unat (q_item_size q)" "a = q_storage q + of_nat (unat (q_item_size q) * k + j)"
    by (auto simp: region_def slot_at_def)
  then show "a \<in> queue_region q" using slot_bound[OF assms j(1)] unfolding queue_region_def region_def by blast
qed

lemma slots_disjoint:
  assumes q: "queue_wf q" and k: "k < unat (q_capacity q)" "k' < unat (q_capacity q)" "k \<noteq> k'"
  shows "region (slot_at q k) (unat (q_item_size q)) \<inter> region (slot_at q k') (unat (q_item_size q)) = {}"
proof (rule ccontr)
  let ?z = "unat (q_item_size q)"
  assume "\<not> ?thesis"
  then obtain j j' where j: "j < ?z" "j' < ?z" "slot_at q k + of_nat j = slot_at q k' + of_nat j'" by (auto simp: region_def)
  have "(of_nat (?z * k + j) :: u32) = of_nat (?z * k' + j')" using j(3) by (simp add: slot_at_def add.assoc)
  then have "?z * k + j = ?z * k' + j'"
    using slot_bound[OF q k(1) j(1)] slot_bound[OF q k(2) j(2)] q by (intro of_nat_u32_inj) (auto simp: queue_wf_def)
  then have "(?z * k + j) div ?z = (?z * k' + j') div ?z" by simp
  then show False using j(1,2) k(3) by simp
qed

lemma queue_write_below: "queue_wf q \<Longrightarrow> unat (q_write_index q) < unat (q_capacity q)"
  by (simp add: queue_wf_def unat_gt_0)

lemma ring_mod: "r < c \<Longrightarrow> i < c \<Longrightarrow> (r + i) mod c = (if r + i < c then r + i else r + i - c :: nat)"
  by (simp add: le_mod_geq not_less)

lemma ring_inj: "r < c \<Longrightarrow> i < c \<Longrightarrow> j < c \<Longrightarrow> (r + i) mod c = (r + j) mod c \<longleftrightarrow> i = (j :: nat)"
  by (auto simp: ring_mod)

text \<open>Advancing an index as the code does.\<close>

definition next_index :: "u32 \<Rightarrow> u32 \<Rightarrow> u32" where
  "next_index c i = (if i + 1 = c then 0 else i + 1)"

lemma next_index:
  assumes "i < c"
  shows "unat (next_index c i) = Suc (unat i) mod unat c" "next_index c i < c"
proof -
  have l: "unat i < unat c" using assms by (simp add: word_less_nat_alt)
  have u: "unat (i + 1) = Suc (unat i)" using unat_inc_below[OF l] by simp
  have e: "i + 1 = c \<longleftrightarrow> Suc (unat i) = unat c" using u by (auto simp: word_unat_eq_iff)
  show 1: "unat (next_index c i) = Suc (unat i) mod unat c"
    using l u e by (auto simp: next_index_def)
  have "Suc (unat i) mod unat c < unat c" using l by (intro mod_less_divisor) simp
  then show "next_index c i < c" unfolding word_less_nat_alt 1 .
qed

lemma store_items:
  assumes q: "queue_wf q" and room: "q_count q \<noteq> q_capacity q"
  defines "q' \<equiv> q\<lparr>q_count := q_count q + 1, q_write_index := next_index (q_capacity q) (q_write_index q)\<rparr>"
  shows "queue_wf q'"
    "queue_items q' (memcpy (q_storage q + q_item_size q * q_write_index q) data (q_item_size q) m) =
       queue_items q m @ [buffer m data (unat (q_item_size q))]"
proof -
  let ?c = "unat (q_capacity q)" and ?r = "unat (q_read_index q)" and ?n = "unat (q_count q)" and ?z = "unat (q_item_size q)"
  have n: "?n < ?c" using q room by (auto simp: queue_wf_def word_le_nat_alt word_unat_eq_iff)
  have r: "?r < ?c" using q by (simp add: queue_wf_def word_less_nat_alt)
  have u: "unat (q_count q + 1) = Suc ?n" using unat_inc_below[OF n] by simp
  have w: "unat (q_write_index q) = (?r + ?n) mod ?c" using q by (simp add: queue_wf_def)
  have wl: "q_write_index q < q_capacity q" using queue_write_below[OF q] by (simp add: word_less_nat_alt)
  have "unat (next_index (q_capacity q) (q_write_index q)) = (?r + Suc ?n) mod ?c"
    using next_index(1)[OF wl] w by (simp add: mod_Suc_eq)
  then show "queue_wf q'" using q u n by (auto simp: queue_wf_def q'_def word_le_nat_alt)
  have a: "q_storage q + q_item_size q * q_write_index q = slot_at q (unat (q_write_index q))" by (simp add: slot_at_def)
  let ?m = "memcpy (slot_at q (unat (q_write_index q))) data (q_item_size q) m"
  have s: "slot_at q' = slot_at q" by (rule ext) (simp add: slot_at_def q'_def)
  have "buffer ?m (slot_at q ((?r + i) mod ?c)) ?z = buffer m (slot_at q ((?r + i) mod ?c)) ?z" if "i < ?n" for i
  proof (rule buffer_outside, rule slots_disjoint[OF q])
    have "0 < ?c" using r by simp
    then show "(?r + i) mod ?c < ?c" "unat (q_write_index q) < ?c" using w by simp_all
    show "(?r + i) mod ?c \<noteq> unat (q_write_index q)" unfolding w using ring_inj[OF r, of i ?n] that n by simp
  qed
  moreover have "buffer ?m (slot_at q ((?r + ?n) mod ?c)) ?z = buffer m data ?z" using memcpy_buffer w by simp
  ultimately show "queue_items q' (memcpy (q_storage q + q_item_size q * q_write_index q) data (q_item_size q) m) =
       queue_items q m @ [buffer m data ?z]"
    unfolding a queue_items_def s by (simp add: q'_def u)
qed

lemma fetch_items:
  fixes m :: "u32 \<Rightarrow> u8"
  assumes q: "queue_wf q" and some: "q_count q \<noteq> 0" and d: "region dst (unat (q_item_size q)) \<inter> queue_region q = {}"
  defines "q' \<equiv> q\<lparr>q_count := q_count q - 1, q_read_index := next_index (q_capacity q) (q_read_index q)\<rparr>"
    and "m' \<equiv> memcpy dst (q_storage q + q_item_size q * q_read_index q) (q_item_size q) m"
  shows "queue_wf q'" "queue_items q m = buffer m' dst (unat (q_item_size q)) # queue_items q' m'"
proof -
  let ?c = "unat (q_capacity q)" and ?r = "unat (q_read_index q)" and ?z = "unat (q_item_size q)"
  obtain n where n: "unat (q_count q) = Suc n" using some by (metis not0_implies_Suc unat_eq_zero)
  have n': "unat (q_count q - 1) = n" using n some by (simp add: unat_minus_one)
  have le: "Suc n \<le> ?c" using q n by (simp add: queue_wf_def word_le_nat_alt)
  have rl: "q_read_index q < q_capacity q" and r: "?r < ?c" using q by (simp_all add: queue_wf_def word_less_nat_alt)
  note nx = next_index[OF rl]
  have "unat (q_write_index q) = (?r + Suc n) mod ?c" using q n by (simp add: queue_wf_def)
  then have "unat (q_write_index q) = (Suc ?r mod ?c + n) mod ?c" by (simp add: mod_add_left_eq)
  then show "queue_wf q'" using q n' nx le unfolding queue_wf_def q'_def by (simp add: word_le_nat_alt)
  have a: "q_storage q + q_item_size q * q_read_index q = slot_at q ?r" by (simp add: slot_at_def)
  have s: "slot_at q' = slot_at q" by (rule ext) (simp add: slot_at_def q'_def)
  have out: "buffer m' (slot_at q k) ?z = buffer m (slot_at q k) ?z" if "k < ?c" for k
    unfolding m'_def using slot_region[OF q that] d by (intro buffer_outside) auto
  have "buffer m' dst ?z = buffer m (slot_at q ?r) ?z" unfolding m'_def a by (rule memcpy_buffer)
  moreover have "(unat (q_read_index q') + i) mod ?c = (?r + Suc i) mod ?c" for i
    using nx by (simp add: q'_def mod_add_left_eq)
  then have "queue_items q' m' = map (\<lambda>i. buffer m (slot_at q ((?r + Suc i) mod ?c)) ?z) [0..<n]"
    using r unfolding queue_items_def s by (simp add: q'_def n' out)
  moreover have "queue_items q m = buffer m (slot_at q ?r) ?z # map (\<lambda>i. buffer m (slot_at q ((?r + Suc i) mod ?c)) ?z) [0..<n]"
    unfolding queue_items_def n using r by (simp add: upt_conv_Cons map_Suc_upt[symmetric] comp_def del: upt_Suc)
  ultimately show "queue_items q m = buffer m' dst ?z # queue_items q' m'" by simp
qed

end
