(* ===== verification/Queue_Refine.thy ===== *)
theory Queue_Refine
  imports Queue
begin

unbundle bit_operations_syntax

text \<open>
  What the queue operations promise: the invariant, the bounded FIFO they refine at task and at interrupt level,
  blocking and its time-outs.
\<close>

section \<open>Invariant and specification\<close>

record queue_spec =
  contents :: "u8 list list"
  room :: nat
  readers :: "tcb_ref list"
  writers :: "tcb_ref list"

definition queue_abs :: "'z queue_kernel_scheme \<Rightarrow> list_view \<Rightarrow> nat \<Rightarrow> queue_spec" where
  "queue_abs s C n = \<lparr>contents = queue_items (queues s n) (mem s), room = unat (q_capacity (queues s n)),
     readers = waiters C (QueueReadL n), writers = waiters C (QueueWriteL n)\<rparr>"

definition spec_put :: "u8 list \<Rightarrow> queue_spec \<Rightarrow> bool \<times> queue_spec" where
  "spec_put x a = (if length (contents a) = room a then (False, a)
     else (True, a\<lparr>contents := contents a @ [x], readers := tl (readers a)\<rparr>))"

definition spec_get :: "queue_spec \<Rightarrow> u8 list option \<times> queue_spec" where
  "spec_get a = (case contents a of [] \<Rightarrow> (None, a) | x # xs \<Rightarrow> (Some x, a\<lparr>contents := xs, writers := tl (writers a)\<rparr>))"

definition queue_live :: "list_view \<Rightarrow> nat \<Rightarrow> bool" where
  "queue_live C n \<longleftrightarrow> C (QueueReadL n) \<noteq> None \<and> C (QueueWriteL n) \<noteq> None"

definition qinv :: "'z queue_kernel_scheme \<Rightarrow> list_view \<Rightarrow> bool" where
  "qinv s C \<longleftrightarrow> sinv s C \<and> (\<forall>n. queue_live C n \<longrightarrow> queue_wf (queues s n)) \<and>
     (\<forall>n k. queue_live C n \<longrightarrow> queue_live C k \<longrightarrow> n \<noteq> k \<longrightarrow> queue_region (queues s n) \<inter> queue_region (queues s k) = {})"

lemma qinvD: "qinv s C \<Longrightarrow> sinv s C" "qinv s C \<Longrightarrow> queue_live C n \<Longrightarrow> queue_wf (queues s n)"
  "qinv s C \<Longrightarrow> queue_live C n \<Longrightarrow> queue_live C k \<Longrightarrow> n \<noteq> k \<Longrightarrow> queue_region (queues s n) \<inter> queue_region (queues s k) = {}"
  unfolding qinv_def by blast+

lemma sinv_frame:
  "sinv s C \<Longrightarrow> kinv s' C' \<Longrightarrow> tick_ok s' C' \<Longrightarrow> sems s' = sems s \<Longrightarrow> \<forall>n. C' (SemWaitL n) = C (SemWaitL n) \<Longrightarrow> sinv s' C'"
  by (auto simp: sinv_def sem_abs_def waiters_def)

lemma qinv_frame:
  assumes "qinv s C" "sinv s' C'" "queues s' = queues s" "\<forall>n. queue_live C' n = queue_live C n"
  shows "qinv s' C'"
  using assms unfolding qinv_def by simp

lemma kinv_queues [simp]:
  "kinv (s\<lparr>queues := f\<rparr>) C = kinv s C" "kinv (s\<lparr>mem := g\<rparr>) C = kinv s C"
  "tick_ok (s\<lparr>queues := f\<rparr>) C = tick_ok s C" "tick_ok (s\<lparr>mem := g\<rparr>) C = tick_ok s C"
  by (rule kinv_cong; simp)+ (simp_all add: tick_ok_def)

lemma sinv_queues [simp]: "sinv (s\<lparr>queues := f\<rparr>) C = sinv s C" "sinv (s\<lparr>mem := g\<rparr>) C = sinv s C"
  by (simp_all add: sinv_def sem_abs_def)

lemma queues_port [simp]:
  "queues (rtos_port_exit_critical p s) = queues s" "mem (rtos_port_exit_critical p s) = mem s"
  "queues (rtos_port_request_context_switch s) = queues s" "mem (rtos_port_request_context_switch s) = mem s"
  "queues (unblocked t r m s) = queues s" "mem (unblocked t r m s) = mem s"
  by (simp_all add: rtos_port_exit_critical_def rtos_port_request_context_switch_def unblocked_def upd_tcb_def)

lemma qinv_port [simp]:
  "qinv (rtos_port_exit_critical p s) C = qinv s C" "qinv (rtos_port_request_context_switch s) C = qinv s C"
  "qinv (s\<lparr>primask := p\<rparr>) C = qinv s C"
  by (simp_all add: qinv_def)

lemma queue_abs_port [simp]:
  "queue_abs (rtos_port_exit_critical p s) C n = queue_abs s C n" "queue_abs (rtos_port_request_context_switch s) C n = queue_abs s C n"
  "queue_abs (s\<lparr>primask := p\<rparr>) C n = queue_abs s C n"
  by (simp_all add: queue_abs_def)

lemma queue_store_eq:
  "queue_store n data s = s\<lparr>queues := (queues s)(n := (queues s n)\<lparr>q_count := q_count (queues s n) + 1,
       q_write_index := next_index (q_capacity (queues s n)) (q_write_index (queues s n))\<rparr>),
     mem := memcpy (q_storage (queues s n) + q_item_size (queues s n) * q_write_index (queues s n)) data (q_item_size (queues s n)) (mem s)\<rparr>"
  by (simp add: queue_store_def upd_queue_def next_index_def)

lemma queue_fetch_eq:
  "queue_fetch n dst s = s\<lparr>queues := (queues s)(n := (queues s n)\<lparr>q_count := q_count (queues s n) - 1,
       q_read_index := next_index (q_capacity (queues s n)) (q_read_index (queues s n))\<rparr>),
     mem := memcpy dst (q_storage (queues s n) + q_item_size (queues s n) * q_read_index (queues s n)) (q_item_size (queues s n)) (mem s)\<rparr>"
  by (simp add: queue_fetch_def upd_queue_def next_index_def)

lemma region_mono: "n \<le> k \<Longrightarrow> region a n \<subseteq> region a k"
  by (auto simp: region_def)

text \<open>Writing outside a queue's storage leaves its items alone.\<close>

lemma items_outside:
  assumes "queue_wf q" "region dst (unat n) \<inter> queue_region q = {}"
  shows "queue_items q (memcpy dst src n m) = queue_items q m"
proof -
  have "0 < unat (q_capacity q)" using assms(1) by (simp add: queue_wf_def unat_gt_0)
  then have "buffer (memcpy dst src n m) (slot_at q (k mod unat (q_capacity q))) (unat (q_item_size q)) =
      buffer m (slot_at q (k mod unat (q_capacity q))) (unat (q_item_size q))" for k
    using slot_region[OF assms(1), of "k mod unat (q_capacity q)"] assms(2) by (intro buffer_outside) auto
  then show ?thesis by (simp add: queue_items_def)
qed

lemma queue_items_length: "length (queue_items q m) = unat (q_count q)"
  by (simp add: queue_items_def)

lemma qinv_store:
  assumes inv: "qinv s C" and n: "queue_live C n" and room: "q_count (queues s n) \<noteq> q_capacity (queues s n)"
  shows "qinv (queue_store n data s) C"
    "queue_abs (queue_store n data s) C n = (queue_abs s C n)\<lparr>contents := contents (queue_abs s C n) @
       [buffer (mem s) data (unat (q_item_size (queues s n)))]\<rparr>"
    "queue_live C k \<Longrightarrow> k \<noteq> n \<Longrightarrow> queue_abs (queue_store n data s) C k = queue_abs s C k"
proof -
  note wf = qinvD(2)[OF inv n]
  note st = store_items[OF wf room]
  have w: "region (q_storage (queues s n) + q_item_size (queues s n) * q_write_index (queues s n)) (unat (q_item_size (queues s n)))
      \<subseteq> queue_region (queues s n)"
    using slot_region[OF wf queue_write_below[OF wf]] by (simp add: slot_at_def)
  show "qinv (queue_store n data s) C" using inv st(1) unfolding queue_store_eq qinv_def by (simp add: queue_region_def)
  show "queue_abs (queue_store n data s) C n = (queue_abs s C n)\<lparr>contents := contents (queue_abs s C n) @
       [buffer (mem s) data (unat (q_item_size (queues s n)))]\<rparr>"
    unfolding queue_store_eq queue_abs_def using st(2) by simp
  show "queue_abs (queue_store n data s) C k = queue_abs s C k" if "queue_live C k" "k \<noteq> n"
    using items_outside[OF qinvD(2)[OF inv that(1)]] qinvD(3)[OF inv n that(1)] that(2) w
    unfolding queue_store_eq queue_abs_def by (simp add: disjoint_iff subset_iff)
qed

lemma qinv_fetch:
  assumes inv: "qinv s C" and n: "queue_live C n" and some: "q_count (queues s n) \<noteq> 0"
    and d: "\<forall>k. queue_live C k \<longrightarrow> region dst (unat (q_item_size (queues s n))) \<inter> queue_region (queues s k) = {}"
  shows "qinv (queue_fetch n dst s) C"
    "contents (queue_abs s C n) =
       buffer (mem (queue_fetch n dst s)) dst (unat (q_item_size (queues s n))) # contents (queue_abs (queue_fetch n dst s) C n)"
    "queue_abs (queue_fetch n dst s) C n = (queue_abs s C n)\<lparr>contents := tl (contents (queue_abs s C n))\<rparr>"
    "queue_live C k \<Longrightarrow> k \<noteq> n \<Longrightarrow> queue_abs (queue_fetch n dst s) C k = queue_abs s C k"
proof -
  note wf = qinvD(2)[OF inv n]
  note ft = fetch_items[OF wf some d[rule_format, OF n]]
  show "qinv (queue_fetch n dst s) C" using inv ft(1) unfolding queue_fetch_eq qinv_def by (simp add: queue_region_def)
  show "contents (queue_abs s C n) =
       buffer (mem (queue_fetch n dst s)) dst (unat (q_item_size (queues s n))) # contents (queue_abs (queue_fetch n dst s) C n)"
    "queue_abs (queue_fetch n dst s) C n = (queue_abs s C n)\<lparr>contents := tl (contents (queue_abs s C n))\<rparr>"
    unfolding queue_fetch_eq queue_abs_def using ft(2)[of "mem s"] by simp_all
  show "queue_abs (queue_fetch n dst s) C k = queue_abs s C k" if "queue_live C k" "k \<noteq> n"
    using items_outside[OF qinvD(2)[OF inv that(1)] d[rule_format, OF that(1)]] that(2) unfolding queue_fetch_eq queue_abs_def by simp
qed

section \<open>Waking\<close>

definition beats :: "'z kernel_scheme \<Rightarrow> list_view \<Rightarrow> list_ref \<Rightarrow> bool" where
  "beats s C l \<longleftrightarrow> (\<exists>t ts. waiters C l = t # ts \<and> rtos_current_effective_priority s < effective_priority (tcbs s t))"

text \<open>The first waiter of \<open>l\<close>, if any, is signalled and ready; nobody else changes.\<close>

definition first_served :: "'z kernel_scheme \<Rightarrow> list_view \<Rightarrow> list_ref \<Rightarrow> 'z kernel_scheme \<Rightarrow> bool" where
  "first_served s C l s' \<longleftrightarrow>
     (case waiters C l of [] \<Rightarrow> tcbs s' = tcbs s \<and> lists s' = lists s
      | t # ts \<Rightarrow> tcbs s' = (tcbs s)(t := (tcbs s t)\<lparr>wait_reason := WAIT_SIGNALED\<rparr>) \<and>
          cont (lists s') (StateItem t) = Some (ReadyL (unat (effective_priority (tcbs s t)))) \<and>
          cont (lists s') (EventItem t) = None)"

lemma queue_wake_runs:
  assumes inv: "kinv s C" "tick_ok s C" and l: "is_wait_list l" "C l \<noteq> None"
  shows "\<exists>s' C'. queue_wake l s = Ret (beats s C l, s') \<and> kinv s' C' \<and> tick_ok s' C' \<and>
           waiters C' l = tl (waiters C l) \<and> C' l \<noteq> None \<and> (\<forall>k. is_wait_list k \<longrightarrow> k \<noteq> l \<longrightarrow> C' k = C k) \<and>
           first_served s C l s' \<and> kernel.more s' = kernel.more s \<and>
           primask s' = primask s \<and> pendsv s' = pendsv s \<and> cur_task s' = cur_task s \<and> ticks s' = ticks s \<and> tsk_cnt s' = tsk_cnt s \<and>
           keeps_tasks {l} s s' \<and> ready_grows C C'"
proof (cases "waiters C l")
  case Nil
  then show ?thesis using inv l(2) wait_list_head(1)[OF inv(1) l]
    by (intro exI[of _ s] exI[of _ C]) (simp add: queue_wake_def beats_def first_served_def)
next
  case (Cons t ts)
  note h = wait_list_head[OF inv(1) l]
  let ?C = "unblock_view t (unat (effective_priority (tcbs s t))) C"
  obtain m where m: "rtos_unblock_task (Some (EventItem t)) WAIT_SIGNALED s = Ret (unblocked t WAIT_SIGNALED m s)"
      "kinv (unblocked t WAIT_SIGNALED m s) ?C" "tick_ok (unblocked t WAIT_SIGNALED m s) ?C" "waiters ?C l = ts"
      "\<forall>k. is_wait_list k \<longrightarrow> k \<noteq> l \<longrightarrow> ?C k = C k"
      "\<And>j. \<not> is_sentinel j \<Longrightarrow> cont m j = (if j = StateItem t then Some (ReadyL (unat (effective_priority (tcbs s t))))
           else if j = EventItem t then None else cont (lists s) j)" "ready_grows C ?C" "same_data (lists s) m"
    using wake_head[OF inv l Cons, of WAIT_SIGNALED] by blast
  let ?s = "unblocked t WAIT_SIGNALED m s"
  have "val (lists s) (EventItem t) = ucast (effective_priority (tcbs s t))"
    using waiter_blocked(4)[OF inv(1) l] Cons by simp
  then have "queue_wake l s = Ret (beats s C l, ?s)"
    using h Cons m(1) by (simp add: queue_wake_def beats_def ucast_u8_less)
  moreover have "?C l = None \<longleftrightarrow> C l = None" using l(1) by (auto simp: unblock_view_def append_to_def)
  moreover have "first_served s C l ?s" using Cons m(6)[of "StateItem t"] m(6)[of "EventItem t"]
    by (simp add: first_served_def unblocked_def upd_tcb_def)
  moreover have "keeps_tasks {l} s ?s" by (rule wake_keeps[OF inv(1) l _ m(6,8)]) (simp add: Cons)
  ultimately show ?thesis using m(2-5,7) Cons l(2)
    by (intro exI[of _ ?s] exI[of _ ?C]) (simp add: unblocked_def upd_tcb_def)
qed

section \<open>Non-blocking calls\<close>

lemma more_fields:
  "kernel.more s' = kernel.more s \<Longrightarrow> sems s' = sems s"
  "kernel.more t' = kernel.more t \<Longrightarrow> queues t' = queues t"
  "kernel.more t' = kernel.more t \<Longrightarrow> mem t' = mem t"
  "kernel.more t' = kernel.more t \<Longrightarrow> queue_kernel.more t' = queue_kernel.more t"
  by (cases s; cases s'; simp) (cases t; cases t'; simp)+

lemma queue_ops_kernel [simp]:
  "tcbs (queue_store n data s) = tcbs s" "lists (queue_store n data s) = lists s" "sems (queue_store n data s) = sems s"
  "primask (queue_store n data s) = primask s" "pendsv (queue_store n data s) = pendsv s"
  "cur_task (queue_store n data s) = cur_task s" "ticks (queue_store n data s) = ticks s"
  "tcbs (queue_fetch n data s) = tcbs s" "lists (queue_fetch n data s) = lists s" "sems (queue_fetch n data s) = sems s"
  "primask (queue_fetch n data s) = primask s" "pendsv (queue_fetch n data s) = pendsv s"
  "cur_task (queue_fetch n data s) = cur_task s" "ticks (queue_fetch n data s) = ticks s"
  by (simp_all add: queue_store_eq queue_fetch_eq)

lemma current_priority_cong:
  "cur_task s' = cur_task s \<Longrightarrow> tcbs s' = tcbs s \<Longrightarrow> rtos_current_effective_priority s' = rtos_current_effective_priority s"
  by (simp add: rtos_current_effective_priority_def split: option.split)

lemma beats_cong: "cur_task s' = cur_task s \<Longrightarrow> tcbs s' = tcbs s \<Longrightarrow> beats s' C l = beats s C l"
  by (simp add: beats_def current_priority_cong[of s' s])

lemma first_served_cong: "lists s1 = lists s \<Longrightarrow> tcbs s1 = tcbs s \<Longrightarrow> first_served s1 C l s' = first_served s C l s'"
  by (simp add: first_served_def split: list.split)

lemma queue_ops_frame [simp]:
  "beats (queue_store n data s) C l = beats s C l" "beats (queue_fetch n data s) C l = beats s C l"
  "beats (u\<lparr>primask := p\<rparr>) C l = beats u C l" "first_served (u\<lparr>primask := p\<rparr>) C l u' = first_served u C l u'"
  "first_served (queue_store n data s) C l s' = first_served s C l s'"
  "first_served (queue_fetch n data s) C l s' = first_served s C l s'"
  by ((rule beats_cong first_served_cong; simp)+)

lemma first_served_port [simp]:
  "first_served s C l (rtos_port_exit_critical p s') = first_served s C l s'"
  by (cases "waiters C l") (simp_all add: first_served_def)

text \<open>Item sizes and storage never change after initialisation.\<close>

definition same_shape :: "'z queue_kernel_scheme \<Rightarrow> 'z queue_kernel_scheme \<Rightarrow> bool" where
  "same_shape s s' \<longleftrightarrow> (\<forall>k. q_item_size (queues s' k) = q_item_size (queues s k) \<and> queue_region (queues s' k) = queue_region (queues s k))"

lemma same_shape_port [simp]: "same_shape s s" "same_shape (s\<lparr>primask := p\<rparr>) s' = same_shape s s'" "same_shape s (s'\<lparr>primask := p\<rparr>) = same_shape s s'"
  "same_shape s (rtos_port_exit_critical p s') = same_shape s s'" "same_shape s (rtos_port_request_context_switch s') = same_shape s s'"
  by (simp_all add: same_shape_def)

text \<open>
  What a queue operation leaves alone besides the other queues: the mutexes, the counts of held mutexes and all wait lists
  but \<open>l\<close>.
\<close>

definition queue_frame :: "list_ref set \<Rightarrow> list_ref \<Rightarrow> 'z queue_kernel_scheme \<Rightarrow> list_view \<Rightarrow> 'z queue_kernel_scheme \<Rightarrow> list_view \<Rightarrow> bool" where
  "queue_frame X l s C s' C' \<longleftrightarrow> queue_kernel.more s' = queue_kernel.more s \<and> tsk_cnt s' = tsk_cnt s \<and>
     (\<forall>u. mutexes_held (tcbs s' u) = mutexes_held (tcbs s u)) \<and>
     (\<forall>k. is_wait_list k \<longrightarrow> (C' k = None \<longleftrightarrow> C k = None) \<and> (k \<noteq> l \<longrightarrow> C' k = C k)) \<and> keeps_tasks X s s' \<and>
     ready_grows C C' \<and> sems s' = sems s \<and> same_shape s s'"

lemma keeps_tasks_queue [simp]:
  "keeps_tasks X (queue_store n d s) s' = keeps_tasks X s s'" "keeps_tasks X (queue_fetch n d s) s' = keeps_tasks X s s'"
  by (simp_all add: keeps_tasks_defs queue_store_eq queue_fetch_eq)

lemma queue_frame_port [simp]:
  "queue_frame X l s C (rtos_port_exit_critical p s') C' = queue_frame X l s C s' C'"
  "queue_frame X l s C (rtos_port_request_context_switch s') C' = queue_frame X l s C s' C'"
  "queue_frame X l (s\<lparr>primask := p\<rparr>) C s' C' = queue_frame X l s C s' C'"
  "queue_frame X l (queue_store n d s) C s' C' = queue_frame X l s C s' C'" "queue_frame X l (queue_fetch n d s) C s' C' = queue_frame X l s C s' C'"
  "queue_frame X l s C s C" "queue_frame X l s C (s\<lparr>primask := p\<rparr>) C"
proof -
  have m: "queue_kernel.more (rtos_port_exit_critical p s') = queue_kernel.more s'"
      "queue_kernel.more (rtos_port_request_context_switch s') = queue_kernel.more s'"
      "queue_kernel.more (queue_store n d s') = queue_kernel.more s'" "queue_kernel.more (queue_fetch n d s') = queue_kernel.more s'"
      "tsk_cnt (queue_store n d s') = tsk_cnt s'" "tsk_cnt (queue_fetch n d s') = tsk_cnt s'" for s' :: "'a queue_kernel_scheme" and p
    by (simp_all add: rtos_port_exit_critical_def rtos_port_request_context_switch_def queue_store_eq queue_fetch_eq)
  have sh: "same_shape (queue_store n d s) s' = same_shape s s'" "same_shape (queue_fetch n d s) s' = same_shape s s'" for s s' :: "'a queue_kernel_scheme"
    by (auto simp: same_shape_def queue_store_eq queue_fetch_eq queue_region_def)
  show "queue_frame X l s C (rtos_port_exit_critical p s') C' = queue_frame X l s C s' C'"
    "queue_frame X l s C (rtos_port_request_context_switch s') C' = queue_frame X l s C s' C'"
    "queue_frame X l (s\<lparr>primask := p\<rparr>) C s' C' = queue_frame X l s C s' C'"
    "queue_frame X l (queue_store n d s) C s' C' = queue_frame X l s C s' C'" "queue_frame X l (queue_fetch n d s) C s' C' = queue_frame X l s C s' C'"
    "queue_frame X l s C s C" "queue_frame X l s C (s\<lparr>primask := p\<rparr>) C"
    by (simp_all add: queue_frame_def m sh)
qed

lemma first_served_held:
  assumes "first_served s C l s'"
  shows "mutexes_held (tcbs s' u) = mutexes_held (tcbs s u)"
  using assms by (cases "waiters C l") (auto simp: first_served_def)

text \<open>Waking a waiter of a queue list, at the level of the queue invariant.\<close>

lemma queue_wake_qinv:
  assumes inv: "qinv s C" and l: "l = QueueReadL n \<or> l = QueueWriteL n" "C l \<noteq> None"
  shows "\<exists>s' C'. queue_wake l s = Ret (beats s C l, s') \<and> qinv s' C' \<and> (\<forall>k. queue_live C' k = queue_live C k) \<and>
           waiters C' l = tl (waiters C l) \<and> (\<forall>k. is_wait_list k \<longrightarrow> k \<noteq> l \<longrightarrow> waiters C' k = waiters C k) \<and>
           queues s' = queues s \<and> mem s' = mem s \<and> sems s' = sems s \<and> first_served s C l s' \<and>
           primask s' = primask s \<and> pendsv s' = pendsv s \<and> cur_task s' = cur_task s \<and> ticks s' = ticks s \<and> queue_frame {l} l s C s' C'"
proof -
  have w: "is_wait_list l" and si: "sinv s C" using l(1) qinvD(1)[OF inv] by auto
  obtain s' C' where r: "queue_wake l s = Ret (beats s C l, s')" "kinv s' C'" "tick_ok s' C'"
      "waiters C' l = tl (waiters C l)" "C' l \<noteq> None" "\<And>k. is_wait_list k \<Longrightarrow> k \<noteq> l \<Longrightarrow> C' k = C k"
      "first_served s C l s'" "kernel.more s' = kernel.more s"
      "primask s' = primask s" "pendsv s' = pendsv s" "cur_task s' = cur_task s" "ticks s' = ticks s" "tsk_cnt s' = tsk_cnt s" "keeps_tasks {l} s s'" "ready_grows C C'"
    using queue_wake_runs[OF sinv_kinv(1,2)[OF si] w l(2)] by blast
  have live: "C' k = None \<longleftrightarrow> C k = None" if "is_wait_list k" for k using r(5,6) l(2) that by (cases "k = l") auto
  then have ql: "\<forall>k. queue_live C' k = queue_live C k" by (simp add: queue_live_def)
  have "\<forall>k. C' (SemWaitL k) = C (SemWaitL k)" using r(6) l(1) by auto
  then have "sinv s' C'" using sinv_frame[OF si r(2,3) more_fields(1)[OF r(8)]] by blast
  then have "qinv s' C'" by (rule qinv_frame[OF inv _ more_fields(2)[OF r(8)] ql])
  moreover have "waiters C' k = waiters C k" if "is_wait_list k" "k \<noteq> l" for k using r(6)[OF that] by (rule waiters_cong)
  moreover have "queue_frame {l} l s C s' C'"
    unfolding queue_frame_def using r(6,13-15) live first_served_held[OF r(7)] more_fields[OF r(8)] by (simp add: same_shape_def)
  ultimately show ?thesis using r ql more_fields[OF r(8)] by blast
qed

lemma put_runs:
  fixes data :: u32
  assumes inv: "qinv s C" and n: "queue_live C n" and room: "q_count (queues s n) \<noteq> q_capacity (queues s n)"
  defines "x \<equiv> buffer (mem s) data (unat (q_item_size (queues s n)))"
  shows "\<exists>s' C'. queue_wake (QueueReadL n) (queue_store n data s) = Ret (beats s C (QueueReadL n), s') \<and> qinv s' C' \<and>
           spec_put x (queue_abs s C n) = (True, queue_abs s' C' n) \<and>
           (\<forall>k. queue_live C k \<longrightarrow> k \<noteq> n \<longrightarrow> queue_abs s' C' k = queue_abs s C k) \<and> (\<forall>k. queue_live C' k = queue_live C k) \<and>
           first_served s C (QueueReadL n) s' \<and> sems s' = sems s \<and>
           primask s' = primask s \<and> pendsv s' = pendsv s \<and> cur_task s' = cur_task s \<and> ticks s' = ticks s \<and> same_shape s s' \<and>
           queue_frame {QueueReadL n} (QueueReadL n) s C s' C'"
proof -
  let ?s = "queue_store n data s" and ?l = "QueueReadL n"
  note st = qinv_store[OF inv n room, where data = data]
  have l: "?l = QueueReadL n \<or> ?l = QueueWriteL n" "C ?l \<noteq> None" using n by (simp_all add: queue_live_def)
  obtain s' C' where r: "queue_wake ?l ?s = Ret (beats ?s C ?l, s')" "qinv s' C'" "\<forall>k. queue_live C' k = queue_live C k"
      "waiters C' ?l = tl (waiters C ?l)" "\<And>k. is_wait_list k \<Longrightarrow> k \<noteq> ?l \<Longrightarrow> waiters C' k = waiters C k"
      "queues s' = queues ?s" "mem s' = mem ?s" "sems s' = sems ?s" "first_served ?s C ?l s'"
      "primask s' = primask ?s" "pendsv s' = pendsv ?s" "cur_task s' = cur_task ?s" "ticks s' = ticks ?s" "queue_frame {?l} ?l ?s C s' C'"
    using queue_wake_qinv[OF st(1) l] by blast
  have a: "queue_abs s' C' n = (queue_abs ?s C n)\<lparr>readers := tl (readers (queue_abs ?s C n))\<rparr>"
    using r(4,6,7) r(5)[of "QueueWriteL n"] by (simp add: queue_abs_def)
  have "queue_abs s' C' k = queue_abs ?s C k" if "k \<noteq> n" for k
    using that r(6,7) r(5)[of "QueueReadL k"] r(5)[of "QueueWriteL k"] by (simp add: queue_abs_def)
  moreover have "length (contents (queue_abs s C n)) \<noteq> room (queue_abs s C n)"
    using room by (simp add: queue_abs_def queue_items_length word_unat_eq_iff)
  then have "spec_put x (queue_abs s C n) = (True, queue_abs s' C' n)"
    unfolding a st(2) by (simp add: spec_put_def x_def)
  moreover have "same_shape s s'" unfolding same_shape_def r(6) by (simp add: queue_store_eq queue_region_def)
  ultimately show ?thesis using r st(3) by (intro exI[of _ s'] exI[of _ C']) simp
qed

lemma get_runs:
  assumes inv: "qinv s C" and n: "queue_live C n" and some: "q_count (queues s n) \<noteq> 0"
    and d: "\<forall>k. queue_live C k \<longrightarrow> region dst (unat (q_item_size (queues s n))) \<inter> queue_region (queues s k) = {}"
  shows "\<exists>s' C'. queue_wake (QueueWriteL n) (queue_fetch n dst s) = Ret (beats s C (QueueWriteL n), s') \<and> qinv s' C' \<and>
           spec_get (queue_abs s C n) = (Some (buffer (mem s') dst (unat (q_item_size (queues s n)))), queue_abs s' C' n) \<and>
           (\<forall>k. queue_live C k \<longrightarrow> k \<noteq> n \<longrightarrow> queue_abs s' C' k = queue_abs s C k) \<and> (\<forall>k. queue_live C' k = queue_live C k) \<and>
           first_served s C (QueueWriteL n) s' \<and> sems s' = sems s \<and>
           primask s' = primask s \<and> pendsv s' = pendsv s \<and> cur_task s' = cur_task s \<and> ticks s' = ticks s \<and> same_shape s s' \<and>
           queue_frame {QueueWriteL n} (QueueWriteL n) s C s' C'"
proof -
  let ?s = "queue_fetch n dst s" and ?l = "QueueWriteL n"
  note ft = qinv_fetch[OF inv n some d]
  have l: "?l = QueueReadL n \<or> ?l = QueueWriteL n" "C ?l \<noteq> None" using n by (simp_all add: queue_live_def)
  obtain s' C' where r: "queue_wake ?l ?s = Ret (beats ?s C ?l, s')" "qinv s' C'" "\<forall>k. queue_live C' k = queue_live C k"
      "waiters C' ?l = tl (waiters C ?l)" "\<And>k. is_wait_list k \<Longrightarrow> k \<noteq> ?l \<Longrightarrow> waiters C' k = waiters C k"
      "queues s' = queues ?s" "mem s' = mem ?s" "sems s' = sems ?s" "first_served ?s C ?l s'"
      "primask s' = primask ?s" "pendsv s' = pendsv ?s" "cur_task s' = cur_task ?s" "ticks s' = ticks ?s" "queue_frame {?l} ?l ?s C s' C'"
    using queue_wake_qinv[OF ft(1) l] by blast
  have a: "queue_abs s' C' n = (queue_abs ?s C n)\<lparr>writers := tl (writers (queue_abs ?s C n))\<rparr>"
    using r(4,6,7) r(5)[of "QueueReadL n"] by (simp add: queue_abs_def)
  have "queue_abs s' C' k = queue_abs ?s C k" if "k \<noteq> n" for k
    using that r(6,7) r(5)[of "QueueReadL k"] r(5)[of "QueueWriteL k"] by (simp add: queue_abs_def)
  moreover have "spec_get (queue_abs s C n) = (Some (buffer (mem s') dst (unat (q_item_size (queues s n)))), queue_abs s' C' n)"
  proof -
    have "spec_get (queue_abs s C n) = (Some (buffer (mem ?s) dst (unat (q_item_size (queues s n)))),
        (queue_abs s C n)\<lparr>contents := tl (contents (queue_abs s C n)), writers := tl (writers (queue_abs s C n))\<rparr>)"
      using ft(2) by (simp add: spec_get_def)
    then show ?thesis unfolding a ft(3) r(7) by simp
  qed
  moreover have "same_shape s s'" unfolding same_shape_def r(6) by (simp add: queue_fetch_eq queue_region_def)
  ultimately show ?thesis using r ft(4) by (intro exI[of _ s'] exI[of _ C']) simp
qed

lemma assert_valid_ok: "queue_wf (queues s n) \<Longrightarrow> rtos_queue_assert_valid (Some n) s = Ret s"
  using queue_write_below[of "queues s n"]
  by (simp add: rtos_queue_assert_valid_def queue_wf_def word_neq_0_conv word_less_nat_alt)

lemma queue_wait_free: "\<not> blocked s \<Longrightarrow> queue_wait run blocked l w forever p s = Some (Ret (Some p, s))"
  by (subst queue_wait.simps) simp

lemma queue_wait_expired:
  "blocked s \<Longrightarrow> w - ticks s = 0 \<or> w - ticks s \<ge> 0x80000000 \<Longrightarrow>
   queue_wait run blocked l w False p s = Some (Ret (None, rtos_port_exit_critical p s))"
  by (subst queue_wait.simps) (auto simp: rtos_current_tick_def Let_def)

lemma enqueue_runs:
  fixes data timeout :: u32
  assumes "qinv s C" "queue_live C n" "data \<noteq> 0"
  defines "a \<equiv> spec_put (buffer (mem s) data (unat (q_item_size (queues s n)))) (queue_abs s C n)"
    and "higher \<equiv> beats s C (QueueReadL n)"
  shows "\<exists>s' C'. artos_queue_enqueue_from_isr (Some n) data flag s =
             Ret (fst a, if fst a \<and> flag \<noteq> None \<and> higher then Some True else flag, s') \<and>
           artos_queue_enqueue run (Some n) data (if fst a then timeout else 0) s =
             Ret (fst a, if fst a \<and> higher then rtos_port_request_context_switch s' else s') \<and>
           qinv s' C' \<and> queue_abs s' C' n = snd a \<and> (\<forall>k. queue_live C k \<longrightarrow> k \<noteq> n \<longrightarrow> queue_abs s' C' k = queue_abs s C k) \<and>
           (if fst a then first_served s C (QueueReadL n) s' else s' = s) \<and> primask s' = primask s \<and> pendsv s' = pendsv s \<and> same_shape s s' \<and>
           (\<forall>k. queue_live C' k = queue_live C k) \<and> queue_frame {QueueReadL n} (QueueReadL n) s C s' C'"
proof -
  let ?s0 = "s\<lparr>primask := 1\<rparr>" and ?ex = "rtos_port_exit_critical (primask s)"
  have inv0: "qinv ?s0 C" using assms(1) by simp
  have v: "rtos_queue_assert_valid (Some n) ?s0 = Ret ?s0" using qinvD(2)[OF assms(1,2)] by (intro assert_valid_ok) simp
  show ?thesis
  proof (cases "q_count (queues s n) = q_capacity (queues s n)")
    case True
    then have a: "a = (False, queue_abs s C n)" unfolding a_def by (simp add: spec_put_def queue_abs_def queue_items_length)
    have w: "enqueue_wait run n (ticks s) False (primask s) ?s0 = Some (Ret (None, ?ex ?s0))"
      unfolding enqueue_wait_def using True by (intro queue_wait_expired) simp_all
    have e: "?ex ?s0 = s" by (simp add: rtos_port_exit_critical_def)
    show ?thesis using a v w True assms(1,3) unfolding e
      by (intro exI[of _ s] exI[of _ C])
        (simp add: artos_queue_enqueue_from_isr_def artos_queue_enqueue_def rtos_port_enter_critical_def
          rtos_current_tick_def loop_res_def e ARTOS_DELAY_INFINITY_def)
  next
    case False
    obtain s' C' where r: "queue_wake (QueueReadL n) (queue_store n data ?s0) = Ret (higher, s')" "qinv s' C'" "a = (True, queue_abs s' C' n)"
        "\<forall>k. queue_live C k \<longrightarrow> k \<noteq> n \<longrightarrow> queue_abs s' C' k = queue_abs s C k"
        "first_served s C (QueueReadL n) s'" "pendsv s' = pendsv s" "same_shape s s'" "\<forall>k. queue_live C' k = queue_live C k"
        "queue_frame {QueueReadL n} (QueueReadL n) s C s' C'"
      using put_runs[OF inv0 assms(2), of data] False by (auto simp: a_def higher_def)
    have w: "enqueue_wait run n w inf (primask s) ?s0 = Some (Ret (Some (primask s), ?s0))" for w inf
      unfolding enqueue_wait_def using False by (intro queue_wait_free) simp
    show ?thesis using r v w False assms(3)
      by (intro exI[of _ "?ex s'"] exI[of _ C'])
        (simp add: artos_queue_enqueue_from_isr_def artos_queue_enqueue_def rtos_port_enter_critical_def loop_res_def)
  qed
qed

text \<open>
  \<^bold>\<open>C17.\<close> Enqueuing refines the bounded FIFO: with room, the bytes at \<open>data\<close> become the last item, the first
  waiting reader is woken, and the call returns true, at task level whatever the timeout and at
  interrupt level alike; a woken task of higher priority is announced by a switch request or by the flag.
  A full queue makes the interrupt-level call, and the task-level one with timeout 0, return false
  with nothing changed. The other queues, the semaphores' invariant and the interrupt mask are kept.
\<close>

theorem queue_enqueue_refines:
  fixes data timeout :: u32
  assumes "qinv s C" "queue_live C n" "data \<noteq> 0"
  defines "a \<equiv> spec_put (buffer (mem s) data (unat (q_item_size (queues s n)))) (queue_abs s C n)"
    and "higher \<equiv> beats s C (QueueReadL n)"
  shows "\<exists>s' C'. artos_queue_enqueue_from_isr (Some n) data flag s =
             Ret (fst a, if fst a \<and> flag \<noteq> None \<and> higher then Some True else flag, s') \<and>
           artos_queue_enqueue run (Some n) data (if fst a then timeout else 0) s =
             Ret (fst a, if fst a \<and> higher then rtos_port_request_context_switch s' else s') \<and>
           qinv s' C' \<and> queue_abs s' C' n = snd a \<and> (\<forall>k. queue_live C k \<longrightarrow> k \<noteq> n \<longrightarrow> queue_abs s' C' k = queue_abs s C k) \<and>
           (if fst a then first_served s C (QueueReadL n) s' else s' = s) \<and> primask s' = primask s \<and> pendsv s' = pendsv s"
  using enqueue_runs[OF assms(1-3), of flag run timeout] unfolding a_def higher_def by blast

lemma dequeue_runs:
  fixes dst timeout :: u32
  assumes "qinv s C" "queue_live C n" "dst \<noteq> 0"
    and d: "\<forall>k. queue_live C k \<longrightarrow> region dst (unat (q_item_size (queues s n))) \<inter> queue_region (queues s k) = {}"
  defines "a \<equiv> spec_get (queue_abs s C n)" and "higher \<equiv> beats s C (QueueWriteL n)"
  defines "ok \<equiv> fst a \<noteq> None"
  shows "\<exists>s' C'. artos_queue_dequeue_from_isr (Some n) dst flag s =
             Ret (ok, if ok \<and> flag \<noteq> None \<and> higher then Some True else flag, s') \<and>
           artos_queue_dequeue run (Some n) dst (if ok then timeout else 0) s =
             Ret (ok, if ok \<and> higher then rtos_port_request_context_switch s' else s') \<and>
           qinv s' C' \<and> queue_abs s' C' n = snd a \<and> (\<forall>k. queue_live C k \<longrightarrow> k \<noteq> n \<longrightarrow> queue_abs s' C' k = queue_abs s C k) \<and>
           (if ok then fst a = Some (buffer (mem s') dst (unat (q_item_size (queues s n)))) \<and> first_served s C (QueueWriteL n) s'
            else s' = s) \<and> primask s' = primask s \<and> pendsv s' = pendsv s \<and> same_shape s s' \<and>
           (\<forall>k. queue_live C' k = queue_live C k) \<and> queue_frame {QueueWriteL n} (QueueWriteL n) s C s' C'"
proof -
  let ?s0 = "s\<lparr>primask := 1\<rparr>" and ?ex = "rtos_port_exit_critical (primask s)"
  have inv0: "qinv ?s0 C" using assms(1) by simp
  have v: "rtos_queue_assert_valid (Some n) ?s0 = Ret ?s0" using qinvD(2)[OF assms(1,2)] by (intro assert_valid_ok) simp
  show ?thesis
  proof (cases "q_count (queues s n) = 0")
    case True
    then have a: "a = (None, queue_abs s C n)" "ok = False" unfolding a_def ok_def by (simp_all add: spec_get_def queue_abs_def queue_items_def)
    have w: "dequeue_wait run n (ticks s) False (primask s) ?s0 = Some (Ret (None, ?ex ?s0))"
      unfolding dequeue_wait_def using True by (intro queue_wait_expired) simp_all
    have e: "?ex ?s0 = s" by (simp add: rtos_port_exit_critical_def)
    show ?thesis using a v w True assms(1,3) unfolding e
      by (intro exI[of _ s] exI[of _ C])
        (simp add: artos_queue_dequeue_from_isr_def artos_queue_dequeue_def rtos_port_enter_critical_def
          rtos_current_tick_def loop_res_def e ARTOS_DELAY_INFINITY_def)
  next
    case False
    have d0: "\<forall>k. queue_live C k \<longrightarrow> region dst (unat (q_item_size (queues ?s0 n))) \<inter> queue_region (queues ?s0 k) = {}"
      using d by simp
    obtain s' C' where r: "queue_wake (QueueWriteL n) (queue_fetch n dst ?s0) = Ret (higher, s')" "qinv s' C'"
        "a = (Some (buffer (mem s') dst (unat (q_item_size (queues s n)))), queue_abs s' C' n)"
        "\<forall>k. queue_live C k \<longrightarrow> k \<noteq> n \<longrightarrow> queue_abs s' C' k = queue_abs s C k"
        "first_served s C (QueueWriteL n) s'" "pendsv s' = pendsv s" "same_shape s s'" "\<forall>k. queue_live C' k = queue_live C k"
        "queue_frame {QueueWriteL n} (QueueWriteL n) s C s' C'"
      using get_runs[OF inv0 assms(2) _ d0] False by (auto simp: a_def higher_def)
    have w: "dequeue_wait run n w inf (primask s) ?s0 = Some (Ret (Some (primask s), ?s0))" for w inf
      unfolding dequeue_wait_def using False by (intro queue_wait_free) simp
    have "ok = True" using r(3) by (simp add: ok_def)
    then show ?thesis using r v w False assms(3)
      by (intro exI[of _ "?ex s'"] exI[of _ C'])
        (simp add: artos_queue_dequeue_from_isr_def artos_queue_dequeue_def rtos_port_enter_critical_def loop_res_def)
  qed
qed

text \<open>
  \<^bold>\<open>C21.\<close> Dequeuing refines the bounded FIFO: from a queue that is not empty, the first item's bytes arrive at \<open>dst\<close>,
  the first waiting writer is woken and the call returns true; an empty queue makes the
  interrupt-level call, and the task-level one with timeout 0, return false with nothing changed. The
  destination must not overlap the storage of a queue.
\<close>

theorem queue_dequeue_refines:
  fixes dst timeout :: u32
  assumes "qinv s C" "queue_live C n" "dst \<noteq> 0"
    and d: "\<forall>k. queue_live C k \<longrightarrow> region dst (unat (q_item_size (queues s n))) \<inter> queue_region (queues s k) = {}"
  defines "a \<equiv> spec_get (queue_abs s C n)" and "higher \<equiv> beats s C (QueueWriteL n)"
  defines "ok \<equiv> fst a \<noteq> None"
  shows "\<exists>s' C'. artos_queue_dequeue_from_isr (Some n) dst flag s =
             Ret (ok, if ok \<and> flag \<noteq> None \<and> higher then Some True else flag, s') \<and>
           artos_queue_dequeue run (Some n) dst (if ok then timeout else 0) s =
             Ret (ok, if ok \<and> higher then rtos_port_request_context_switch s' else s') \<and>
           qinv s' C' \<and> queue_abs s' C' n = snd a \<and> (\<forall>k. queue_live C k \<longrightarrow> k \<noteq> n \<longrightarrow> queue_abs s' C' k = queue_abs s C k) \<and>
           (if ok then fst a = Some (buffer (mem s') dst (unat (q_item_size (queues s n)))) \<and> first_served s C (QueueWriteL n) s'
            else s' = s) \<and> primask s' = primask s \<and> pendsv s' = pendsv s"
  using dequeue_runs[OF assms(1-4), of flag run timeout] unfolding a_def higher_def ok_def by blast

text \<open>
  \<^bold>\<open>C31.\<close> A finite timeout of \<open>2 ^ 31\<close> ticks or more does not wait at all: on a full queue \<open>artos_queue_enqueue\<close>
  returns false at once, on an empty one \<open>artos_queue_dequeue\<close> does, and nothing changes. The
  documentation of both promises to wait for up to \<open>tick_timeout\<close> ticks.
\<close>

theorem queue_long_timeout_fails:
  assumes "queue_wf (queues s n)" "data \<noteq> 0" "0x80000000 \<le> timeout" "timeout \<noteq> ARTOS_DELAY_INFINITY"
  shows "(q_count (queues s n) = q_capacity (queues s n) \<longrightarrow> artos_queue_enqueue run (Some n) data timeout s = Ret (False, s)) \<and>
         (q_count (queues s n) = 0 \<longrightarrow> artos_queue_dequeue run (Some n) data timeout s = Ret (False, s))"
proof -
  let ?s0 = "s\<lparr>primask := 1\<rparr>" and ?ex = "rtos_port_exit_critical (primask s)"
  have e: "?ex ?s0 = s" by (simp add: rtos_port_exit_critical_def)
  have v: "rtos_queue_assert_valid (Some n) ?s0 = Ret ?s0" using assms(1) by (intro assert_valid_ok) simp
  have w: "queue_wait run b l (timeout + ticks s) False (primask s) ?s0 = Some (Ret (None, s))" if "b ?s0" for b l
    using queue_wait_expired[of b ?s0 "timeout + ticks s" run l "primask s"] that assms(3) e by simp
  show ?thesis using v w assms(2,4)
    by (simp add: artos_queue_enqueue_def artos_queue_dequeue_def rtos_port_enter_critical_def rtos_current_tick_def
        enqueue_wait_def dequeue_wait_def loop_res_def)
qed

section \<open>Initialisation\<close>

lemma size_check_iff: "\<not> SIZE_MAX div item_size < capacity \<longleftrightarrow> unat item_size * unat capacity < 2 ^ 32" if "item_size \<noteq> 0"
proof -
  have "\<not> SIZE_MAX div item_size < capacity \<longleftrightarrow> unat capacity \<le> unat SIZE_MAX div unat item_size"
    by (simp add: word_less_nat_alt unat_div not_less)
  also have "\<dots> \<longleftrightarrow> unat capacity * unat item_size \<le> unat SIZE_MAX"
    using that by (intro less_eq_div_iff_mult_less_eq) (simp add: unat_gt_0)
  finally show ?thesis by (auto simp: SIZE_MAX_def mult.commute)
qed

lemma qinv_new_queue:
  assumes inv: "qinv s C" and l: "C (QueueReadL n) = None \<or> C (QueueReadL n) = Some []" "C (QueueWriteL n) = None \<or> C (QueueWriteL n) = Some []"
    and q: "queue_wf q" "\<forall>k. queue_live C k \<longrightarrow> k \<noteq> n \<longrightarrow> queue_region q \<inter> queue_region (queues s k) = {}"
  defines "m \<equiv> rtos_init_list (Some (QueueWriteL n)) (rtos_init_list (Some (QueueReadL n)) (lists s))"
  shows "qinv (s\<lparr>queues := (queues s)(n := q), lists := m\<rparr>) (C(QueueReadL n \<mapsto> [], QueueWriteL n \<mapsto> []))" (is "qinv ?s' ?C")
proof -
  let ?s1 = "s\<lparr>lists := rtos_init_list (Some (QueueReadL n)) (lists s)\<rparr>" and ?C1 = "C(QueueReadL n \<mapsto> [])"
  let ?s2 = "s\<lparr>lists := m\<rparr>"
  note k = sinv_kinv(1,2)[OF qinvD(1)[OF inv]]
  have 1: "kinv ?s1 ?C1" "tick_ok ?s1 ?C1" using kinv_new_wait_list[OF k(1) _ l(1)] tick_ok_new_wait_list[OF k] by simp_all
  have l2: "?C1 (QueueWriteL n) = None \<or> ?C1 (QueueWriteL n) = Some []" using l(2) by simp
  let ?s3 = "?s1\<lparr>lists := rtos_init_list (Some (QueueWriteL n)) (lists ?s1)\<rparr>"
  have "kinv ?s3 ?C" by (rule kinv_new_wait_list[OF 1(1) _ l2]) simp
  moreover have "tick_ok ?s3 ?C" by (rule tick_ok_new_wait_list[OF 1]) simp
  ultimately have 2: "kinv ?s2 ?C" "tick_ok ?s2 ?C" by (simp_all add: m_def)
  have "sinv ?s2 ?C" by (rule sinv_frame[OF qinvD(1)[OF inv] 2]) simp_all
  then have "sinv (?s2\<lparr>queues := (queues s)(n := q)\<rparr>) ?C" unfolding sinv_queues .
  moreover have "?s2\<lparr>queues := (queues s)(n := q)\<rparr> = ?s'" by (rule queue_kernel.equality) simp_all
  ultimately have "sinv ?s' ?C" by simp
  then show ?thesis using inv q unfolding qinv_def queue_live_def by (auto simp: Int_commute)
qed

text \<open>
  Queue initialisation: NULL control block or storage, a zero capacity or item size, and a size that would
  overflow \<open>size_t\<close> give NULL and change nothing. Otherwise the queue is empty, nobody waits, and the
  invariant holds with it, provided its storage is apart from the other queues'.
\<close>

theorem queue_init_correct:
  fixes storage item_size capacity :: u32
  assumes "qinv s C" "C (QueueReadL n) = None \<or> C (QueueReadL n) = Some []" "C (QueueWriteL n) = None \<or> C (QueueWriteL n) = Some []"
    and "\<forall>k. queue_live C k \<longrightarrow> k \<noteq> n \<longrightarrow> region storage (unat item_size * unat capacity) \<inter> queue_region (queues s k) = {}"
  defines "C' \<equiv> C(QueueReadL n \<mapsto> [], QueueWriteL n \<mapsto> [])"
  shows "(if storage = 0 \<or> capacity = 0 \<or> item_size = 0 \<or> unat item_size * unat capacity \<ge> 2 ^ 32
          then artos_queue_init (Some n) storage item_size capacity s = (None, s)
          else \<exists>s'. artos_queue_init (Some n) storage item_size capacity s = (Some n, s') \<and> qinv s' C' \<and>
                 queue_abs s' C' n = \<lparr>contents = [], room = unat capacity, readers = [], writers = []\<rparr>) \<and>
         artos_queue_init None storage item_size capacity s = (None, s)"
proof (cases "storage = 0 \<or> capacity = 0 \<or> item_size = 0 \<or> unat item_size * unat capacity \<ge> 2 ^ 32")
  case True
  then show ?thesis using size_check_iff[of item_size capacity] by (auto simp: artos_queue_init_def)
next
  case False
  let ?q = "(queues s n)\<lparr>q_count := 0, q_item_size := item_size, q_capacity := capacity, q_read_index := 0, q_write_index := 0, q_storage := storage\<rparr>"
  let ?s' = "s\<lparr>queues := (queues s)(n := ?q),
    lists := rtos_init_list (Some (QueueWriteL n)) (rtos_init_list (Some (QueueReadL n)) (lists s))\<rparr>"
  have ck: "\<not> SIZE_MAX div item_size < capacity" using False size_check_iff[of item_size capacity] by simp
  have wf: "queue_wf ?q" using False by (simp add: queue_wf_def word_neq_0_conv)
  have "qinv ?s' C'" unfolding C'_def using assms(4) by (intro qinv_new_queue[OF assms(1-3) wf]) (simp add: queue_region_def)
  moreover have "artos_queue_init (Some n) storage item_size capacity s = (Some n, ?s')"
    using False ck by (simp add: artos_queue_init_def upd_queue_def)
  moreover have "queue_abs ?s' C' n = \<lparr>contents = [], room = unat capacity, readers = [], writers = []\<rparr>"
    by (simp add: queue_abs_def queue_items_def C'_def waiters_def)
  ultimately show ?thesis using False by (auto simp: artos_queue_init_def)
qed

section \<open>Blocking calls\<close>

lemma clear_reason_eq:
  "rtos_clear_current_wait_reason s =
     (case cur_task s of None \<Rightarrow> s | Some t \<Rightarrow> upd_tcb t (\<lambda>x. x\<lparr>wait_reason := WAIT_NO_REASON\<rparr>) s)"
  by (cases "cur_task s")
    (simp_all add: rtos_clear_current_wait_reason_def rtos_port_enter_critical_def rtos_port_exit_critical_def upd_tcb_def)

lemma clear_reason_port [simp]:
  "rtos_clear_current_wait_reason (s\<lparr>primask := p\<rparr>) = (rtos_clear_current_wait_reason s)\<lparr>primask := p\<rparr>"
  "rtos_current_wait_reason (s\<lparr>primask := p\<rparr>) = rtos_current_wait_reason s"
  "primask (rtos_clear_current_wait_reason s) = primask s" "ticks (rtos_clear_current_wait_reason s) = ticks s"
  "rtos_port_exit_critical (primask s) (rtos_clear_current_wait_reason s) = rtos_clear_current_wait_reason s"
  by (cases "cur_task s"; simp add: clear_reason_eq rtos_current_wait_reason_def upd_tcb_def rtos_port_exit_critical_def)+

lemma clear_reason_queues [simp]:
  "queues (rtos_clear_current_wait_reason s) = queues s" "mem (rtos_clear_current_wait_reason s) = mem s"
  by (cases "cur_task s"; simp add: clear_reason_eq upd_tcb_def)+

text \<open>The state of a task that has blocked on a queue: waiting in \<open>l\<close> until its deadline, the switch requested.\<close>

definition blocked_on :: "'z kernel_scheme \<Rightarrow> tcb_ref \<Rightarrow> list_ref \<Rightarrow> u32 \<Rightarrow> 'z kernel_scheme \<Rightarrow> bool" where
  "blocked_on s t l timeout s' \<longleftrightarrow>
     pendsv s' \<and> primask s' = primask s \<and> cur_task s' = cur_task s \<and> ticks s' = ticks s \<and>
     cont (lists s') (EventItem t) = Some l \<and>
     (if timeout = ARTOS_DELAY_INFINITY then cont (lists s') (StateItem t) = Some SuspendL
      else sleeping s' t (timeout + ticks s) (Some l))"

lemma block_on_queue:
  fixes timeout :: u32
  assumes inv: "qinv s C" and t: "running s t" and l: "l = QueueReadL n \<or> l = QueueWriteL n" "C l \<noteq> None"
    and w: "timeout = ARTOS_DELAY_INFINITY \<or> timeout \<noteq> 0"
  defines "endless \<equiv> timeout = ARTOS_DELAY_INFINITY"
  defines "wake \<equiv> (if endless then ARTOS_DELAY_INFINITY else timeout + ticks s)"
  shows "\<exists>m C'. rtos_block_current_task wake (Some l) endless (s\<lparr>primask := 1\<rparr>) = Ret (s\<lparr>primask := 1, lists := m\<rparr>) \<and>
           qinv (s\<lparr>primask := 1, lists := m\<rparr>) C' \<and> (\<forall>k. queue_live C' k = queue_live C k) \<and>
           waiters C' l = enqueue_waiter (\<lambda>u. effective_priority (tcbs s u)) t (waiters C l) \<and>
           (\<forall>k. is_wait_list k \<longrightarrow> k \<noteq> l \<longrightarrow> waiters C' k = waiters C k) \<and>
           blocked_on s t l timeout (rtos_port_request_context_switch (rtos_port_exit_critical (primask s) (s\<lparr>primask := 1, lists := m\<rparr>))) \<and>
           queue_frame {} l s C (s\<lparr>primask := 1, lists := m\<rparr>) C'"
proof -
  let ?s0 = "s\<lparr>primask := 1\<rparr>"
  have si: "sinv ?s0 C" using qinvD(1)[OF inv] by simp
  have k: "kinv ?s0 C" "tick_ok ?s0 C" "running ?s0 t" "is_wait_list l" "endless \<or> wake \<noteq> ticks ?s0"
    using sinv_kinv(1,2)[OF si] t l(1) w by (auto simp: running_def user_task_def wake_def endless_def)
  obtain m C' where m: "rtos_block_current_task wake (Some l) endless ?s0 = Ret (?s0\<lparr>lists := m\<rparr>)"
      "kinv (?s0\<lparr>lists := m\<rparr>) C'" "tick_ok (?s0\<lparr>lists := m\<rparr>) C'"
      "waiters C' l = enqueue_waiter (\<lambda>u. effective_priority (tcbs s u)) t (waiters C l)"
      "\<And>k. is_wait_list k \<Longrightarrow> k \<noteq> l \<Longrightarrow> C' k = C k" "C' l \<noteq> None"
      "cont m (StateItem t) = Some (block_target wake endless ?s0)" "cont m (EventItem t) = Some l" "val m (StateItem t) = wake"
      "\<And>u. u \<noteq> t \<Longrightarrow> stays (lists s) m u" "ready_grows C C'"
    using block_on[OF k(1-4) l(2) k(5)] by auto
  have live: "C' j = None \<longleftrightarrow> C j = None" if "is_wait_list j" for j using m(5,6) l(2) that by (cases "j = l") auto
  then have ql: "\<forall>j. queue_live C' j = queue_live C j" by (simp add: queue_live_def)
  have "\<forall>j. C' (SemWaitL j) = C (SemWaitL j)" using m(5) l(1) by auto
  then have "sinv (?s0\<lparr>lists := m\<rparr>) C'" by (intro sinv_frame[OF si m(2,3)]) simp_all
  then have "qinv (?s0\<lparr>lists := m\<rparr>) C'" by (rule qinv_frame[OF inv _ _ ql]) simp
  moreover have "blocked_on s t l timeout (rtos_port_request_context_switch (rtos_port_exit_critical (primask s) (?s0\<lparr>lists := m\<rparr>)))"
    using m(7-9) kinv_block_target[OF k(1), of wake] by (cases endless) (auto simp: blocked_on_def sleeping_def block_target_def wake_def endless_def)
  moreover have "waiters C' j = waiters C j" if "is_wait_list j" "j \<noteq> l" for j using m(5)[OF that] by (rule waiters_cong)
  moreover have "keeps_tasks {} s (?s0\<lparr>lists := m\<rparr>)" using block_keeps[OF k(3), of m] m(7,10) by simp
  then have "queue_frame {} l s C (?s0\<lparr>lists := m\<rparr>) C'" using m(5,11) live by (simp add: queue_frame_def same_shape_def)
  ultimately show ?thesis using m(1,4) ql by blast
qed

text \<open>One round of the waiting loop.\<close>

lemma queue_wait_round:
  assumes "blocked s" "forever \<or> w - ticks s \<noteq> 0 \<and> w - ticks s < 0x80000000"
    and "rtos_block_current_task w (Some l) forever s = Ret s1"
    and "run (rtos_port_request_context_switch (rtos_port_exit_critical p s1)) = Ret s2"
  shows "queue_wait run blocked l w forever p s =
    (if rtos_current_wait_reason s2 = WAIT_TIMED_OUT then Some (Ret (None, rtos_clear_current_wait_reason s2))
     else queue_wait run blocked l w forever (primask s2) ((rtos_clear_current_wait_reason s2)\<lparr>primask := 1\<rparr>))"
proof -
  have e: "rtos_port_exit_critical (primask s2) ((rtos_clear_current_wait_reason s2)\<lparr>primask := 1\<rparr>) = rtos_clear_current_wait_reason s2"
    using clear_reason_port(5)[of s2] by (simp add: rtos_port_exit_critical_def)
  show ?thesis
    using assms by (subst queue_wait.simps) (auto simp: rtos_current_tick_def rtos_port_enter_critical_def e Let_def)
qed

lemma queue_wait_blocks:
  fixes timeout :: u32
  assumes inv: "qinv s C" and t: "running s t" and l: "l = QueueReadL n \<or> l = QueueWriteL n" "C l \<noteq> None"
    and b: "b (s\<lparr>primask := 1\<rparr>)" and timeout: "timeout = ARTOS_DELAY_INFINITY \<or> timeout \<noteq> 0 \<and> timeout < 0x80000000"
  defines "wake \<equiv> (if timeout = ARTOS_DELAY_INFINITY then ARTOS_DELAY_INFINITY else timeout + ticks s)"
  shows "\<exists>s1 C1. qinv s1 C1 \<and> blocked_on s t l timeout s1 \<and> tcbs s1 = tcbs s \<and> queues s1 = queues s \<and> mem s1 = mem s \<and>
           waiters C1 l = enqueue_waiter (\<lambda>u. effective_priority (tcbs s u)) t (waiters C l) \<and>
           (\<forall>k. is_wait_list k \<longrightarrow> k \<noteq> l \<longrightarrow> waiters C1 k = waiters C k) \<and>
           (\<forall>s2. run s1 = Ret s2 \<longrightarrow>
              queue_wait run b l wake (timeout = ARTOS_DELAY_INFINITY) (primask s) (s\<lparr>primask := 1\<rparr>) =
                (if rtos_current_wait_reason s2 = WAIT_TIMED_OUT then Some (Ret (None, rtos_clear_current_wait_reason s2))
                 else queue_wait run b l wake (timeout = ARTOS_DELAY_INFINITY) (primask s2)
                   ((rtos_clear_current_wait_reason s2)\<lparr>primask := 1\<rparr>)))"
proof -
  let ?s0 = "s\<lparr>primask := 1\<rparr>" and ?endless = "timeout = ARTOS_DELAY_INFINITY"
  have nz: "?endless \<or> timeout \<noteq> 0" using timeout by blast
  obtain m C' where m: "rtos_block_current_task wake (Some l) ?endless ?s0 = Ret (?s0\<lparr>lists := m\<rparr>)"
      "qinv (?s0\<lparr>lists := m\<rparr>) C'" "waiters C' l = enqueue_waiter (\<lambda>u. effective_priority (tcbs s u)) t (waiters C l)"
      "\<forall>k. is_wait_list k \<longrightarrow> k \<noteq> l \<longrightarrow> waiters C' k = waiters C k"
      "blocked_on s t l timeout (rtos_port_request_context_switch (rtos_port_exit_critical (primask s) (?s0\<lparr>lists := m\<rparr>)))"
    unfolding wake_def using block_on_queue[OF inv t l nz] by blast
  let ?s1 = "rtos_port_request_context_switch (rtos_port_exit_critical (primask s) (?s0\<lparr>lists := m\<rparr>))"
  have d: "?endless \<or> wake - ticks ?s0 \<noteq> 0 \<and> wake - ticks ?s0 < 0x80000000" using timeout by (auto simp: wake_def)
  have "queue_wait run b l wake ?endless (primask s) ?s0 =
      (if rtos_current_wait_reason s2 = WAIT_TIMED_OUT then Some (Ret (None, rtos_clear_current_wait_reason s2))
       else queue_wait run b l wake ?endless (primask s2) ((rtos_clear_current_wait_reason s2)\<lparr>primask := 1\<rparr>))"
    if "run ?s1 = Ret s2" for s2
    by (rule queue_wait_round[where blocked = b and s = ?s0 and run = run and p = "primask s", OF b d m(1) that])
  then show ?thesis using m(2-5) by (intro exI[of _ ?s1] exI[of _ C']) simp
qed

text \<open>
  Enqueuing to a full queue with a timeout below \<open>2 ^ 31\<close> or infinite: the caller blocks, behind the writers of
  at least its priority, asleep until its deadline. When it runs again, a time-out makes the call
  return false; otherwise the call goes on exactly like a new call with the time that remains.
\<close>

theorem queue_enqueue_blocks:
  fixes timeout :: u32
  assumes "qinv s C" "running s t" "queue_live C n" "data \<noteq> 0" "q_count (queues s n) = q_capacity (queues s n)"
    and "timeout = ARTOS_DELAY_INFINITY \<or> timeout \<noteq> 0 \<and> timeout < 0x80000000"
  shows "\<exists>s1 C1. qinv s1 C1 \<and> blocked_on s t (QueueWriteL n) timeout s1 \<and> tcbs s1 = tcbs s \<and>
           queue_abs s1 C1 n = (queue_abs s C n)
             \<lparr>writers := enqueue_waiter (\<lambda>u. effective_priority (tcbs s u)) t (writers (queue_abs s C n))\<rparr> \<and>
           (\<forall>s2. run s1 = Ret s2 \<longrightarrow> queue_wf (queues s2 n) \<longrightarrow> timeout + ticks s - ticks s2 \<noteq> ARTOS_DELAY_INFINITY \<longrightarrow>
              artos_queue_enqueue run (Some n) data timeout s =
                (if rtos_current_wait_reason s2 = WAIT_TIMED_OUT then Ret (False, rtos_clear_current_wait_reason s2)
                 else artos_queue_enqueue run (Some n) data
                   (if timeout = ARTOS_DELAY_INFINITY then ARTOS_DELAY_INFINITY else timeout + ticks s - ticks s2)
                   (rtos_clear_current_wait_reason s2)))"
proof -
  have l: "QueueWriteL n = QueueReadL n \<or> QueueWriteL n = QueueWriteL n" "C (QueueWriteL n) \<noteq> None"
    using assms(3) by (auto simp: queue_live_def)
  let ?b = "\<lambda>s. q_count (queues s n) = q_capacity (queues s n)"
  have b: "?b (s\<lparr>primask := 1\<rparr>)" using assms(5) by simp
  note w = queue_wait_blocks[where b = ?b and run = run, OF assms(1,2) l b assms(6), folded enqueue_wait_def]
  have v: "rtos_queue_assert_valid (Some n) (s\<lparr>primask := 1\<rparr>) = Ret (s\<lparr>primask := 1\<rparr>)"
    using qinvD(2)[OF assms(1,3)] by (intro assert_valid_ok) simp
  have v2: "rtos_queue_assert_valid (Some n) ((rtos_clear_current_wait_reason s2)\<lparr>primask := 1\<rparr>) =
      Ret ((rtos_clear_current_wait_reason s2)\<lparr>primask := 1\<rparr>)" if "queue_wf (queues s2 n)" for s2 :: "'a queue_kernel_scheme"
    using that by (intro assert_valid_ok) simp
  obtain s1 C1 where "qinv s1 C1" "blocked_on s t (QueueWriteL n) timeout s1" "tcbs s1 = tcbs s" "queues s1 = queues s" "mem s1 = mem s"
      "waiters C1 (QueueWriteL n) = enqueue_waiter (\<lambda>u. effective_priority (tcbs s u)) t (waiters C (QueueWriteL n))"
      "waiters C1 (QueueReadL n) = waiters C (QueueReadL n)" and
    r: "\<And>s2. run s1 = Ret s2 \<Longrightarrow>
      enqueue_wait run n (if timeout = ARTOS_DELAY_INFINITY then ARTOS_DELAY_INFINITY else timeout + ticks s)
        (timeout = ARTOS_DELAY_INFINITY) (primask s) (s\<lparr>primask := 1\<rparr>) =
      (if rtos_current_wait_reason s2 = WAIT_TIMED_OUT then Some (Ret (None, rtos_clear_current_wait_reason s2))
       else enqueue_wait run n (if timeout = ARTOS_DELAY_INFINITY then ARTOS_DELAY_INFINITY else timeout + ticks s)
         (timeout = ARTOS_DELAY_INFINITY) (primask s2) ((rtos_clear_current_wait_reason s2)\<lparr>primask := 1\<rparr>))"
    using w by auto
  moreover have "artos_queue_enqueue run (Some n) data timeout s =
      (if rtos_current_wait_reason s2 = WAIT_TIMED_OUT then Ret (False, rtos_clear_current_wait_reason s2)
       else artos_queue_enqueue run (Some n) data
         (if timeout = ARTOS_DELAY_INFINITY then ARTOS_DELAY_INFINITY else timeout + ticks s - ticks s2)
         (rtos_clear_current_wait_reason s2))"
    if "run s1 = Ret s2" "queue_wf (queues s2 n)" "timeout + ticks s - ticks s2 \<noteq> ARTOS_DELAY_INFINITY" for s2
    using assms(4) v v2[OF that(2)] r[OF that(1)] that(3)
    by (cases "timeout = ARTOS_DELAY_INFINITY"; cases "rtos_current_wait_reason s2 = WAIT_TIMED_OUT")
      (simp_all add: artos_queue_enqueue_def rtos_port_enter_critical_def rtos_current_tick_def loop_res_def)
  ultimately show ?thesis by (intro exI[of _ s1] exI[of _ C1]) (simp add: queue_abs_def)
qed

text \<open>
  Dequeuing from an empty queue with a timeout below \<open>2 ^ 31\<close> or infinite: the caller blocks, behind the readers of
  at least its priority, asleep until its deadline. When it runs again, a time-out makes the call
  return false; otherwise the call goes on exactly like a new call with the time that remains.
\<close>

theorem queue_dequeue_blocks:
  fixes timeout :: u32
  assumes "qinv s C" "running s t" "queue_live C n" "dst \<noteq> 0" "q_count (queues s n) = 0"
    and "timeout = ARTOS_DELAY_INFINITY \<or> timeout \<noteq> 0 \<and> timeout < 0x80000000"
  shows "\<exists>s1 C1. qinv s1 C1 \<and> blocked_on s t (QueueReadL n) timeout s1 \<and> tcbs s1 = tcbs s \<and>
           queue_abs s1 C1 n = (queue_abs s C n)
             \<lparr>readers := enqueue_waiter (\<lambda>u. effective_priority (tcbs s u)) t (readers (queue_abs s C n))\<rparr> \<and>
           (\<forall>s2. run s1 = Ret s2 \<longrightarrow> queue_wf (queues s2 n) \<longrightarrow> timeout + ticks s - ticks s2 \<noteq> ARTOS_DELAY_INFINITY \<longrightarrow>
              artos_queue_dequeue run (Some n) dst timeout s =
                (if rtos_current_wait_reason s2 = WAIT_TIMED_OUT then Ret (False, rtos_clear_current_wait_reason s2)
                 else artos_queue_dequeue run (Some n) dst
                   (if timeout = ARTOS_DELAY_INFINITY then ARTOS_DELAY_INFINITY else timeout + ticks s - ticks s2)
                   (rtos_clear_current_wait_reason s2)))"
proof -
  have l: "QueueReadL n = QueueReadL n \<or> QueueReadL n = QueueWriteL n" "C (QueueReadL n) \<noteq> None"
    using assms(3) by (auto simp: queue_live_def)
  let ?b = "\<lambda>s. q_count (queues s n) = 0"
  have b: "?b (s\<lparr>primask := 1\<rparr>)" using assms(5) by simp
  note w = queue_wait_blocks[where b = ?b and run = run, OF assms(1,2) l b assms(6), folded dequeue_wait_def]
  have v: "rtos_queue_assert_valid (Some n) (s\<lparr>primask := 1\<rparr>) = Ret (s\<lparr>primask := 1\<rparr>)"
    using qinvD(2)[OF assms(1,3)] by (intro assert_valid_ok) simp
  have v2: "rtos_queue_assert_valid (Some n) ((rtos_clear_current_wait_reason s2)\<lparr>primask := 1\<rparr>) =
      Ret ((rtos_clear_current_wait_reason s2)\<lparr>primask := 1\<rparr>)" if "queue_wf (queues s2 n)" for s2 :: "'a queue_kernel_scheme"
    using that by (intro assert_valid_ok) simp
  obtain s1 C1 where "qinv s1 C1" "blocked_on s t (QueueReadL n) timeout s1" "tcbs s1 = tcbs s" "queues s1 = queues s" "mem s1 = mem s"
      "waiters C1 (QueueReadL n) = enqueue_waiter (\<lambda>u. effective_priority (tcbs s u)) t (waiters C (QueueReadL n))"
      "waiters C1 (QueueWriteL n) = waiters C (QueueWriteL n)" and
    r: "\<And>s2. run s1 = Ret s2 \<Longrightarrow>
      dequeue_wait run n (if timeout = ARTOS_DELAY_INFINITY then ARTOS_DELAY_INFINITY else timeout + ticks s)
        (timeout = ARTOS_DELAY_INFINITY) (primask s) (s\<lparr>primask := 1\<rparr>) =
      (if rtos_current_wait_reason s2 = WAIT_TIMED_OUT then Some (Ret (None, rtos_clear_current_wait_reason s2))
       else dequeue_wait run n (if timeout = ARTOS_DELAY_INFINITY then ARTOS_DELAY_INFINITY else timeout + ticks s)
         (timeout = ARTOS_DELAY_INFINITY) (primask s2) ((rtos_clear_current_wait_reason s2)\<lparr>primask := 1\<rparr>))"
    using w by auto
  moreover have "artos_queue_dequeue run (Some n) dst timeout s =
      (if rtos_current_wait_reason s2 = WAIT_TIMED_OUT then Ret (False, rtos_clear_current_wait_reason s2)
       else artos_queue_dequeue run (Some n) dst
         (if timeout = ARTOS_DELAY_INFINITY then ARTOS_DELAY_INFINITY else timeout + ticks s - ticks s2)
         (rtos_clear_current_wait_reason s2))"
    if "run s1 = Ret s2" "queue_wf (queues s2 n)" "timeout + ticks s - ticks s2 \<noteq> ARTOS_DELAY_INFINITY" for s2
    using assms(4) v v2[OF that(2)] r[OF that(1)] that(3)
    by (cases "timeout = ARTOS_DELAY_INFINITY"; cases "rtos_current_wait_reason s2 = WAIT_TIMED_OUT")
      (simp_all add: artos_queue_dequeue_def rtos_port_enter_critical_def rtos_current_tick_def loop_res_def)
  ultimately show ?thesis by (intro exI[of _ s1] exI[of _ C1]) (simp add: queue_abs_def)
qed

section \<open>First in, first out\<close>

text \<open>
  The interface that the task-level and the interrupt-level operations share, and what every sequence of calls
  through it does. An operation names the address of the caller's buffer.
\<close>

datatype queue_op = Put u32 | Get u32

datatype queue_event = Stored "u8 list" | Fetched "u8 list"

fun exec_queue ::
    "('s \<Rightarrow> u32 \<Rightarrow> u8 list) \<Rightarrow> (u32 \<Rightarrow> 's \<Rightarrow> (bool \<times> 's, 's) res) \<Rightarrow> (u32 \<Rightarrow> 's \<Rightarrow> (bool \<times> 's, 's) res) \<Rightarrow>
     queue_op list \<Rightarrow> 's \<Rightarrow> (queue_event list \<times> 's, 's) res" where
  "exec_queue bytes put get [] s = Ret ([], s)"
| "exec_queue bytes put get (Put d # xs) s =
     res_bind (put d s) (\<lambda>(b, s1). res_bind (exec_queue bytes put get xs s1) (\<lambda>(es, s2).
       Ret ((if b then [Stored (bytes s d)] else []) @ es, s2)))"
| "exec_queue bytes put get (Get d # xs) s =
     res_bind (get d s) (\<lambda>(b, s1). res_bind (exec_queue bytes put get xs s1) (\<lambda>(es, s2).
       Ret ((if b then [Fetched (bytes s1 d)] else []) @ es, s2)))"

definition stored :: "queue_event list \<Rightarrow> u8 list list" where
  "stored es = concat (map (\<lambda>e. case e of Stored x \<Rightarrow> [x] | Fetched x \<Rightarrow> []) es)"

definition fetched :: "queue_event list \<Rightarrow> u8 list list" where
  "fetched es = concat (map (\<lambda>e. case e of Stored x \<Rightarrow> [] | Fetched x \<Rightarrow> [x]) es)"

lemma events_simps [simp]:
  "stored [] = []" "stored (Stored x # es) = x # stored es" "stored (Fetched x # es) = stored es"
  "fetched [] = []" "fetched (Stored x # es) = fetched es" "fetched (Fetched x # es) = x # fetched es"
  by (simp_all add: stored_def fetched_def)

text \<open>Buffers are not NULL, and items are fetched to safe places only.\<close>

definition allowed :: "(u32 \<Rightarrow> bool) \<Rightarrow> queue_op \<Rightarrow> bool" where
  "allowed safe x \<longleftrightarrow> (case x of Put d \<Rightarrow> d \<noteq> 0 | Get d \<Rightarrow> d \<noteq> 0 \<and> safe d)"

locale bounded_fifo =
  fixes ok :: "'s \<Rightarrow> 'v \<Rightarrow> bool" and abst :: "'s \<Rightarrow> 'v \<Rightarrow> queue_spec" and bytes :: "'s \<Rightarrow> u32 \<Rightarrow> u8 list"
    and safe :: "'s \<Rightarrow> 'v \<Rightarrow> u32 \<Rightarrow> bool"
    and put :: "u32 \<Rightarrow> 's \<Rightarrow> (bool \<times> 's, 's) res" and get :: "u32 \<Rightarrow> 's \<Rightarrow> (bool \<times> 's, 's) res"
  assumes bound: "ok s C \<Longrightarrow> length (contents (abst s C)) \<le> room (abst s C)"
    and put_law: "ok s C \<Longrightarrow> d \<noteq> 0 \<Longrightarrow>
      \<exists>s' C'. put d s = Ret (fst (spec_put (bytes s d) (abst s C)), s') \<and> ok s' C' \<and>
        abst s' C' = snd (spec_put (bytes s d) (abst s C)) \<and> safe s' C' = safe s C"
    and get_law: "ok s C \<Longrightarrow> d \<noteq> 0 \<Longrightarrow> safe s C d \<Longrightarrow>
      \<exists>s' C'. get d s = Ret (fst (spec_get (abst s C)) \<noteq> None, s') \<and> ok s' C' \<and> abst s' C' = snd (spec_get (abst s C)) \<and>
        fst (spec_get (abst s C)) \<in> {None, Some (bytes s' d)} \<and> safe s' C' = safe s C"
begin

lemma fifo_order:
  "ok s C \<Longrightarrow> list_all (allowed (safe s C)) xs \<Longrightarrow>
   \<exists>es s' C'. exec_queue bytes put get xs s = Ret (es, s') \<and> ok s' C' \<and> room (abst s' C') = room (abst s C) \<and>
     contents (abst s C) @ stored es = fetched es @ contents (abst s' C')"
proof (induction xs arbitrary: s C)
  case Nil
  then show ?case by auto
next
  case (Cons x xs)
  show ?case
  proof (cases x)
    case (Put d)
    then have "d \<noteq> 0" using Cons(3) by (simp add: allowed_def)
    from put_law[OF Cons(2) this] obtain s1 C1 where
      1: "put d s = Ret (fst (spec_put (bytes s d) (abst s C)), s1)" "ok s1 C1"
        "abst s1 C1 = snd (spec_put (bytes s d) (abst s C))" "safe s1 C1 = safe s C" by blast
    obtain es s' C' where 2: "exec_queue bytes put get xs s1 = Ret (es, s')" "ok s' C'"
        "room (abst s' C') = room (abst s1 C1)" "contents (abst s1 C1) @ stored es = fetched es @ contents (abst s' C')"
      using Cons.IH[OF 1(2)] Cons(3) unfolding 1(4) by auto
    show ?thesis using 1(1) 2 unfolding 1(3) Put
      by (cases "length (contents (abst s C)) = room (abst s C)") (auto simp: spec_put_def)
  next
    case (Get d)
    then have "d \<noteq> 0" "safe s C d" using Cons(3) by (simp_all add: allowed_def)
    from get_law[OF Cons(2) this] obtain s1 C1 where
      1: "get d s = Ret (fst (spec_get (abst s C)) \<noteq> None, s1)" "ok s1 C1" "abst s1 C1 = snd (spec_get (abst s C))"
        "fst (spec_get (abst s C)) \<in> {None, Some (bytes s1 d)}" "safe s1 C1 = safe s C" by blast
    obtain es s' C' where 2: "exec_queue bytes put get xs s1 = Ret (es, s')" "ok s' C'"
        "room (abst s' C') = room (abst s1 C1)" "contents (abst s1 C1) @ stored es = fetched es @ contents (abst s' C')"
      using Cons.IH[OF 1(2)] Cons(3) unfolding 1(5) by auto
    show ?thesis using 1(1,4) 2 unfolding 1(3) Get
      by (cases "contents (abst s C)") (auto simp: spec_get_def)
  qed
qed

end

section \<open>The two providers\<close>

definition item_bytes :: "nat \<Rightarrow> 'z queue_kernel_scheme \<Rightarrow> u32 \<Rightarrow> u8 list" where
  "item_bytes n s d = buffer (mem s) d (unat (q_item_size (queues s n)))"

definition queue_ok :: "nat \<Rightarrow> 'z queue_kernel_scheme \<Rightarrow> list_view \<Rightarrow> bool" where
  "queue_ok n s C \<longleftrightarrow> qinv s C \<and> queue_live C n"

text \<open>A buffer at \<open>d\<close> lies outside the storage of every queue.\<close>

definition dst_safe :: "nat \<Rightarrow> 'z queue_kernel_scheme \<Rightarrow> list_view \<Rightarrow> u32 \<Rightarrow> bool" where
  "dst_safe n s C d \<longleftrightarrow> (\<forall>k. queue_live C k \<longrightarrow> region d (unat (q_item_size (queues s n))) \<inter> queue_region (queues s k) = {})"

definition isr_put :: "nat \<Rightarrow> u32 \<Rightarrow> 'z queue_kernel_scheme \<Rightarrow> (bool \<times> 'z queue_kernel_scheme, 'z) qres" where
  "isr_put n d s = res_bind (artos_queue_enqueue_from_isr (Some n) d None s) (\<lambda>(b, _, s). Ret (b, s))"

definition isr_get :: "nat \<Rightarrow> u32 \<Rightarrow> 'z queue_kernel_scheme \<Rightarrow> (bool \<times> 'z queue_kernel_scheme, 'z) qres" where
  "isr_get n d s = res_bind (artos_queue_dequeue_from_isr (Some n) d None s) (\<lambda>(b, _, s). Ret (b, s))"

lemma dst_safe_cong: "same_shape s s' \<Longrightarrow> \<forall>k. queue_live C' k = queue_live C k \<Longrightarrow> dst_safe n s' C' = dst_safe n s C"
  by (simp add: fun_eq_iff dst_safe_def same_shape_def)

lemma queue_put_laws:
  assumes ok: "queue_ok n s C" and d: "d \<noteq> 0"
  defines "a \<equiv> spec_put (item_bytes n s d) (queue_abs s C n)"
  shows "\<exists>s' C'. artos_queue_enqueue run (Some n) d 0 s = Ret (fst a, s') \<and> queue_ok n s' C' \<and> queue_abs s' C' n = snd a \<and>
           dst_safe n s' C' = dst_safe n s C"
    "\<exists>s' C'. isr_put n d s = Ret (fst a, s') \<and> queue_ok n s' C' \<and> queue_abs s' C' n = snd a \<and> dst_safe n s' C' = dst_safe n s C"
proof -
  have i: "qinv s C" "queue_live C n" using ok by (simp_all add: queue_ok_def)
  obtain s' C' where r: "artos_queue_enqueue_from_isr (Some n) d None s = Ret (fst a, None, s')"
      "artos_queue_enqueue run (Some n) d 0 s =
         Ret (fst a, if fst a \<and> beats s C (QueueReadL n) then rtos_port_request_context_switch s' else s')"
      "qinv s' C'" "queue_abs s' C' n = snd a" "same_shape s s'" "\<forall>k. queue_live C' k = queue_live C k"
    using enqueue_runs[OF i d, of None run 0] unfolding a_def item_bytes_def simp_thms if_False if_cancel by blast
  have ds: "dst_safe n s' C' = dst_safe n s C" by (rule dst_safe_cong[OF r(5,6)])
  moreover have "dst_safe n (rtos_port_request_context_switch s') C' = dst_safe n s C" using r(5,6) by (intro dst_safe_cong) simp_all
  ultimately show "\<exists>s' C'. artos_queue_enqueue run (Some n) d 0 s = Ret (fst a, s') \<and> queue_ok n s' C' \<and> queue_abs s' C' n = snd a \<and>
           dst_safe n s' C' = dst_safe n s C"
    using r i(2) by (intro exI[of _ "if fst a \<and> beats s C (QueueReadL n) then rtos_port_request_context_switch s' else s'"] exI[of _ C'])
      (simp add: queue_ok_def)
  show "\<exists>s' C'. isr_put n d s = Ret (fst a, s') \<and> queue_ok n s' C' \<and> queue_abs s' C' n = snd a \<and> dst_safe n s' C' = dst_safe n s C"
    using r i(2) ds by (intro exI[of _ s'] exI[of _ C']) (simp add: isr_put_def queue_ok_def)
qed

lemma queue_get_laws:
  assumes ok: "queue_ok n s C" and d: "d \<noteq> 0" "dst_safe n s C d"
  defines "a \<equiv> spec_get (queue_abs s C n)"
  shows "\<exists>s' C'. artos_queue_dequeue run (Some n) d 0 s = Ret (fst a \<noteq> None, s') \<and> queue_ok n s' C' \<and> queue_abs s' C' n = snd a \<and>
           fst a \<in> {None, Some (item_bytes n s' d)} \<and> dst_safe n s' C' = dst_safe n s C"
    "\<exists>s' C'. isr_get n d s = Ret (fst a \<noteq> None, s') \<and> queue_ok n s' C' \<and> queue_abs s' C' n = snd a \<and>
           fst a \<in> {None, Some (item_bytes n s' d)} \<and> dst_safe n s' C' = dst_safe n s C"
proof -
  have i: "qinv s C" "queue_live C n" using ok by (simp_all add: queue_ok_def)
  have ds: "\<forall>k. queue_live C k \<longrightarrow> region d (unat (q_item_size (queues s n))) \<inter> queue_region (queues s k) = {}"
    using d(2) by (simp add: dst_safe_def)
  obtain s' C' where r: "artos_queue_dequeue_from_isr (Some n) d None s = Ret (fst a \<noteq> None, None, s')"
      "artos_queue_dequeue run (Some n) d 0 s =
         Ret (fst a \<noteq> None, if fst a \<noteq> None \<and> beats s C (QueueWriteL n) then rtos_port_request_context_switch s' else s')"
      "qinv s' C'" "queue_abs s' C' n = snd a" "same_shape s s'" "\<forall>k. queue_live C' k = queue_live C k"
      "if fst a \<noteq> None then fst a = Some (buffer (mem s') d (unat (q_item_size (queues s n)))) \<and> first_served s C (QueueWriteL n) s' else s' = s"
    using dequeue_runs[OF i d(1) ds, of None run 0] unfolding a_def simp_thms if_False if_cancel by blast
  have b: "fst a \<in> {None, Some (item_bytes n s' d)}" using r(5,7) by (cases "fst a") (auto simp: item_bytes_def same_shape_def)
  have s: "dst_safe n s' C' = dst_safe n s C" by (rule dst_safe_cong[OF r(5,6)])
  moreover have "dst_safe n (rtos_port_request_context_switch s') C' = dst_safe n s C" using r(5,6) by (intro dst_safe_cong) simp_all
  ultimately show "\<exists>s' C'. artos_queue_dequeue run (Some n) d 0 s = Ret (fst a \<noteq> None, s') \<and> queue_ok n s' C' \<and> queue_abs s' C' n = snd a \<and>
           fst a \<in> {None, Some (item_bytes n s' d)} \<and> dst_safe n s' C' = dst_safe n s C"
    using r i(2) b by (intro exI[of _ "if fst a \<noteq> None \<and> beats s C (QueueWriteL n) then rtos_port_request_context_switch s' else s'"] exI[of _ C'])
      (simp add: queue_ok_def item_bytes_def)
  show "\<exists>s' C'. isr_get n d s = Ret (fst a \<noteq> None, s') \<and> queue_ok n s' C' \<and> queue_abs s' C' n = snd a \<and>
           fst a \<in> {None, Some (item_bytes n s' d)} \<and> dst_safe n s' C' = dst_safe n s C"
    using r i(2) s b by (intro exI[of _ s'] exI[of _ C']) (simp add: isr_get_def queue_ok_def)
qed

lemma queue_bound: "queue_ok n s C \<Longrightarrow> length (contents (queue_abs s C n)) \<le> room (queue_abs s C n)"
  using qinvD(2)[of s C n] by (simp add: queue_ok_def queue_abs_def queue_items_length queue_wf_def word_le_nat_alt)

interpretation task_queue: bounded_fifo "queue_ok n" "\<lambda>s C. queue_abs s C n" "item_bytes n" "dst_safe n"
    "\<lambda>d. artos_queue_enqueue run (Some n) d 0" "\<lambda>d. artos_queue_dequeue run (Some n) d 0" for n and run :: "'z qproc"
  by unfold_locales (fact queue_bound queue_put_laws(1) queue_get_laws(1))+

interpretation isr_queue: bounded_fifo "queue_ok n" "\<lambda>s C. queue_abs s C n" "item_bytes n" "dst_safe n" "isr_put n" "isr_get n" for n
  by unfold_locales (fact queue_bound queue_put_laws(2) queue_get_laws(2))+

text \<open>
  \<^bold>\<open>C14.\<close> A queue is first in, first out. Over any sequence of non-blocking enqueue and dequeue calls with valid
  buffers, at task level and at interrupt level alike, the items that were in the queue followed by those
  stored are exactly the items fetched followed by those left in it, byte for byte; no call
  halts and the number of items never exceeds the capacity.
\<close>

theorem queue_fifo:
  assumes "qinv s C" "queue_live C n"
    and "list_all (allowed (dst_safe n s C)) xs"
  shows "(\<exists>es s' C'. exec_queue (item_bytes n) (\<lambda>d. artos_queue_enqueue run (Some n) d 0) (\<lambda>d. artos_queue_dequeue run (Some n) d 0) xs s =
             Ret (es, s') \<and> contents (queue_abs s C n) @ stored es = fetched es @ contents (queue_abs s' C' n) \<and>
           qinv s' C' \<and> length (contents (queue_abs s' C' n)) \<le> room (queue_abs s C n)) \<and>
         (\<exists>es s' C'. exec_queue (item_bytes n) (isr_put n) (isr_get n) xs s = Ret (es, s') \<and>
           contents (queue_abs s C n) @ stored es = fetched es @ contents (queue_abs s' C' n) \<and>
           qinv s' C' \<and> length (contents (queue_abs s' C' n)) \<le> room (queue_abs s C n))"
proof -
  have ok: "queue_ok n s C" using assms(1,2) by (simp add: queue_ok_def)
  from task_queue.fifo_order[where run = run, OF ok assms(3)] isr_queue.fifo_order[OF ok assms(3)]
  show ?thesis using queue_bound unfolding queue_ok_def by fastforce
qed

end
