(* ===== verification/Mutex.thy ===== *)
theory Mutex
  imports Queue_Refine
begin

text \<open>
  Mutexes with priority inheritance, \<open>src/rtos/mutex.c\<close>: the state and the operations. A handle is the number of
  the control block, \<open>None\<close> for NULL; the wait list of mutex \<open>n\<close> is \<open>MutexLockL n\<close>. As in \<open>Semaphore\<close>, the
  argument \<open>run\<close> of \<open>artos_mutex_lock\<close> is what happens from the context switch of a blocked
  caller until it continues.
\<close>


section \<open>State and operations\<close>

record artos_mutex =
  mutex_owner :: "tcb_ref option"

record mutex_kernel = queue_kernel +
  mutexes :: "nat \<Rightarrow> artos_mutex"

type_synonym ('a, 'z) mres = "('a, 'z mutex_kernel_scheme) res"
type_synonym 'z mproc = "'z mutex_kernel_scheme \<Rightarrow> ('z mutex_kernel_scheme, 'z) mres"

definition set_owner_of :: "nat \<Rightarrow> tcb_ref option \<Rightarrow> 'z mutex_kernel_scheme \<Rightarrow> 'z mutex_kernel_scheme" where
  "set_owner_of n t s = s\<lparr>mutexes := (mutexes s)(n := (mutexes s n)\<lparr>mutex_owner := t\<rparr>)\<rparr>"

definition artos_mutex_init :: "nat option \<Rightarrow> 'z mutex_kernel_scheme \<Rightarrow> nat option \<times> 'z mutex_kernel_scheme" where
  "artos_mutex_init storage s =
     (case storage of None \<Rightarrow> (None, s)
      | Some mutex \<Rightarrow>
          (let s = set_owner_of mutex None s;
               s = s\<lparr>lists := rtos_init_list (Some (MutexLockL mutex)) (lists s)\<rparr>
           in (Some mutex, s)))"

definition rtos_mutex_required_priority ::
    "tcb_ref option \<Rightarrow> list_ref option \<Rightarrow> 'z kernel_scheme \<Rightarrow> (u8, 'z) kres" where
  "rtos_mutex_required_priority holder lockers s =
     (case holder of None \<Rightarrow> Ret 0
      | Some t \<Rightarrow>
          (case lockers of None \<Rightarrow> Ret (effective_priority (tcbs s t))
           | Some l \<Rightarrow>
               (let prio = priority (tcbs s t) in
                if counts (lists s) l > 0 then
                  deref (nxt (lists s) (Sentinel l)) s (\<lambda>first.
                  deref (own (lists s) first) s (\<lambda>waiter.
                    Ret (if effective_priority (tcbs s waiter) > prio then effective_priority (tcbs s waiter) else prio)))
                else Ret prio)))"

text \<open>\<open>artos_mutex_lock\<close> up to the context switch (\<open>None\<close>: the task has blocked), and from where it continues.\<close>

definition mutex_lock_enter ::
    "nat \<Rightarrow> u32 \<Rightarrow> 'z mutex_kernel_scheme \<Rightarrow> (bool option \<times> 'z mutex_kernel_scheme, 'z) mres" where
  "mutex_lock_enter mutex tick_timeout s =
     (let (prev_state, s) = rtos_port_enter_critical s;
          task = rtos_scheduler_current_task s
      in if task = None \<or> mutexes_held (tcbs s (the task)) = 0xFF
         then Ret (Some False, rtos_port_exit_critical prev_state s)
         else if mutex_owner (mutexes s mutex) = None then
           (let s = set_owner_of mutex task s;
                s = rtos_increment_mutex_count task s
            in Ret (Some True, rtos_port_exit_critical prev_state s))
         else if task = mutex_owner (mutexes s mutex) \<or> mutexes_held (tcbs s (the task)) = 0xFF \<or> tick_timeout = 0
         then Ret (Some False, rtos_port_exit_critical prev_state s)
         else res_bind
           (if tick_timeout = ARTOS_DELAY_INFINITY
            then rtos_block_current_task ARTOS_DELAY_INFINITY (Some (MutexLockL mutex)) True s
            else rtos_block_current_task (tick_timeout + rtos_current_tick s) (Some (MutexLockL mutex)) False s) (\<lambda>s.
           res_bind (rtos_mutex_required_priority (mutex_owner (mutexes s mutex)) (Some (MutexLockL mutex)) s) (\<lambda>required.
           res_bind (rtos_priority_inherit (mutex_owner (mutexes s mutex)) required s) (\<lambda>s.
           let s = rtos_port_exit_critical prev_state s
           in Ret (None, rtos_port_request_context_switch s)))))"

definition mutex_lock_resume ::
    "nat \<Rightarrow> 'z mutex_kernel_scheme \<Rightarrow> (bool \<times> 'z mutex_kernel_scheme, 'z) mres" where
  "mutex_lock_resume mutex s =
     (let (prev_state, s) = rtos_port_enter_critical s;
          res = (rtos_current_wait_reason s = WAIT_SIGNALED);
          s = rtos_clear_current_wait_reason s
      in res_bind
        (if \<not> res then
           res_bind (rtos_mutex_required_priority (mutex_owner (mutexes s mutex)) (Some (MutexLockL mutex)) s) (\<lambda>required.
           res_bind (rtos_priority_disinherit_after_timeout (mutex_owner (mutexes s mutex)) required s) (\<lambda>(_, s). Ret s))
         else Ret s) (\<lambda>s.
        Ret (res, rtos_port_exit_critical prev_state s)))"

definition artos_mutex_lock ::
    "'z mproc \<Rightarrow> nat option \<Rightarrow> u32 \<Rightarrow> 'z mutex_kernel_scheme \<Rightarrow> (bool \<times> 'z mutex_kernel_scheme, 'z) mres" where
  "artos_mutex_lock run mh tick_timeout s =
     (case mh of None \<Rightarrow> Ret (False, s)
      | Some mutex \<Rightarrow>
          res_bind (mutex_lock_enter mutex tick_timeout s) (\<lambda>(r, s).
            case r of Some b \<Rightarrow> Ret (b, s)
            | None \<Rightarrow> res_bind (run s) (mutex_lock_resume mutex)))"

definition artos_mutex_unlock ::
    "nat option \<Rightarrow> 'z mutex_kernel_scheme \<Rightarrow> (bool \<times> 'z mutex_kernel_scheme, 'z) mres" where
  "artos_mutex_unlock mh s =
     (case mh of None \<Rightarrow> Ret (False, s)
      | Some mutex \<Rightarrow>
          (let (prev_state, s) = rtos_port_enter_critical s;
               task = rtos_scheduler_current_task s
           in if task = None then Ret (False, rtos_port_exit_critical prev_state s)
              else if mutex_owner (mutexes s mutex) = None \<or> task \<noteq> mutex_owner (mutexes s mutex)
              then Ret (False, rtos_port_exit_critical prev_state s)
              else asserts MUTEX_C [(112, mutexes_held (tcbs s (the task)) > 0)] s
                (let s = rtos_decrement_mutex_count task s in
                 res_bind (rtos_priority_relinquish_after_unlock task s) (\<lambda>(prio_changed, s).
                 if counts (lists s) (MutexLockL mutex) = 0 then
                   (let s = set_owner_of mutex None s;
                        s = rtos_port_exit_critical prev_state s;
                        s = (if prio_changed then rtos_port_request_context_switch s else s)
                    in Ret (True, s))
                 else
                   (let self_prio = effective_priority (tcbs s (the task)) in
                    deref (nxt (lists s) (Sentinel (MutexLockL mutex))) s (\<lambda>next_task_item.
                    let task = own (lists s) next_task_item in
                    res_bind (rtos_unblock_task (Some next_task_item) WAIT_SIGNALED s) (\<lambda>s.
                    let s = set_owner_of mutex task s;
                        s = rtos_increment_mutex_count task s
                    in res_bind
                         (if counts (lists s) (MutexLockL mutex) \<noteq> 0 then
                            res_bind (rtos_mutex_required_priority (mutex_owner (mutexes s mutex)) (Some (MutexLockL mutex)) s) (\<lambda>required.
                            rtos_priority_inherit (mutex_owner (mutexes s mutex)) required s)
                          else Ret s) (\<lambda>s.
                       deref (mutex_owner (mutexes s mutex)) s (\<lambda>new_owner.
                       let should_yield = (effective_priority (tcbs s new_owner) > self_prio);
                           s = rtos_port_exit_critical prev_state s;
                           s = (if should_yield then rtos_port_request_context_switch s else s)
                       in Ret (True, s))))))))))"

end
