(* ===== verification/Mutex_Correct.thy ===== *)
theory Mutex_Correct
  imports Mutex
begin

text \<open>
  What the mutex operations promise: the invariant that ties owners, waiters and the counts in the task control
  blocks together, locking with inheritance, time-outs, and handing over on unlock.
\<close>

section \<open>Invariant\<close>

definition mutex_live :: "list_view \<Rightarrow> nat \<Rightarrow> bool" where
  "mutex_live C n \<longleftrightarrow> C (MutexLockL n) \<noteq> None"

definition owner_of :: "'z mutex_kernel_scheme \<Rightarrow> nat \<Rightarrow> tcb_ref option" where
  "owner_of s n = mutex_owner (mutexes s n)"

definition lockers :: "list_view \<Rightarrow> nat \<Rightarrow> tcb_ref list" where
  "lockers C n = waiters C (MutexLockL n)"

definition held_by :: "'z mutex_kernel_scheme \<Rightarrow> list_view \<Rightarrow> tcb_ref \<Rightarrow> nat set" where
  "held_by s C t = {n. mutex_live C n \<and> owner_of s n = Some t}"

text \<open>
  Nobody waits for a free mutex, an owner does not wait for its own mutex, a waiter can still take one more
  mutex, and the count in the task control block is the number of mutexes the task owns.
\<close>

definition mutex_ok :: "'z mutex_kernel_scheme \<Rightarrow> list_view \<Rightarrow> nat \<Rightarrow> bool" where
  "mutex_ok s C n \<longleftrightarrow> (owner_of s n = None \<longrightarrow> lockers C n = []) \<and>
     (\<forall>t. owner_of s n = Some t \<longrightarrow> user_task s t \<and> t \<notin> set (lockers C n)) \<and>
     (\<forall>u \<in> set (lockers C n). mutexes_held (tcbs s u) \<noteq> 0xFF)"

definition held_ok :: "'z mutex_kernel_scheme \<Rightarrow> list_view \<Rightarrow> tcb_ref \<Rightarrow> bool" where
  "held_ok s C t \<longleftrightarrow> finite (held_by s C t) \<and> card (held_by s C t) = unat (mutexes_held (tcbs s t))"

definition minv :: "'z mutex_kernel_scheme \<Rightarrow> list_view \<Rightarrow> bool" where
  "minv s C \<longleftrightarrow> qinv s C \<and> (\<forall>n. mutex_live C n \<longrightarrow> mutex_ok s C n) \<and> (\<forall>t. user_task s t \<longrightarrow> held_ok s C t)"

lemma minvD:
  "minv s C \<Longrightarrow> qinv s C" "minv s C \<Longrightarrow> mutex_live C n \<Longrightarrow> mutex_ok s C n" "minv s C \<Longrightarrow> user_task s t \<Longrightarrow> held_ok s C t"
  "minv s C \<Longrightarrow> sinv s C" "minv s C \<Longrightarrow> kinv s C" "minv s C \<Longrightarrow> tick_ok s C"
  unfolding minv_def qinv_def sinv_def by blast+

lemma sinv_weaken:
  assumes "sinv s C" "kinv s' C'" "tick_ok s' C'" "sems s' = sems s"
    and "\<forall>n. (C' (SemWaitL n) = None \<longleftrightarrow> C (SemWaitL n) = None) \<and> set (waiters C' (SemWaitL n)) \<subseteq> set (waiters C (SemWaitL n))"
  shows "sinv s' C'"
proof -
  have "sem_wf (sem_abs s' C' n)" if "C' (SemWaitL n) \<noteq> None" for n
  proof -
    have "sem_wf (sem_abs s C n)" "set (waiters C' (SemWaitL n)) \<subseteq> set (waiters C (SemWaitL n))"
      using assms(1,5) that by (auto simp: sinv_def)
    then show ?thesis using assms(4) by (auto simp: sem_wf_def sem_abs_def)
  qed
  then show ?thesis using assms(2,3) by (simp add: sinv_def)
qed

text \<open>
  How the invariant survives a change of the wait lists: every list stays live, no list but those of mutexes
  gains a waiter, and a mutex gains one only if somebody else owns it.
\<close>

definition waiters_ok :: "'z mutex_kernel_scheme \<Rightarrow> list_view \<Rightarrow> list_view \<Rightarrow> bool" where
  "waiters_ok s C C' \<longleftrightarrow> (\<forall>l. is_wait_list l \<longrightarrow> (C' l = None \<longleftrightarrow> C l = None) \<and>
     (\<forall>u \<in> set (waiters C' l). u \<in> set (waiters C l) \<or> (\<exists>n. l = MutexLockL n \<and> owner_of s n \<notin> {None, Some u} \<and> mutexes_held (tcbs s u) \<noteq> 0xFF) \<or>
        (\<exists>n. l = QueueReadL n \<or> l = QueueWriteL n)))"

lemma minv_frame:
  assumes inv: "minv s C" and k: "kinv s' C'" "tick_ok s' C'" and m: "kernel.more s' = kernel.more s"
    and t: "tsk_cnt s' = tsk_cnt s" "\<forall>u. mutexes_held (tcbs s' u) = mutexes_held (tcbs s u)" and w: "waiters_ok s C C'"
  shows "minv s' C'"
proof -
  have f: "sems s' = sems s" "queues s' = queues s" "mem s' = mem s" by (rule more_fields[OF m])+
  have o: "owner_of s' n = owner_of s n" for n
    using m by (cases s; cases s'; simp add: owner_of_def)
  have live: "C' l = None \<longleftrightarrow> C l = None" if "is_wait_list l" for l using w that by (simp add: waiters_ok_def)
  have "set (waiters C' (SemWaitL n)) \<subseteq> set (waiters C (SemWaitL n))" for n
    using w unfolding waiters_ok_def by (elim allE[of _ "SemWaitL n"]) auto
  then have "sinv s' C'" using sinv_weaken[OF minvD(4)[OF inv] k f(1)] live by simp
  then have "qinv s' C'" using live by (intro qinv_frame[OF minvD(1)[OF inv] _ f(2)]) (simp_all add: queue_live_def)
  moreover have "mutex_ok s' C' n" if n: "mutex_live C' n" for n
  proof -
    have ok: "mutex_ok s C n" using minvD(2)[OF inv] n live[of "MutexLockL n"] by (simp add: mutex_live_def)
    have *: "\<forall>u \<in> set (lockers C' n). u \<in> set (lockers C n) \<or> owner_of s n \<notin> {None, Some u} \<and> mutexes_held (tcbs s u) \<noteq> 0xFF"
      using w unfolding waiters_ok_def lockers_def by (elim allE[of _ "MutexLockL n"]) auto
    show ?thesis
    proof (cases "owner_of s n")
      case None
      then have "set (lockers C' n) = {}" using * ok by (auto simp: mutex_ok_def)
      then show ?thesis using None by (simp add: mutex_ok_def o)
    next
      case (Some a)
      then show ?thesis using * ok t by (auto simp: mutex_ok_def o user_task_def)
    qed
  qed
  moreover have "held_ok s' C' u" if "user_task s' u" for u
  proof -
    have "held_by s' C' u = held_by s C u" using live[of "MutexLockL _"] by (simp add: held_by_def o mutex_live_def)
    then show ?thesis using minvD(3)[OF inv, of u] that t by (simp add: held_ok_def user_task_def)
  qed
  ultimately show ?thesis by (simp add: minv_def)
qed

lemma reprio_minv:
  assumes "minv s C" "reprio t p s C s' C'"
  shows "minv s' C'"
proof (rule minv_frame[OF assms(1)])
  have o: "only_priority t p s s'" using assms(2) by (simp add: reprio_def)
  show "kinv s' C'" "tick_ok s' C'" "kernel.more s' = kernel.more s" using assms(2) by (simp_all add: reprio_def)
  show "tsk_cnt s' = tsk_cnt s" "\<forall>u. mutexes_held (tcbs s' u) = mutexes_held (tcbs s u)" using o by (auto simp: only_priority_def)
  show "waiters_ok s C C'" using assms(2) by (auto simp: reprio_def waiters_ok_def)
qed

section \<open>Required priority\<close>

definition required :: "'z kernel_scheme \<Rightarrow> list_view \<Rightarrow> tcb_ref \<Rightarrow> list_ref \<Rightarrow> u8" where
  "required s C t l = (case waiters C l of [] \<Rightarrow> priority (tcbs s t) | u # us \<Rightarrow> max (priority (tcbs s t)) (effective_priority (tcbs s u)))"

lemma required_priority_runs:
  assumes "kinv s C" "is_wait_list l" "C l \<noteq> None"
  shows "rtos_mutex_required_priority (Some t) (Some l) s = Ret (required s C t l)"
proof (cases "waiters C l")
  case Nil
  then show ?thesis using wait_list_head(1)[OF assms] by (simp add: rtos_mutex_required_priority_def required_def)
next
  case (Cons u us)
  then have c: "counts (lists s) l \<noteq> 0" "nxt (lists s) (Sentinel l) = Some (EventItem u)" using wait_list_head[OF assms] by auto
  have "own (lists s) (EventItem u) = Some u" using waiter_blocked(5)[OF assms] Cons by simp
  then show ?thesis using c Cons
    by (auto simp: rtos_mutex_required_priority_def required_def word_neq_0_conv max_def not_less Let_def)
qed

lemma required_bound:
  assumes inv: "kinv s C" and t: "user_task s t" and l: "is_wait_list l" "C l \<noteq> None"
  shows "unat (required s C t l) < ARTOS_PRIORITY_COUNT" "priority (tcbs s t) \<le> required s C t l"
proof -
  have p: "unat (effective_priority (tcbs s u)) < ARTOS_PRIORITY_COUNT \<and> priority (tcbs s u) \<le> effective_priority (tcbs s u)"
    if "user_task s u" for u using kinv_task[OF inv that] by (auto simp: task_ok_def)
  have w: "user_task s u" if "u \<in> set (waiters C l)" for u using waiter_blocked(1)[OF inv l that] .
  show "unat (required s C t l) < ARTOS_PRIORITY_COUNT" using p[OF t] p[OF w]
    by (cases "waiters C l") (auto simp: required_def max_def word_le_nat_alt)
  show "priority (tcbs s t) \<le> required s C t l" by (cases "waiters C l") (auto simp: required_def)
qed

section \<open>Counting held mutexes\<close>

lemma kinv_tcb_frame:
  assumes "kinv s C" "lists s' = lists s" "tsk_cnt s' = tsk_cnt s" "cur_task s' = cur_task s" "ready_bitmap s' = ready_bitmap s"
    "cur_delayed s' = cur_delayed s" "next_delayed s' = next_delayed s"
    and "\<And>u. effective_priority (tcbs s' u) = effective_priority (tcbs s u) \<and> priority (tcbs s' u) = priority (tcbs s u) \<and>
              stack_pointer (tcbs s' u) = stack_pointer (tcbs s u)"
  shows "kinv s' C"
  using assms unfolding kinv_def bitmap_ok_def delayed_ptrs_ok_def pool_ok_def idle_ok_def cur_ok_def task_ok_def unlisted_def user_task_def
  by simp

text \<open>Giving mutex \<open>n\<close> to a task, or taking it away, together with the task's count.\<close>

definition set_held :: "tcb_ref \<Rightarrow> u8 \<Rightarrow> 'z kernel_scheme \<Rightarrow> 'z kernel_scheme" where
  "set_held t c s = upd_tcb t (\<lambda>x. x\<lparr>mutexes_held := c\<rparr>) s"

lemma set_held_fields [simp]:
  "lists (set_held t c s) = lists s" "tsk_cnt (set_held t c s) = tsk_cnt s" "cur_task (set_held t c s) = cur_task s"
  "tcbs (set_held t c s) = (tcbs s)(t := (tcbs s t)\<lparr>mutexes_held := c\<rparr>)" "primask (set_held t c s) = primask s"
  "pendsv (set_held t c s) = pendsv s" "ticks (set_held t c s) = ticks s" "ready_bitmap (set_held t c s) = ready_bitmap s"
  "cur_delayed (set_held t c s) = cur_delayed s" "next_delayed (set_held t c s) = next_delayed s"
  "kernel.more (set_held t c s) = kernel.more s"
  by (simp_all add: set_held_def upd_tcb_def)

lemma count_ops:
  "mutexes_held (tcbs s t) \<noteq> 0xFF \<Longrightarrow> rtos_increment_mutex_count (Some t) s = set_held t (mutexes_held (tcbs s t) + 1) s"
  "mutexes_held (tcbs s t) \<noteq> 0 \<Longrightarrow> rtos_decrement_mutex_count (Some t) s = set_held t (mutexes_held (tcbs s t) - 1) s"
  by (simp_all add: rtos_increment_mutex_count_def rtos_decrement_mutex_count_def set_held_def upd_tcb_def)

lemma set_owner_fields [simp]:
  "lists (set_owner_of n t s) = lists s" "tcbs (set_owner_of n t s) = tcbs s" "tsk_cnt (set_owner_of n t s) = tsk_cnt s"
  "cur_task (set_owner_of n t s) = cur_task s" "ticks (set_owner_of n t s) = ticks s" "primask (set_owner_of n t s) = primask s"
  "pendsv (set_owner_of n t s) = pendsv s" "ready_bitmap (set_owner_of n t s) = ready_bitmap s"
  "cur_delayed (set_owner_of n t s) = cur_delayed s" "next_delayed (set_owner_of n t s) = next_delayed s"
  "sems (set_owner_of n t s) = sems s" "queues (set_owner_of n t s) = queues s" "mem (set_owner_of n t s) = mem s"
  "owner_of (set_owner_of n t s) k = (if k = n then t else owner_of s k)"
  by (simp_all add: set_owner_of_def owner_of_def)

lemma set_held_owner: "set_held u c (set_owner_of n t s) = set_owner_of n t (set_held u c s)"
  by (rule mutex_kernel.equality) (simp_all add: set_held_def set_owner_of_def upd_tcb_def)

lemma owner_of_more: "kernel.more s' = kernel.more s \<Longrightarrow> owner_of s' n = owner_of s n"
  by (cases s; cases s'; simp add: owner_of_def)

lemma owner_of_set_held [simp]: "owner_of (set_held t c s) n = owner_of s n"
  "sems (set_held t c s) = sems s" "queues (set_held t c s) = queues s" "mem (set_held t c s) = mem s"
  by (simp_all add: set_held_def upd_tcb_def owner_of_def)

lemma owner_of_port [simp]:
  "owner_of (rtos_port_exit_critical p s) n = owner_of s n" "owner_of (rtos_port_request_context_switch s) n = owner_of s n"
  "owner_of (s\<lparr>primask := p\<rparr>) n = owner_of s n" "owner_of (s\<lparr>lists := m\<rparr>) n = owner_of s n"
  by (simp_all add: owner_of_def rtos_port_exit_critical_def rtos_port_request_context_switch_def)

lemma user_task_frame [simp]:
  "user_task (rtos_port_exit_critical p s) = user_task s" "user_task (rtos_port_request_context_switch s) = user_task s"
  "user_task (s\<lparr>primask := p\<rparr>) = user_task s" "user_task (s\<lparr>lists := m\<rparr>) = user_task s"
  "user_task (set_held t c s) = user_task s" "user_task (set_owner_of n o' s'') = user_task s''"
  by (simp_all add: fun_eq_iff user_task_def)

lemma minv_port [simp]:
  "minv (rtos_port_exit_critical p s) C = minv s C" "minv (rtos_port_request_context_switch s) C = minv s C"
  "minv (s\<lparr>primask := p\<rparr>) C = minv s C"
  by (simp_all add: minv_def mutex_ok_def held_ok_def held_by_def)

lemma qinv_owner_held:
  assumes "qinv s C"
  shows "qinv (set_owner_of n t (set_held u c s)) C"
proof -
  let ?s = "set_owner_of n t (set_held u c s)"
  have "kinv ?s C" by (rule kinv_tcb_frame[OF sinv_kinv(1)[OF qinvD(1)[OF assms]]]) simp_all
  moreover have "tick_ok ?s C" using sinv_kinv(2)[OF qinvD(1)[OF assms]] by (simp add: tick_ok_def)
  ultimately have "sinv ?s C" by (intro sinv_frame[OF qinvD(1)[OF assms]]) simp_all
  then show ?thesis by (rule qinv_frame[OF assms]) simp_all
qed

text \<open>A free mutex gets an owner.\<close>

lemma minv_acquire:
  assumes inv: "minv s C" and n: "mutex_live C n" "owner_of s n = None" 
    and t: "user_task s t" "mutexes_held (tcbs s t) \<noteq> 0xFF" "\<forall>k. mutex_live C k \<longrightarrow> t \<notin> set (lockers C k)"
  shows "minv (set_owner_of n (Some t) (set_held t (mutexes_held (tcbs s t) + 1) s)) C" (is "minv ?s C")
proof -
  have e: "lockers C n = []" using minvD(2)[OF inv n(1)] n(2) by (simp add: mutex_ok_def)
  have ok: "mutex_ok ?s C k" if "mutex_live C k" for k
    using minvD(2)[OF inv that] e t(1,3) that by (auto simp: mutex_ok_def)
  have held: "held_ok ?s C u" if u: "user_task s u" for u
  proof -
    have h: "held_by ?s C u = (if u = t then insert n (held_by s C u) else held_by s C u)" using n by (auto simp: held_by_def)
    have "n \<notin> held_by s C u" using n by (simp add: held_by_def)
    moreover have "unat (mutexes_held (tcbs s t) + 1) = unat (mutexes_held (tcbs s t)) + 1"
    proof -
      have "unat (mutexes_held (tcbs s t)) < 2 ^ 8" by (rule order_less_le_trans[OF unsigned_less]) simp
      then show ?thesis using t(2) by (simp add: unat_plus_if' word_unat_eq_iff)
    qed
    ultimately show ?thesis using minvD(3)[OF inv u] h by (auto simp: held_ok_def)
  qed
  then show ?thesis using qinv_owner_held[OF minvD(1)[OF inv]] ok by (simp add: minv_def)
qed

text \<open>An owner loses a mutex nobody waits for.\<close>

lemma minv_release:
  assumes inv: "minv s C" and n: "mutex_live C n" "owner_of s n = Some t" "lockers C n = []"
  shows "mutexes_held (tcbs s t) \<noteq> 0" "minv (set_owner_of n None (set_held t (mutexes_held (tcbs s t) - 1) s)) C" (is "minv ?s C")
proof -
  have t: "user_task s t" using minvD(2)[OF inv n(1)] n(2) by (simp add: mutex_ok_def)
  have f: "finite (held_by s C t)" "card (held_by s C t) = unat (mutexes_held (tcbs s t))" "n \<in> held_by s C t"
    using minvD(3)[OF inv t] n by (auto simp: held_ok_def held_by_def)
  then show nz: "mutexes_held (tcbs s t) \<noteq> 0" by (metis card_0_eq empty_iff unat_0)
  have dec: "mutexes_held (tcbs s t) - 1 \<noteq> 0xFF"
  proof
    assume "mutexes_held (tcbs s t) - 1 = 0xFF"
    then have "mutexes_held (tcbs s t) = 0xFF + 1" by (simp only: diff_eq_eq)
    then show False using nz by simp
  qed
  have ok: "mutex_ok ?s C k" if "mutex_live C k" for k
    using minvD(2)[OF inv that] n(3) nz dec by (auto simp: mutex_ok_def)
  have "held_ok ?s C u" if u: "user_task s u" for u
  proof -
    have "held_by ?s C u = (if u = t then held_by s C u - {n} else held_by s C u)" using n(2) by (auto simp: held_by_def)
    then show ?thesis using minvD(3)[OF inv u] f nz by (auto simp: held_ok_def unat_minus_one)
  qed
  then show "minv ?s C" using qinv_owner_held[OF minvD(1)[OF inv]] ok by (simp add: minv_def)
qed

lemma keeps_tasks_owner [simp]:
  "keeps_tasks X s (set_owner_of n t s') = keeps_tasks X s s'" "keeps_tasks X s (set_held u c s') = keeps_tasks X s s'"
  "keeps_tasks X (set_held u c s) s' = keeps_tasks X s s'"
  by (simp_all add: keeps_tasks_defs)

text \<open>No call on a mutex touches a semaphore or a queue.\<close>

definition same_objects :: "'z mutex_kernel_scheme \<Rightarrow> 'z mutex_kernel_scheme \<Rightarrow> bool" where
  "same_objects s s' \<longleftrightarrow> sems s' = sems s \<and> queues s' = queues s \<and> mutex_kernel.more s' = mutex_kernel.more s"

lemma same_objects_simps [simp]:
  "same_objects s s" "same_objects s (rtos_port_exit_critical p s') = same_objects s s'"
  "same_objects s (rtos_port_request_context_switch s') = same_objects s s'" "same_objects s (s'\<lparr>primask := p\<rparr>) = same_objects s s'"
  "same_objects s (s'\<lparr>lists := m\<rparr>) = same_objects s s'"
  "same_objects s (set_owner_of n t s') = same_objects s s'" "same_objects s (set_held u c s') = same_objects s s'"
  by (simp_all add: same_objects_def set_owner_of_def set_held_def upd_tcb_def rtos_port_exit_critical_def rtos_port_request_context_switch_def)

lemma more_objects: "kernel.more s' = kernel.more s \<Longrightarrow> same_objects s s'"
  by (cases s; cases s'; simp add: same_objects_def)

section \<open>Locking\<close>

text \<open>A running task waits for nothing.\<close>

lemma running_no_waiter:
  assumes "kinv s C" "running s t" "is_wait_list l" "C l \<noteq> None"
  shows "t \<notin> set (waiters C l)"
  using waiter_blocked(3)[OF assms(1,3,4), of t] assms(2) by (auto simp: running_def blocked_list_def)

text \<open>The running task joins the waiters of a mutex somebody else owns.\<close>

lemma block_on_mutex:
  fixes timeout :: u32
  assumes inv: "minv s C" and t: "running s t" and n: "mutex_live C n" and ow: "owner_of s n = Some w" "w \<noteq> t"
    and h: "mutexes_held (tcbs s t) \<noteq> 0xFF" and tm: "timeout \<noteq> 0"
  defines "endless \<equiv> timeout = ARTOS_DELAY_INFINITY"
  defines "wake \<equiv> (if endless then ARTOS_DELAY_INFINITY else timeout + ticks s)"
  shows "\<exists>m C1. rtos_block_current_task wake (Some (MutexLockL n)) endless (s\<lparr>primask := 1\<rparr>) = Ret (s\<lparr>primask := 1, lists := m\<rparr>) \<and>
           minv (s\<lparr>primask := 1, lists := m\<rparr>) C1 \<and> mutex_live C1 n \<and>
           lockers C1 n = enqueue_waiter (\<lambda>u. effective_priority (tcbs s u)) t (lockers C n) \<and>
           set (lockers C1 n) = insert t (set (lockers C n)) \<and>
           cont m (StateItem t) = Some (if endless then SuspendL else block_target wake False s) \<and>
           cont m (EventItem t) = Some (MutexLockL n) \<and> val m (StateItem t) = wake \<and> same_live C C1 \<and>
           keeps_tasks {} s (s\<lparr>primask := 1, lists := m\<rparr>)"
proof -
  let ?s0 = "s\<lparr>primask := 1\<rparr>" and ?l = "MutexLockL n"
  have inv0: "minv ?s0 C" using inv by simp
  have l: "is_wait_list ?l" "C ?l \<noteq> None" using n by (simp_all add: mutex_live_def)
  have k0: "kinv ?s0 C" "tick_ok ?s0 C" "running ?s0 t" "endless \<or> wake \<noteq> ticks ?s0"
    using minvD(5,6)[OF inv0] t tm by (simp_all add: running_def wake_def)
  obtain m C1 where m: "rtos_block_current_task wake (Some ?l) endless ?s0 = Ret (?s0\<lparr>lists := m\<rparr>)"
      "kinv (?s0\<lparr>lists := m\<rparr>) C1" "tick_ok (?s0\<lparr>lists := m\<rparr>) C1"
      "waiters C1 ?l = enqueue_waiter (\<lambda>u. effective_priority (tcbs s u)) t (waiters C ?l)"
      "\<And>k. is_wait_list k \<Longrightarrow> k \<noteq> ?l \<Longrightarrow> C1 k = C k" "C1 ?l \<noteq> None"
      "cont m (StateItem t) = Some (block_target wake endless ?s0)" "cont m (EventItem t) = Some ?l" "val m (StateItem t) = wake"
      "\<And>u. u \<noteq> t \<Longrightarrow> stays (lists s) m u"
    using block_on[OF k0(1-3) l k0(4)] by auto
  have set1: "set (waiters C1 ?l) = insert t (set (waiters C ?l))" unfolding m(4) by (rule set_enqueue_waiter)
  have "waiters_ok ?s0 C C1" unfolding waiters_ok_def
  proof (intro allI impI)
    fix j assume j: "is_wait_list j"
    show "(C1 j = None \<longleftrightarrow> C j = None) \<and> (\<forall>u \<in> set (waiters C1 j). u \<in> set (waiters C j) \<or>
        (\<exists>n. j = MutexLockL n \<and> owner_of ?s0 n \<notin> {None, Some u} \<and> mutexes_held (tcbs ?s0 u) \<noteq> 0xFF) \<or>
        (\<exists>n. j = QueueReadL n \<or> j = QueueWriteL n))"
      using m(5)[OF j] m(6) l(2) set1 ow h by (cases "j = ?l") (auto simp: waiters_def)
  qed
  moreover from this have "minv (?s0\<lparr>lists := m\<rparr>) C1" by (intro minv_frame[OF inv0 m(2,3)]) simp_all
  moreover have "keeps_tasks {} s (?s0\<lparr>lists := m\<rparr>)" using block_keeps[OF k0(3), of m] m(7,10) by simp
  moreover have "same_live C C1" using \<open>waiters_ok ?s0 C C1\<close> by (simp add: waiters_ok_def same_live_def)
  ultimately show ?thesis using m(1,4,6-9) set1
    by (intro exI[of _ m] exI[of _ C1]) (simp add: mutex_live_def lockers_def block_target_def)
qed

lemma lock_blocks:
  fixes timeout :: u32
  assumes inv: "minv s C" and t: "running s t" and n: "mutex_live C n" and ow: "owner_of s n = Some w" "w \<noteq> t"
    and h: "mutexes_held (tcbs s t) \<noteq> 0xFF" and tm: "timeout \<noteq> 0"
  shows "\<exists>s' C'. mutex_lock_enter n timeout s = Ret (None, s') \<and> minv s' C' \<and> owner_of s' = owner_of s \<and>
           lockers C' n = enqueue_waiter (\<lambda>u. effective_priority (tcbs s u)) t (lockers C n) \<and>
           blocked_on s t (MutexLockL n) timeout s' \<and>
           tcbs s' = (tcbs s)(w := (tcbs s w)\<lparr>effective_priority :=
             max (effective_priority (tcbs s w)) (effective_priority (tcbs s (hd (lockers C' n))))\<rparr>) \<and> same_live C C' \<and> keeps_tasks {} s s' \<and> same_objects s s'"
proof -
  let ?s0 = "s\<lparr>primask := 1\<rparr>" and ?l = "MutexLockL n" and ?endless = "timeout = ARTOS_DELAY_INFINITY"
  let ?wake = "if ?endless then ARTOS_DELAY_INFINITY else timeout + ticks s"
  obtain m C1 where m: "rtos_block_current_task ?wake (Some ?l) ?endless ?s0 = Ret (?s0\<lparr>lists := m\<rparr>)"
      "minv (?s0\<lparr>lists := m\<rparr>) C1" "mutex_live C1 n" "lockers C1 n = enqueue_waiter (\<lambda>u. effective_priority (tcbs s u)) t (lockers C n)"
      "set (lockers C1 n) = insert t (set (lockers C n))"
      "cont m (StateItem t) = Some (if ?endless then SuspendL else block_target ?wake False s)"
      "cont m (EventItem t) = Some ?l" "val m (StateItem t) = ?wake" "same_live C C1" "keeps_tasks {} s (?s0\<lparr>lists := m\<rparr>)"
    using block_on_mutex[OF assms] by blast
  let ?s1 = "?s0\<lparr>lists := m\<rparr>" and ?r = "required (?s0\<lparr>lists := m\<rparr>) C1 w ?l"
  have l: "is_wait_list ?l" "C1 ?l \<noteq> None" using m(3) by (simp_all add: mutex_live_def)
  note k1 = minvD(5,6)[OF m(2)]
  have w: "user_task ?s1 w" "w \<notin> set (waiters C1 ?l)"
    using minvD(2)[OF inv n] ow m(5) by (auto simp: mutex_ok_def lockers_def)
  obtain s2 C2 where s2: "rtos_priority_inherit (Some w) ?r ?s1 = Ret s2" "reprio w (max (effective_priority (tcbs ?s1 w)) ?r) ?s1 C1 s2 C2"
    using inherit_runs[OF k1 w(1) required_bound(1)[OF k1(1) w(1) l]] by blast
  have p: "max (effective_priority (tcbs ?s1 w)) ?r = max (effective_priority (tcbs s w)) (effective_priority (tcbs s (hd (lockers C1 n))))"
    using m(5) kinv_task[OF k1(1) w(1)] by (cases "lockers C1 n") (auto simp: required_def max_def task_ok_def lockers_def)
  have C2: "lockers C2 n = lockers C1 n" using s2(2) w(2) l(1) by (auto simp: reprio_def lockers_def intro: waiters_cong)
  have op: "only_priority w (max (effective_priority (tcbs ?s1 w)) ?r) ?s1 s2" "kernel.more s2 = kernel.more ?s1" "val (lists s2) (StateItem t) = ?wake"
    using s2(2) m(8) by (simp_all add: reprio_def)
  let ?s' = "rtos_port_request_context_switch (rtos_port_exit_critical (primask s) s2)"
  have "blocked_on s t ?l timeout ?s'"
    using op(1,3) m(6,7) ow(2) kinv_block_target[OF minvD(5)[OF inv], of ?wake]
    by (cases ?endless) (auto simp: blocked_on_def sleeping_def only_priority_def reprio_cont_def)
  moreover have "owner_of ?s' = owner_of s" using owner_of_more[OF op(2)] by (simp add: fun_eq_iff)
  moreover have "mutex_lock_enter n timeout s = Ret (None, ?s')"
    using m(1) ow s2(1) h tm t required_priority_runs[OF k1(1) l, of w]
    by (cases ?endless) (auto simp: mutex_lock_enter_def rtos_port_enter_critical_def rtos_scheduler_current_task_def
        rtos_current_tick_def running_def owner_of_def)
  moreover have "tcbs ?s' = (tcbs s)(w := (tcbs s w)\<lparr>effective_priority :=
      max (effective_priority (tcbs s w)) (effective_priority (tcbs s (hd (lockers C2 n))))\<rparr>)"
    using op(1) p C2 by (simp add: only_priority_def)
  moreover have "same_objects s s2" using more_objects[of s2 s] op(2) by simp
  ultimately show ?thesis using reprio_minv[OF m(2) s2(2)] C2 m(4) same_live_trans[OF m(9) reprio_live[OF s2(2)]]
      keeps_tasks_trans[OF m(10) reprio_keeps[OF s2(2)]] by (intro exI[of _ ?s'] exI[of _ C2]) simp
qed

lemma lock_refused:
  assumes "running s t" "mutexes_held (tcbs s t) = 0xFF \<or> owner_of s n = Some t \<or> owner_of s n \<noteq> None \<and> timeout = 0"
  shows "mutex_lock_enter n timeout s = Ret (Some False, s)"
proof -
  have e: "rtos_port_exit_critical (primask s) (s\<lparr>primask := 1\<rparr>) = s" by (simp add: rtos_port_exit_critical_def)
  have "cur_task s = Some t" using assms(1) by (simp add: running_def)
  then show ?thesis using assms(2)
    unfolding mutex_lock_enter_def rtos_port_enter_critical_def rtos_scheduler_current_task_def owner_of_def Let_def split
    by (elim disjE conjE) (auto simp: e)
qed

lemma lock_acquires:
  assumes "minv s C" "running s t" "mutex_live C n" "mutexes_held (tcbs s t) \<noteq> 0xFF" "owner_of s n = None"
  shows "\<exists>s'. mutex_lock_enter n timeout s = Ret (Some True, s') \<and> minv s' C \<and> owner_of s' n = Some t \<and>
           (\<forall>k. k \<noteq> n \<longrightarrow> owner_of s' k = owner_of s k) \<and> lists s' = lists s \<and> primask s' = primask s \<and>
           tcbs s' = (tcbs s)(t := (tcbs s t)\<lparr>mutexes_held := mutexes_held (tcbs s t) + 1\<rparr>) \<and> keeps_tasks {} s s' \<and> same_objects s s'"
proof -
  let ?s0 = "s\<lparr>primask := 1\<rparr>" and ?h = "mutexes_held (tcbs s t)"
  let ?s' = "rtos_port_exit_critical (primask s) (set_owner_of n (Some t) (set_held t (?h + 1) ?s0))"
  have c: "cur_task s = Some t" "user_task s t" using assms(2) by (auto simp: running_def)
  have "\<forall>k. mutex_live C k \<longrightarrow> t \<notin> set (lockers C k)"
    using running_no_waiter[OF minvD(5)[OF assms(1)] assms(2)] by (simp add: mutex_live_def lockers_def)
  then have "minv ?s' C" using minv_acquire[of ?s0 C n t] assms(1,3-5) c(2) by simp
  moreover have "mutex_lock_enter n timeout s = Ret (Some True, ?s')"
    using assms(4,5) c by (simp add: mutex_lock_enter_def rtos_port_enter_critical_def rtos_scheduler_current_task_def
        owner_of_def count_ops set_held_owner)
  moreover have "keeps_tasks {} s ?s'" by (simp add: keeps_tasks_defs)
  ultimately show ?thesis by (simp del: fun_upd_apply)
qed

lemma lock_enter_minv:
  assumes "minv s C" "running s t" "mutex_live C n"
  shows "\<exists>r s' C'. mutex_lock_enter n timeout s = Ret (r, s') \<and> minv s' C' \<and> same_live C C' \<and> keeps_tasks {} s s' \<and> same_objects s s' \<and>
           (\<forall>k. owner_of s' k \<noteq> owner_of s k \<longrightarrow> k = n \<and> owner_of s n = None)"
proof -
  consider "mutexes_held (tcbs s t) = 0xFF \<or> owner_of s n = Some t \<or> owner_of s n \<noteq> None \<and> timeout = 0"
    | "mutexes_held (tcbs s t) \<noteq> 0xFF" "owner_of s n = None"
    | w where "mutexes_held (tcbs s t) \<noteq> 0xFF" "owner_of s n = Some w" "w \<noteq> t" "timeout \<noteq> 0" by fastforce
  then show ?thesis
  proof cases
    case 1
    then show ?thesis using lock_refused[OF assms(2)] assms(1) same_live_refl keeps_tasks_port(1) same_objects_simps(1) by blast
  next
    case 2
    obtain s' where "mutex_lock_enter n timeout s = Ret (Some True, s')" "minv s' C" "\<forall>k. k \<noteq> n \<longrightarrow> owner_of s' k = owner_of s k"
        "keeps_tasks {} s s'" "same_objects s s'"
      using lock_acquires[OF assms 2, of timeout] by blast
    then show ?thesis using 2 same_live_refl[of C] by (intro exI[of _ "Some True"] exI[of _ s'] exI[of _ C]) auto
  next
    case (3 w)
    obtain s' C' where "mutex_lock_enter n timeout s = Ret (None, s')" "minv s' C'" "owner_of s' = owner_of s" "same_live C C'"
        "keeps_tasks {} s s'" "same_objects s s'"
      using lock_blocks[OF assms 3(2,3,1,4)] by blast
    then show ?thesis by (intro exI[of _ None] exI[of _ s'] exI[of _ C']) simp
  qed
qed

text \<open>
  \<^bold>\<open>C16.\<close> \<open>artos_mutex_lock\<close>, called by the running task: a task that holds 255 mutexes, that owns the mutex already, or
  that finds it taken and may not wait gets false with nothing changed; a free mutex is taken and
  counted. Otherwise the task waits behind the waiters of at least its priority, asleep until its
  timeout, and the owner inherits the priority of the first waiter if that is higher. The
  invariant is kept: in particular every task's count is the number of mutexes it owns.
\<close>

theorem mutex_lock_correct:
  fixes timeout :: u32
  assumes "minv s C" "running s t" "mutex_live C n"
  shows "if mutexes_held (tcbs s t) = 0xFF \<or> owner_of s n = Some t \<or> owner_of s n \<noteq> None \<and> timeout = 0
         then artos_mutex_lock run (Some n) timeout s = Ret (False, s)
         else if owner_of s n = None
         then \<exists>s'. artos_mutex_lock run (Some n) timeout s = Ret (True, s') \<and> minv s' C \<and> owner_of s' n = Some t \<and>
                (\<forall>k. k \<noteq> n \<longrightarrow> owner_of s' k = owner_of s k) \<and> lists s' = lists s \<and> primask s' = primask s \<and>
                tcbs s' = (tcbs s)(t := (tcbs s t)\<lparr>mutexes_held := mutexes_held (tcbs s t) + 1\<rparr>)
         else \<exists>s1 C1. artos_mutex_lock run (Some n) timeout s = res_bind (run s1) (mutex_lock_resume n) \<and>
                minv s1 C1 \<and> owner_of s1 = owner_of s \<and> blocked_on s t (MutexLockL n) timeout s1 \<and>
                lockers C1 n = enqueue_waiter (\<lambda>u. effective_priority (tcbs s u)) t (lockers C n) \<and>
                tcbs s1 = (tcbs s)(the (owner_of s n) := (tcbs s (the (owner_of s n)))\<lparr>effective_priority :=
                  max (effective_priority (tcbs s (the (owner_of s n)))) (effective_priority (tcbs s (hd (lockers C1 n))))\<rparr>)"
proof -
  consider "mutexes_held (tcbs s t) = 0xFF \<or> owner_of s n = Some t \<or> owner_of s n \<noteq> None \<and> timeout = 0"
    | "mutexes_held (tcbs s t) \<noteq> 0xFF" "owner_of s n = None"
    | w where "mutexes_held (tcbs s t) \<noteq> 0xFF" "owner_of s n = Some w" "w \<noteq> t" "timeout \<noteq> 0" by fastforce
  then show ?thesis
  proof cases
    case 1
    then show ?thesis using lock_refused[OF assms(2) 1] by (simp add: artos_mutex_lock_def)
  next
    case 2
    then show ?thesis using lock_acquires[OF assms 2, of timeout] by (auto simp: artos_mutex_lock_def)
  next
    case (3 w)
    then show ?thesis using lock_blocks[OF assms 3(2,3,1,4)] by (auto simp: artos_mutex_lock_def)
  qed
qed

section \<open>After waiting\<close>

lemma clear_reason_minv:
  assumes inv: "minv s C"
  shows "minv (rtos_clear_current_wait_reason s) C"
proof -
  let ?s = "rtos_clear_current_wait_reason s"
  have f: "lists ?s = lists s" "tsk_cnt ?s = tsk_cnt s" "ready_bitmap ?s = ready_bitmap s" "cur_task ?s = cur_task s" "ticks ?s = ticks s"
      "cur_delayed ?s = cur_delayed s" "next_delayed ?s = next_delayed s" "kernel.more ?s = kernel.more s"
    by (cases "cur_task s"; simp add: clear_reason_eq upd_tcb_def)+
  have t: "effective_priority (tcbs ?s u) = effective_priority (tcbs s u) \<and> priority (tcbs ?s u) = priority (tcbs s u) \<and>
      stack_pointer (tcbs ?s u) = stack_pointer (tcbs s u) \<and> mutexes_held (tcbs ?s u) = mutexes_held (tcbs s u)" for u
    by (cases "cur_task s"; simp add: clear_reason_eq upd_tcb_def)
  have "kinv ?s C" by (rule kinv_tcb_frame[OF minvD(5)[OF inv]]) (simp_all add: f t)
  moreover have "tick_ok ?s C" using minvD(6)[OF inv] by (simp add: tick_ok_def f)
  moreover have "waiters_ok s C C" by (simp add: waiters_ok_def)
  ultimately show ?thesis using f(2,8) t by (intro minv_frame[OF inv]) simp_all
qed

lemma clear_reason_fields [simp]:
  "effective_priority (tcbs (rtos_clear_current_wait_reason s) u) = effective_priority (tcbs s u)"
  "priority (tcbs (rtos_clear_current_wait_reason s) u) = priority (tcbs s u)"
  "mutexes_held (tcbs (rtos_clear_current_wait_reason s) u) = mutexes_held (tcbs s u)"
  "cur_task (rtos_clear_current_wait_reason s) = cur_task s" "pendsv (rtos_clear_current_wait_reason s) = pendsv s"
  "lists (rtos_clear_current_wait_reason s) = lists s" "user_task (rtos_clear_current_wait_reason s) = user_task s"
  "required (rtos_clear_current_wait_reason s) C t l = required s C t l"
  by (cases "cur_task s"; simp add: clear_reason_eq upd_tcb_def fun_eq_iff user_task_def required_def split: list.split)+

lemma keeps_tasks_clear [simp]: "keeps_tasks X s (rtos_clear_current_wait_reason s)"
  by (simp add: keeps_tasks_defs)

lemma clear_reason_owner [simp]: "owner_of (rtos_clear_current_wait_reason s) n = owner_of s n"
  "mutexes (rtos_clear_current_wait_reason s) = mutexes s"
  by (cases "cur_task s"; simp add: clear_reason_eq upd_tcb_def owner_of_def)+

lemma clear_reason_objects [simp]: "same_objects s (rtos_clear_current_wait_reason s)"
  by (cases "cur_task s"; simp add: clear_reason_eq upd_tcb_def same_objects_def)

lemma lock_resume_runs:
  assumes "minv s C" "mutex_live C n"
  defines "signalled \<equiv> rtos_current_wait_reason s = WAIT_SIGNALED"
  shows "\<exists>s' C'. mutex_lock_resume n s = Ret (signalled, s') \<and> minv s' C' \<and> owner_of s' = owner_of s \<and>
           primask s' = primask s \<and> pendsv s' = pendsv s \<and> cur_task s' = cur_task s \<and> same_live C C' \<and> keeps_tasks {} s s' \<and> same_objects s s' \<and>
           (\<forall>u. effective_priority (tcbs s' u) =
              (if \<not> signalled \<and> owner_of s n = Some u \<and> mutexes_held (tcbs s u) = 1
               then min (effective_priority (tcbs s u)) (required s C u (MutexLockL n)) else effective_priority (tcbs s u)))"
proof -
  let ?s1 = "(rtos_clear_current_wait_reason s)\<lparr>primask := 1\<rparr>" and ?l = "MutexLockL n"
  have inv1: "minv ?s1 C" using clear_reason_minv[OF assms(1)] by simp
  have ex: "rtos_port_exit_critical (primask s) ?s1 = rtos_clear_current_wait_reason s"
    using clear_reason_port(5)[of s] by (simp add: rtos_port_exit_critical_def)
  show ?thesis
  proof (cases "signalled \<or> owner_of s n = None")
    case True
    then have "mutex_lock_resume n s = Ret (signalled, rtos_clear_current_wait_reason s)"
      by (auto simp: mutex_lock_resume_def rtos_port_enter_critical_def signalled_def ex owner_of_def Let_def
          rtos_mutex_required_priority_def rtos_priority_disinherit_after_timeout_def)
    then show ?thesis using clear_reason_minv[OF assms(1)] True
      by (intro exI[of _ "rtos_clear_current_wait_reason s"] exI[of _ C]) (auto simp: fun_eq_iff)
  next
    case False
    then obtain w where w: "owner_of s n = Some w" "\<not> signalled" by auto
    have u: "user_task ?s1 w" using minvD(2)[OF assms(1,2)] w(1) by (simp add: mutex_ok_def)
    have l: "is_wait_list ?l" "C ?l \<noteq> None" using assms(2) by (simp_all add: mutex_live_def)
    let ?r = "required ?s1 C w ?l"
    have r: "?r = required s C w ?l" by (simp add: required_def split: list.split)
    note k = minvD(5,6)[OF inv1]
    let ?p = "if mutexes_held (tcbs ?s1 w) = 1 then min (effective_priority (tcbs ?s1 w)) (max ?r (priority (tcbs ?s1 w)))
              else effective_priority (tcbs ?s1 w)"
    obtain s2 C2 where s2: "rtos_priority_disinherit_after_timeout (Some w) ?r ?s1 = Ret (effective_priority (tcbs ?s1 w) \<noteq> ?p, s2)"
        "reprio w ?p ?s1 C s2 C2"
      using disinherit_runs[OF k u required_bound(1)[OF k(1) u l]] by blast
    have mx: "max (required s C w ?l) (priority (tcbs s w)) = required s C w ?l"
      using required_bound(2)[OF k(1) u l] unfolding r by (simp add: max_absorb1)
    have o: "only_priority w ?p ?s1 s2" using s2(2) by (simp add: reprio_def)
    have "owner_of s2 = owner_of s" using owner_of_more[of s2 ?s1] s2(2) by (simp add: reprio_def fun_eq_iff)
    moreover have "same_objects s s2"
      using more_objects[of s2 ?s1] s2(2) clear_reason_objects[of s] by (simp add: reprio_def same_objects_def)
    moreover have "mutex_lock_resume n s = Ret (signalled, rtos_port_exit_critical (primask s) s2)"
      using w s2(1) required_priority_runs[OF k(1) l, of w]
      by (simp add: mutex_lock_resume_def rtos_port_enter_critical_def signalled_def owner_of_def)
    moreover have "keeps_tasks {} s s2" using keeps_tasks_trans[OF _ reprio_keeps[OF s2(2)], where s = s] by simp
    ultimately show ?thesis using reprio_minv[OF inv1 s2(2)] reprio_live[OF s2(2)] w o unfolding r
      by (intro exI[of _ "rtos_port_exit_critical (primask s) s2"] exI[of _ C2]) (auto simp: only_priority_def fun_eq_iff mx)
  qed
qed


lemma minv_new_mutex:
  assumes inv: "minv s C" and l: "C (MutexLockL n) = None \<or> C (MutexLockL n) = Some [] \<and> owner_of s n = None"
  shows "minv ((set_owner_of n None s)\<lparr>lists := rtos_init_list (Some (MutexLockL n)) (lists s)\<rparr>) (C(MutexLockL n \<mapsto> []))"
    (is "minv ?s' ?C")
proof -
  let ?s = "set_owner_of n None s"
  have l': "C (MutexLockL n) = None \<or> C (MutexLockL n) = Some []" using l by auto
  have k: "kinv ?s C" "tick_ok ?s C"
    using minvD(6)[OF inv] by (auto simp: tick_ok_def intro!: kinv_tcb_frame[OF minvD(5)[OF inv]])
  have k2: "kinv ?s' ?C" "tick_ok ?s' ?C"
    using kinv_new_wait_list[OF k(1) _ l'] tick_ok_new_wait_list[OF k, of "MutexLockL n"] by simp_all
  have si: "sinv ?s' ?C" by (rule sinv_frame[OF minvD(4)[OF inv] k2]) simp_all
  have "qinv ?s' ?C" by (rule qinv_frame[OF minvD(1)[OF inv] si]) (simp_all add: queue_live_def)
  moreover have "mutex_ok ?s' ?C j" if "mutex_live ?C j" for j
    using minvD(2)[OF inv, of j] that
    by (cases "j = n") (auto simp: mutex_ok_def mutex_live_def lockers_def waiters_def user_task_def)
  moreover have "held_ok ?s' ?C u" if "user_task ?s' u" for u
  proof -
    have "held_by ?s' ?C u = held_by s C u" using l by (auto simp: held_by_def mutex_live_def)
    then show ?thesis using minvD(3)[OF inv, of u] that by (simp add: held_ok_def)
  qed
  ultimately show ?thesis by (simp add: minv_def)
qed

text \<open>
  Mutex initialisation: NULL storage gives NULL and changes nothing; otherwise the mutex is free and nobody
  waits for it. Re-initialising a mutex that nobody holds or waits for is harmless.
\<close>

theorem mutex_init_correct:
  assumes "minv s C" "C (MutexLockL n) = None \<or> C (MutexLockL n) = Some [] \<and> owner_of s n = None"
  shows "\<exists>s'. artos_mutex_init (Some n) s = (Some n, s') \<and> minv s' (C(MutexLockL n \<mapsto> [])) \<and>
           owner_of s' n = None \<and> (\<forall>k. k \<noteq> n \<longrightarrow> owner_of s' k = owner_of s k) \<and> tcbs s' = tcbs s \<and>
           artos_mutex_init None s = (None, s)"
  using minv_new_mutex[OF assms]
  by (intro exI[of _ "(set_owner_of n None s)\<lparr>lists := rtos_init_list (Some (MutexLockL n)) (lists s)\<rparr>"])
    (simp add: artos_mutex_init_def)

section \<open>Unlocking\<close>

text \<open>The first waiter \<open>w\<close> takes over mutex \<open>n\<close> from \<open>t\<close>.\<close>

definition handed_over :: "nat \<Rightarrow> tcb_ref \<Rightarrow> tcb_ref \<Rightarrow> 'z mutex_kernel_scheme \<Rightarrow> 'z mutex_kernel_scheme \<Rightarrow> bool" where
  "handed_over n t w s s' \<longleftrightarrow>
     owner_of s' = (owner_of s)(n := Some w) \<and> tsk_cnt s' = tsk_cnt s \<and>
     (\<forall>u. mutexes_held (tcbs s' u) = (if u = w then mutexes_held (tcbs s w) + 1
        else if u = t then mutexes_held (tcbs s t) - 1 else mutexes_held (tcbs s u)))"

lemma unat_u8_inc: "(c :: u8) \<noteq> 0xFF \<Longrightarrow> unat (c + 1) = unat c + 1"
proof -
  assume "c \<noteq> 0xFF"
  moreover have "unat c < 2 ^ 8" by (rule order_less_le_trans[OF unsigned_less]) simp
  ultimately show ?thesis by (simp add: unat_plus_if' word_unat_eq_iff)
qed

lemma u8_dec_not_full: "(c :: u8) \<noteq> 0 \<Longrightarrow> c - 1 \<noteq> 0xFF"
proof
  assume "c \<noteq> 0" "c - 1 = 0xFF"
  then have "c = 0xFF + 1" by (simp only: diff_eq_eq)
  then show False using \<open>c \<noteq> 0\<close> by simp
qed

lemma owner_holds:
  assumes inv: "minv s C" and n: "mutex_live C n" "owner_of s n = Some t"
  shows "user_task s t" "mutexes_held (tcbs s t) \<noteq> 0" "n \<in> held_by s C t" "finite (held_by s C t)"
    "card (held_by s C t) = unat (mutexes_held (tcbs s t))"
proof -
  show u: "user_task s t" using minvD(2)[OF inv n(1)] n(2) by (simp add: mutex_ok_def)
  show m: "n \<in> held_by s C t" and f: "finite (held_by s C t)" and c: "card (held_by s C t) = unat (mutexes_held (tcbs s t))"
    using minvD(3)[OF inv u] n by (auto simp: held_ok_def held_by_def)
  then show "mutexes_held (tcbs s t) \<noteq> 0" by (metis card_0_eq empty_iff unat_0)
qed

lemma minv_hand_over:
  assumes inv: "minv s C" and n: "mutex_live C n" "owner_of s n = Some t" "lockers C n = w # ws"
    and k: "kinv s' C'" "tick_ok s' C'" and f: "sems s' = sems s" "queues s' = queues s" and h: "handed_over n t w s s'"
    and l: "lockers C' n = ws" "\<And>j. is_wait_list j \<Longrightarrow> j \<noteq> MutexLockL n \<Longrightarrow> C' j = C j" "mutex_live C' n"
  shows "minv s' C'"
proof -
  note t = owner_holds[OF inv n(1,2)]
  have live: "mutex_live C' j = mutex_live C j" for j using l(2)[of "MutexLockL j"] l(3) n(1) by (cases "j = n") (auto simp: mutex_live_def)
  have lk: "lockers C' j = (if j = n then ws else lockers C j)" for j
    using l(1) l(2)[of "MutexLockL j"] by (auto simp: lockers_def waiters_def)
  have w: "w \<noteq> t" "mutexes_held (tcbs s w) \<noteq> 0xFF" using minvD(2)[OF inv n(1)] n by (auto simp: mutex_ok_def)
  have wb: "user_task s w" "cont (lists s) (EventItem w) = Some (MutexLockL n)"
    using waiter_blocked(1,2)[OF minvD(5)[OF inv], of "MutexLockL n" w] n(1,3) by (simp_all add: mutex_live_def lockers_def)
  have one: "j = n" if "mutex_live C j" "w \<in> set (lockers C j)" for j
    using waiter_blocked(2)[OF minvD(5)[OF inv], of "MutexLockL j" w] that wb(2) by (simp add: mutex_live_def lockers_def)
  have nw: "w \<notin> set ws"
  proof -
    have "map EventItem (waiters C (MutexLockL n)) = the (C (MutexLockL n))"
      using waiters_items[OF minvD(5)[OF inv], of "MutexLockL n"] n(1) by (auto simp: mutex_live_def)
    moreover have "distinct (the (C (MutexLockL n)))"
      using lists_wf_distinct[OF kinv_wf[OF minvD(5)[OF inv]]] n(1) by (auto simp: mutex_live_def)
    ultimately show ?thesis using n(3) by (metis distinct.simps(2) distinct_map lockers_def)
  qed
  have us: "user_task s' = user_task s" using h by (simp add: handed_over_def user_task_def fun_eq_iff)
  have "mutex_ok s' C' j" if j: "mutex_live C' j" for j
  proof -
    have "mutex_ok s C j" using minvD(2)[OF inv] j live by simp
    moreover have "mutexes_held (tcbs s' u) \<noteq> 0xFF" if "u \<in> set (lockers C' j)" "mutexes_held (tcbs s u) \<noteq> 0xFF" for u
    proof -
      have "u \<noteq> w" using that(1) nw one[of j] j live by (auto simp: lk split: if_splits)
      then show ?thesis using that(2) h u8_dec_not_full[OF t(2)] by (simp add: handed_over_def)
    qed
    ultimately show ?thesis using h us nw wb(1) n(3) by (auto simp: mutex_ok_def handed_over_def lk split: if_splits)
  qed
  moreover have "held_ok s' C' u" if u: "user_task s u" for u
  proof -
    have hb: "held_by s' C' u = (if u = w then insert n (held_by s C w) else if u = t then held_by s C t - {n} else held_by s C u)"
      using h n(1,2) w(1) by (auto simp: held_by_def live handed_over_def)
    have "n \<notin> held_by s C w" using n(2) w(1) by (simp add: held_by_def)
    then show ?thesis using minvD(3)[OF inv u] minvD(3)[OF inv wb(1)] t h w unat_u8_inc[OF w(2)]
      unfolding held_ok_def hb by (auto simp: handed_over_def unat_minus_one)
  qed
  moreover have "sinv s' C'" by (rule sinv_frame[OF minvD(4)[OF inv] k f(1)]) (simp add: l(2))
  then have "qinv s' C'" by (rule qinv_frame[OF minvD(1)[OF inv] _ f(2)]) (simp add: queue_live_def l(2))
  ultimately show ?thesis by (simp add: minv_def us)
qed

text \<open>The first half of \<open>artos_mutex_unlock\<close>: the owner's count and priority have changed, no wait list has.\<close>

definition gave_up :: "tcb_ref \<Rightarrow> u8 \<Rightarrow> 'z mutex_kernel_scheme \<Rightarrow> list_view \<Rightarrow> 'z mutex_kernel_scheme \<Rightarrow> list_view \<Rightarrow> bool" where
  "gave_up t p s C s2 C2 \<longleftrightarrow> kinv s2 C2 \<and> tick_ok s2 C2 \<and> (\<forall>l. is_wait_list l \<longrightarrow> C2 l = C l) \<and> kernel.more s2 = kernel.more s \<and>
     tcbs s2 = (tcbs s)(t := (tcbs s t)\<lparr>mutexes_held := mutexes_held (tcbs s t) - 1, effective_priority := p\<rparr>) \<and>
     tsk_cnt s2 = tsk_cnt s \<and> cur_task s2 = cur_task s \<and> pendsv s2 = pendsv s \<and> ticks s2 = ticks s \<and> keeps_tasks {} s s2"

text \<open>The priority that remains after an unlock.\<close>

definition prio_after :: "rtos_tcb \<Rightarrow> u8" where
  "prio_after x = (if mutexes_held x = 1 then priority x else effective_priority x)"

lemma unlock_prepare:
  assumes inv: "minv s C" and t: "running s t" and n: "mutex_live C n" "owner_of s n = Some t"
  defines "p \<equiv> prio_after (tcbs s t)"
  shows "\<exists>s2 C2. rtos_priority_relinquish_after_unlock (Some t) (rtos_decrement_mutex_count (Some t) (s\<lparr>primask := 1\<rparr>)) =
             Ret (effective_priority (tcbs s t) \<noteq> p, s2) \<and> gave_up t p s C s2 C2"
proof -
  let ?h = "mutexes_held (tcbs s t)" let ?s1 = "set_held t (?h - 1) (s\<lparr>primask := 1\<rparr>)"
  have k: "kinv ?s1 C" "tick_ok ?s1 C" "user_task ?s1 t"
    using minvD(6)[OF inv] t by (auto simp: tick_ok_def running_def intro!: kinv_tcb_frame[OF minvD(5)[OF inv]])
  have z: "?h - 1 = 0 \<longleftrightarrow> ?h = 1" by simp
  have p: "(if mutexes_held (tcbs ?s1 t) = 0 then priority (tcbs ?s1 t) else effective_priority (tcbs ?s1 t)) = p"
    by (simp add: p_def prio_after_def z)
  obtain s2 C2 where s2: "rtos_priority_relinquish_after_unlock (Some t) ?s1 = Ret (effective_priority (tcbs ?s1 t) \<noteq> p, s2)"
      "reprio t p ?s1 C s2 C2"
    using relinquish_runs[OF k] unfolding p by blast
  have o: "only_priority t p ?s1 s2" "kernel.more s2 = kernel.more ?s1" "kinv s2 C2" "tick_ok s2 C2" using s2(2) by (simp_all add: reprio_def)
  have "C2 l = C l" if l: "is_wait_list l" for l
  proof (cases "C l")
    case None
    then show ?thesis using s2(2) l by (simp add: reprio_def)
  next
    case (Some xs)
    then show ?thesis using s2(2) l running_no_waiter[OF minvD(5)[OF inv] t l] by (simp add: reprio_def)
  qed
  moreover have "keeps_tasks {} s s2" using reprio_keeps[OF s2(2)] by simp
  ultimately show ?thesis using s2(1) o owner_holds(2)[OF inv n]
    by (intro exI[of _ s2] exI[of _ C2]) (simp add: only_priority_def gave_up_def count_ops)
qed

text \<open>The second half with a waiter: it is woken and becomes the owner. Inheriting from the waiters behind it changes nothing.\<close>

lemma inherit_from_followers:
  assumes k: "kinv s C" and l: "is_wait_list l" "C l \<noteq> None" and w: "user_task s w"
    and le: "\<forall>u \<in> set (waiters C l). effective_priority (tcbs s u) \<le> effective_priority (tcbs s w)"
  shows "rtos_priority_inherit (Some w) (required s C w l) s = Ret s"
proof -
  have "priority (tcbs s w) \<le> effective_priority (tcbs s w)" using kinv_task[OF k w] by (simp add: task_ok_def)
  then have "required s C w l \<le> effective_priority (tcbs s w)" using le by (cases "waiters C l") (auto simp: required_def)
  then show ?thesis by (simp add: rtos_priority_inherit_def)
qed

lemma lockers_sorted:
  assumes "minv s C" "mutex_live C n" "lockers C n = w # ws"
  shows "\<forall>u \<in> set ws. effective_priority (tcbs s u) \<le> effective_priority (tcbs s w)"
  using waiters_sorted[OF minvD(5)[OF assms(1)], of "MutexLockL n"] assms(2,3) by (simp add: mutex_live_def lockers_def)

lemma unlock_take_over:
  assumes inv: "minv s C" and n: "mutex_live C n" "owner_of s n = Some t" "lockers C n = w # ws" and g: "gave_up t p s C s2 C2"
  shows "\<exists>s3 C'. rtos_unblock_task (Some (EventItem w)) WAIT_SIGNALED s2 = Ret s3 \<and>
           mutexes_held (tcbs s3 w) = mutexes_held (tcbs s w) \<and> primask s3 = primask s2 \<and> pendsv s3 = pendsv s2 \<and>
           tcbs s3 = (tcbs s2)(w := (tcbs s2 w)\<lparr>wait_reason := WAIT_SIGNALED\<rparr>) \<and>
           cont (lists s3) (StateItem w) = Some (ReadyL (unat (effective_priority (tcbs s w)))) \<and> cont (lists s3) (EventItem w) = None \<and>
           handed_over n t w s (set_owner_of n (Some w) (set_held w (mutexes_held (tcbs s w) + 1) s3)) \<and>
           minv (set_owner_of n (Some w) (set_held w (mutexes_held (tcbs s w) + 1) s3)) C' \<and> lockers C' n = ws \<and> mutex_live C' n \<and> same_live C C' \<and> keeps_tasks {MutexLockL n} s2 s3 \<and> same_objects s s3"
proof -
  let ?l = "MutexLockL n"
  have g': "kinv s2 C2" "tick_ok s2 C2" "\<forall>l. is_wait_list l \<longrightarrow> C2 l = C l" "kernel.more s2 = kernel.more s"
      "tcbs s2 = (tcbs s)(t := (tcbs s t)\<lparr>mutexes_held := mutexes_held (tcbs s t) - 1, effective_priority := p\<rparr>)" "tsk_cnt s2 = tsk_cnt s"
    using g by (simp_all add: gave_up_def)
  have l: "is_wait_list ?l" "C2 ?l \<noteq> None" and w2: "waiters C2 ?l = w # ws" using g'(3) n(1,3) by (auto simp: mutex_live_def lockers_def waiters_def)
  have w: "w \<noteq> t" using minvD(2)[OF inv n(1)] n by (auto simp: mutex_ok_def)
  then have tw: "tcbs s2 w = tcbs s w" using g'(5) by simp
  let ?C = "unblock_view w (unat (effective_priority (tcbs s2 w))) C2"
  obtain m where m: "rtos_unblock_task (Some (EventItem w)) WAIT_SIGNALED s2 = Ret (unblocked w WAIT_SIGNALED m s2)"
      "kinv (unblocked w WAIT_SIGNALED m s2) ?C" "tick_ok (unblocked w WAIT_SIGNALED m s2) ?C" "waiters ?C ?l = ws"
      "\<forall>k. is_wait_list k \<longrightarrow> k \<noteq> ?l \<longrightarrow> ?C k = C2 k"
      "\<And>j. \<not> is_sentinel j \<Longrightarrow> cont m j = (if j = StateItem w then Some (ReadyL (unat (effective_priority (tcbs s2 w))))
           else if j = EventItem w then None else cont (lists s2) j)" "same_data (lists s2) m"
    using wake_head[OF g'(1,2) l w2, of WAIT_SIGNALED] by blast
  let ?s3 = "unblocked w WAIT_SIGNALED m s2"
  let ?s4 = "set_owner_of n (Some w) (set_held w (mutexes_held (tcbs s w) + 1) ?s3)"
  have t3: "tcbs ?s3 = (tcbs s2)(w := (tcbs s2 w)\<lparr>wait_reason := WAIT_SIGNALED\<rparr>)" "primask ?s3 = primask s2" "pendsv ?s3 = pendsv s2"
    by (simp_all add: unblocked_def upd_tcb_def)
  have mo: "kernel.more ?s3 = kernel.more s" using g'(4) by (simp add: unblocked_def upd_tcb_def)
  have ho: "handed_over n t w s ?s4"
    using owner_of_more[OF mo] g'(5,6) t3(1) w unfolding handed_over_def by (auto simp: fun_eq_iff simp del: unblocked_fields(1))
  have l4: "mutex_live ?C n" using l(2) by (auto simp: mutex_live_def unblock_view_def append_to_def take_out_def)
  have "minv ?s4 ?C"
  proof (rule minv_hand_over[OF inv n _ _ _ _ ho _ _ l4])
    show "kinv ?s4 ?C" by (rule kinv_tcb_frame[OF m(2)]) simp_all
    show "tick_ok ?s4 ?C" using m(3) by (simp add: tick_ok_def)
    show "sems ?s4 = sems s" "queues ?s4 = queues s" using more_fields[OF mo] by simp_all
    show "lockers ?C n = ws" using m(4) by (simp add: lockers_def)
    show "?C j = C j" if "is_wait_list j" "j \<noteq> ?l" for j using m(5) g'(3) that by simp
  qed
  moreover have "same_objects s ?s3" by (rule more_objects[OF mo])
  moreover have "keeps_tasks {MutexLockL n} s2 ?s3" by (rule wake_keeps[OF g'(1) l _ m(6,7)]) (simp add: w2)
  moreover have "same_live C ?C" using g'(3) by (auto simp: same_live_def unblock_view_def append_to_def take_out_def)
  ultimately show ?thesis using m(1,4) m(6)[of "StateItem w"] m(6)[of "EventItem w"] t3 ho l4 tw
    by (intro exI[of _ ?s3] exI[of _ ?C]) (simp add: lockers_def)
qed

lemma unlock_hand_over:
  assumes inv: "minv s C" and t: "running s t" and n: "mutex_live C n" "owner_of s n = Some t" "lockers C n = w # ws"
  defines "p \<equiv> prio_after (tcbs s t)"
  shows "\<exists>s' C'. artos_mutex_unlock (Some n) s =
             Ret (True, if p < effective_priority (tcbs s w) then rtos_port_request_context_switch s' else s') \<and> minv s' C' \<and>
           handed_over n t w s s' \<and> lockers C' n = ws \<and> primask s' = primask s \<and> pendsv s' = pendsv s \<and>
           effective_priority (tcbs s' t) = p \<and> wait_reason (tcbs s' w) = WAIT_SIGNALED \<and>
           cont (lists s') (StateItem w) = Some (ReadyL (unat (effective_priority (tcbs s w)))) \<and> cont (lists s') (EventItem w) = None \<and>
           same_live C C' \<and> keeps_tasks {MutexLockL n} s s' \<and> same_objects s s'"
proof -
  let ?l = "MutexLockL n" and ?s0 = "s\<lparr>primask := 1\<rparr>"
  obtain s2 C2 where s2: "rtos_priority_relinquish_after_unlock (Some t) (rtos_decrement_mutex_count (Some t) ?s0) =
      Ret (effective_priority (tcbs s t) \<noteq> p, s2)" "gave_up t p s C s2 C2"
    using unlock_prepare[OF inv t n(1,2)] unfolding p_def by blast
  have g: "kinv s2 C2" "\<forall>l. is_wait_list l \<longrightarrow> C2 l = C l" "pendsv s2 = pendsv s"
      "tcbs s2 = (tcbs s)(t := (tcbs s t)\<lparr>mutexes_held := mutexes_held (tcbs s t) - 1, effective_priority := p\<rparr>)"
    using s2(2) by (simp_all add: gave_up_def)
  obtain s3 C' where s3: "rtos_unblock_task (Some (EventItem w)) WAIT_SIGNALED s2 = Ret s3"
      "mutexes_held (tcbs s3 w) = mutexes_held (tcbs s w)" "primask s3 = primask s2" "pendsv s3 = pendsv s2"
      "tcbs s3 = (tcbs s2)(w := (tcbs s2 w)\<lparr>wait_reason := WAIT_SIGNALED\<rparr>)"
      "cont (lists s3) (StateItem w) = Some (ReadyL (unat (effective_priority (tcbs s w))))" "cont (lists s3) (EventItem w) = None"
      "handed_over n t w s (set_owner_of n (Some w) (set_held w (mutexes_held (tcbs s w) + 1) s3))"
      "minv (set_owner_of n (Some w) (set_held w (mutexes_held (tcbs s w) + 1) s3)) C'" "lockers C' n = ws" "mutex_live C' n" "same_live C C'" "keeps_tasks {MutexLockL n} s2 s3" "same_objects s s3"
    using unlock_take_over[OF inv n s2(2)] by blast
  let ?s4 = "set_owner_of n (Some w) (set_held w (mutexes_held (tcbs s w) + 1) s3)" and ?s' = "rtos_port_exit_critical (primask s) (set_owner_of n (Some w) (set_held w (mutexes_held (tcbs s w) + 1) s3))"
  have w: "w \<noteq> t" "mutexes_held (tcbs s w) \<noteq> 0xFF" "t \<notin> set ws" using minvD(2)[OF inv n(1)] n by (auto simp: mutex_ok_def)
  have l: "is_wait_list ?l" "C2 ?l \<noteq> None" "C' ?l \<noteq> None" and w2: "waiters C2 ?l = w # ws" and w': "waiters C' ?l = ws"
    using g(2) n(1,3) s3(10,11) by (auto simp: mutex_live_def lockers_def waiters_def)
  note hd = wait_list_head[OF g(1) l(1,2)]
  have own: "own (lists s2) (EventItem w) = Some w" using waiter_blocked(5)[OF g(1) l(1,2)] w2 by simp
  have e4: "effective_priority (tcbs ?s4 u) = (if u = t then p else effective_priority (tcbs s u))" for u using s3(5) g(4) w(1) by simp
  have le: "\<forall>u \<in> set (waiters C' ?l). effective_priority (tcbs ?s4 u) \<le> effective_priority (tcbs ?s4 w)"
    using lockers_sorted[OF inv n(1,3)] w(1,3) unfolding w' e4 by auto
  note k4 = minvD(5)[OF s3(9)]
  have inh: "rtos_priority_inherit (Some w) (required ?s4 C' w ?l) ?s4 = Ret ?s4"
    using inherit_from_followers[OF k4 l(1,3) _ le] owner_holds(1)[OF s3(9,11), of w] by simp
  note rq = required_priority_runs[OF k4 l(1,3), of w]
  have "artos_mutex_unlock (Some n) s =
      Ret (True, if p < effective_priority (tcbs s w) then rtos_port_request_context_switch ?s' else ?s')"
  proof -
    have "counts (lists s2) ?l \<noteq> 0" "nxt (lists s2) (Sentinel ?l) = Some (EventItem w)" using hd w2 by simp_all
    moreover have "cur_task s = Some t" "mutex_owner (mutexes s n) = Some t" "0 < mutexes_held (tcbs s t)"
      using t n(2) owner_holds(2)[OF inv n(1,2)] by (simp_all add: running_def owner_of_def word_neq_0_conv)
    moreover have "mutex_owner (mutexes ?s4 n) = Some w" by (simp add: set_owner_of_def)
    ultimately show ?thesis using s2(1) own s3(1,2) w(1,2) inh rq e4[of w] e4[of t] g(4)
      by (simp add: artos_mutex_unlock_def rtos_port_enter_critical_def rtos_scheduler_current_task_def
          count_ops(1) set_held_owner Let_def)
  qed
  moreover have "keeps_tasks {MutexLockL n} s ?s'"
    using s2(2) s3(13) keeps_tasks_trans[of "{MutexLockL n}" s s2 s3] keeps_tasks_mono[of "{}" s s2] by (simp add: gave_up_def)
  moreover have "handed_over n t w s ?s'" using s3(8) by (simp add: handed_over_def fun_eq_iff)
  ultimately show ?thesis using s3 e4[of t] g(3) by (intro exI[of _ ?s'] exI[of _ C']) simp
qed

lemma unlock_free:
  assumes inv: "minv s C" and t: "running s t" and n: "mutex_live C n" "owner_of s n = Some t" "lockers C n = []"
  defines "p \<equiv> prio_after (tcbs s t)"
  shows "\<exists>s' C'. artos_mutex_unlock (Some n) s =
             Ret (True, if p \<noteq> effective_priority (tcbs s t) then rtos_port_request_context_switch s' else s') \<and> minv s' C' \<and>
           owner_of s' = (owner_of s)(n := None) \<and> lockers C' n = [] \<and> primask s' = primask s \<and> pendsv s' = pendsv s \<and>
           tcbs s' = (tcbs s)(t := (tcbs s t)\<lparr>mutexes_held := mutexes_held (tcbs s t) - 1, effective_priority := p\<rparr>) \<and>
           same_live C C' \<and> keeps_tasks {MutexLockL n} s s' \<and> same_objects s s'"
proof -
  let ?l = "MutexLockL n" and ?s0 = "s\<lparr>primask := 1\<rparr>"
  obtain s2 C2 where s2: "rtos_priority_relinquish_after_unlock (Some t) (rtos_decrement_mutex_count (Some t) ?s0) =
      Ret (effective_priority (tcbs s t) \<noteq> p, s2)" "gave_up t p s C s2 C2"
    using unlock_prepare[OF inv t n(1,2)] unfolding p_def by blast
  have g: "kinv s2 C2" "tick_ok s2 C2" "\<forall>l. is_wait_list l \<longrightarrow> C2 l = C l" "kernel.more s2 = kernel.more s" "tsk_cnt s2 = tsk_cnt s"
      "pendsv s2 = pendsv s" "tcbs s2 = (tcbs s)(t := (tcbs s t)\<lparr>mutexes_held := mutexes_held (tcbs s t) - 1, effective_priority := p\<rparr>)"
    using s2(2) by (simp_all add: gave_up_def)
  have l: "is_wait_list ?l" "C2 ?l \<noteq> None" "waiters C2 ?l = []" using g(3) n(1,3) by (auto simp: mutex_live_def lockers_def waiters_def)
  let ?s3 = "set_owner_of n None s2" and ?s' = "rtos_port_exit_critical (primask s) (set_owner_of n None s2)"
  have o: "owner_of ?s3 = (owner_of s)(n := None)" using owner_of_more[OF g(4)] by (simp add: fun_eq_iff)
  have m: "minv ?s3 C2"
  proof -
    note r = minv_release(2)[OF inv n]
    let ?r = "set_owner_of n None (set_held t (mutexes_held (tcbs s t) - 1) s)"
    have k: "kinv ?s3 C2" by (rule kinv_tcb_frame[OF g(1)]) simp_all
    have k': "tick_ok ?s3 C2" using g(2) by (simp add: tick_ok_def)
    have mo: "kernel.more ?s3 = kernel.more ?r" using g(4) by (cases s; cases s2; simp add: set_owner_of_def set_held_def upd_tcb_def)
    show ?thesis by (rule minv_frame[OF r k k' mo]) (simp_all add: g(3,5,7) waiters_ok_def waiters_def)
  qed
  have "artos_mutex_unlock (Some n) s = Ret (True, if p \<noteq> effective_priority (tcbs s t) then rtos_port_request_context_switch ?s' else ?s')"
  proof -
    have "counts (lists s2) ?l = 0" using wait_list_head(1)[OF g(1) l(1,2)] l(3) by simp
    moreover have "cur_task s = Some t" "mutex_owner (mutexes s n) = Some t" "0 < mutexes_held (tcbs s t)"
      using t n(2) owner_holds(2)[OF inv n(1,2)] by (simp_all add: running_def owner_of_def word_neq_0_conv)
    ultimately show ?thesis using s2(1)
      by (simp add: artos_mutex_unlock_def rtos_port_enter_critical_def rtos_scheduler_current_task_def)
  qed
  moreover have "keeps_tasks {MutexLockL n} s ?s'" using s2(2) keeps_tasks_mono[of "{}" s s2] by (simp add: gave_up_def)
  moreover have "same_live C C2" using g(3) by (simp add: same_live_def)
  moreover have "same_objects s ?s'" using more_objects[OF g(4)] by simp
  ultimately show ?thesis using m o l(3) g(6,7) by (intro exI[of _ ?s'] exI[of _ C2]) (simp add: lockers_def fun_eq_iff)
qed

lemma unlock_refused:
  assumes "running s t" "owner_of s n \<noteq> Some t"
  shows "artos_mutex_unlock (Some n) s = Ret (False, s)"
proof -
  have e: "rtos_port_exit_critical (primask s) (s\<lparr>primask := 1\<rparr>) = s" by (simp add: rtos_port_exit_critical_def)
  show ?thesis using assms
    by (simp add: artos_mutex_unlock_def rtos_port_enter_critical_def rtos_scheduler_current_task_def owner_of_def running_def e)
qed

lemma unlock_minv:
  assumes "minv s C" "running s t" "mutex_live C n"
  shows "\<exists>r s' C'. artos_mutex_unlock (Some n) s = Ret (r, s') \<and> minv s' C' \<and> same_live C C' \<and> keeps_tasks {MutexLockL n} s s' \<and> same_objects s s' \<and>
           (\<forall>k. owner_of s' k \<noteq> owner_of s k \<longrightarrow> k = n \<and> owner_of s n = cur_task s)"
proof (cases "owner_of s n = Some t")
  case True
  have c: "cur_task s = Some t" using assms(2) by (simp add: running_def)
  obtain y s1 C' where "artos_mutex_unlock (Some n) s = Ret (True, if y then rtos_port_request_context_switch s1 else s1)"
      "minv s1 C'" "same_live C C'" "keeps_tasks {MutexLockL n} s s1" "same_objects s s1" "\<forall>k. k \<noteq> n \<longrightarrow> owner_of s1 k = owner_of s k"
  proof (cases "lockers C n")
    case Nil
    show ?thesis
    proof (rule exE[OF unlock_free[OF assms True Nil]], erule exE)
      fix s1 C' let ?y = "prio_after (tcbs s t) \<noteq> effective_priority (tcbs s t)"
      assume *: "artos_mutex_unlock (Some n) s = Ret (True, if ?y then rtos_port_request_context_switch s1 else s1) \<and> minv s1 C' \<and>
           owner_of s1 = (owner_of s)(n := None) \<and> lockers C' n = [] \<and> primask s1 = primask s \<and> pendsv s1 = pendsv s \<and>
           tcbs s1 = (tcbs s)(t := (tcbs s t)\<lparr>mutexes_held := mutexes_held (tcbs s t) - 1, effective_priority := prio_after (tcbs s t)\<rparr>) \<and>
           same_live C C' \<and> keeps_tasks {MutexLockL n} s s1 \<and> same_objects s s1"
      show thesis by (rule that[of ?y s1 C']) (simp_all add: *)
    qed
  next
    case (Cons w ws)
    show ?thesis
    proof (rule exE[OF unlock_hand_over[OF assms True Cons]], erule exE)
      fix s1 C' let ?y = "prio_after (tcbs s t) < effective_priority (tcbs s w)"
      assume *: "artos_mutex_unlock (Some n) s = Ret (True, if ?y then rtos_port_request_context_switch s1 else s1) \<and> minv s1 C' \<and>
           handed_over n t w s s1 \<and> lockers C' n = ws \<and> primask s1 = primask s \<and> pendsv s1 = pendsv s \<and>
           effective_priority (tcbs s1 t) = prio_after (tcbs s t) \<and> wait_reason (tcbs s1 w) = WAIT_SIGNALED \<and>
           cont (lists s1) (StateItem w) = Some (ReadyL (unat (effective_priority (tcbs s w)))) \<and> cont (lists s1) (EventItem w) = None \<and>
           same_live C C' \<and> keeps_tasks {MutexLockL n} s s1 \<and> same_objects s s1"
      show thesis by (rule that[of ?y s1 C']) (use * in \<open>simp_all add: handed_over_def\<close>)
    qed
  qed
  then show ?thesis using True c
    by (intro exI[of _ True] exI[of _ "if y then rtos_port_request_context_switch s1 else s1"] exI[of _ C']) auto
qed (use unlock_refused[OF assms(2)] assms(1) same_live_refl keeps_tasks_port(1) same_objects_simps(1) in blast)

text \<open>
  \<^bold>\<open>C15.\<close> \<open>artos_mutex_unlock\<close>, called by the running task: only the owner may unlock; for anyone else it returns false
  with nothing changed. The owner's count goes down, and with its last mutex it falls back to its base
  priority. With nobody waiting the mutex is free, and a switch is requested if the priority dropped; otherwise the first
  waiter, one of the highest priority, is made ready as the new owner, counted, and a switch is requested
  if it beats the priority the caller is left with. The invariant holds afterwards.
\<close>

theorem mutex_unlock_correct:
  assumes "minv s C" "running s t" "mutex_live C n"
  shows "if owner_of s n \<noteq> Some t then artos_mutex_unlock (Some n) s = Ret (False, s)
         else \<exists>s' C'. artos_mutex_unlock (Some n) s = Ret (True, s') \<and> minv s' C' \<and> primask s' = primask s \<and>
           effective_priority (tcbs s' t) = prio_after (tcbs s t) \<and> mutexes_held (tcbs s' t) = mutexes_held (tcbs s t) - 1 \<and>
           (case lockers C n of
              [] \<Rightarrow> owner_of s' = (owner_of s)(n := None) \<and> lockers C' n = [] \<and>
                pendsv s' = (pendsv s \<or> prio_after (tcbs s t) \<noteq> effective_priority (tcbs s t))
            | w # ws \<Rightarrow> owner_of s' = (owner_of s)(n := Some w) \<and> lockers C' n = ws \<and>
                mutexes_held (tcbs s' w) = mutexes_held (tcbs s w) + 1 \<and> wait_reason (tcbs s' w) = WAIT_SIGNALED \<and>
                cont (lists s') (StateItem w) = Some (ReadyL (unat (effective_priority (tcbs s w)))) \<and>
                (\<forall>u \<in> set ws. effective_priority (tcbs s u) \<le> effective_priority (tcbs s w)) \<and>
                pendsv s' = (pendsv s \<or> prio_after (tcbs s t) < effective_priority (tcbs s w)))"
proof (cases "owner_of s n = Some t")
  case False
  then show ?thesis using unlock_refused[OF assms(2)] by simp
next
  case True
  let ?p = "prio_after (tcbs s t)"
  show ?thesis
  proof (cases "lockers C n")
    case Nil
    obtain s1 C' where "artos_mutex_unlock (Some n) s =
          Ret (True, if ?p \<noteq> effective_priority (tcbs s t) then rtos_port_request_context_switch s1 else s1)" "minv s1 C'"
        "owner_of s1 = (owner_of s)(n := None)" "lockers C' n = []" "primask s1 = primask s" "pendsv s1 = pendsv s"
        "tcbs s1 = (tcbs s)(t := (tcbs s t)\<lparr>mutexes_held := mutexes_held (tcbs s t) - 1, effective_priority := ?p\<rparr>)"
      using unlock_free[OF assms True Nil] by blast
    then show ?thesis using True Nil
      by (simp only: True simp_thms if_False not_True_eq_False)
        (intro exI[of _ "if ?p \<noteq> effective_priority (tcbs s t) then rtos_port_request_context_switch s1 else s1"] exI[of _ C'],
          simp add: fun_eq_iff)
  next
    case (Cons w ws)
    obtain s1 C' where s1: "artos_mutex_unlock (Some n) s =
          Ret (True, if ?p < effective_priority (tcbs s w) then rtos_port_request_context_switch s1 else s1)" "minv s1 C'"
        "handed_over n t w s s1" "lockers C' n = ws" "primask s1 = primask s" "pendsv s1 = pendsv s"
        "effective_priority (tcbs s1 t) = ?p" "wait_reason (tcbs s1 w) = WAIT_SIGNALED"
        "cont (lists s1) (StateItem w) = Some (ReadyL (unat (effective_priority (tcbs s w))))"
      using unlock_hand_over[OF assms True Cons] by blast
    have "w \<noteq> t" using minvD(2)[OF assms(1,3)] True Cons by (auto simp: mutex_ok_def)
    then show ?thesis using s1 True Cons lockers_sorted[OF assms(1,3) Cons]
      by (simp only: True simp_thms if_False not_True_eq_False)
        (intro exI[of _ "if ?p < effective_priority (tcbs s w) then rtos_port_request_context_switch s1 else s1"] exI[of _ C'],
          simp add: handed_over_def fun_eq_iff)
  qed
qed

text \<open>
  A lost preemption: when the owner gives up an inherited priority with its last mutex and hands the mutex to a waiter
  that does not beat its base priority, no context switch is requested, although its priority dropped and
  another task may be ready above it. (With nobody waiting the same drop does request one.)
\<close>

lemma mutex_unlock_misses_preemption:
  assumes "minv s C" "running s t" "mutex_live C n" "owner_of s n = Some t" "mutexes_held (tcbs s t) = 1"
    and "lockers C n = w # ws" "effective_priority (tcbs s w) \<le> priority (tcbs s t)" "\<not> pendsv s"
  shows "\<exists>s'. artos_mutex_unlock (Some n) s = Ret (True, s') \<and> \<not> pendsv s' \<and> effective_priority (tcbs s' t) = priority (tcbs s t)"
proof -
  have "prio_after (tcbs s t) = priority (tcbs s t)" using assms(5) by (simp add: prio_after_def)
  then show ?thesis using unlock_hand_over[OF assms(1-4,6)] assms(7,8) by (auto simp: not_less)
qed

end
