(* ===== verification/Diagnostics.thy ===== *)
theory Diagnostics
  imports Tasks_Sched
begin

unbundle bit_operations_syntax

text \<open>
  Failure records, \<open>src/rtos/diagnostics.h\<close> and \<open>src/rtos/diagnostics.c\<close>: what is written to
  \<open>rtos_failure_info\<close> when the machine stops. In the other theories a failure is the outcome
  \<open>Halt\<close> with its cause and the state at the failing call; \<open>failure_report\<close> completes it.
\<close>

record rtos_failure_info =
  fi_reason :: artos_failure_reason
  fi_file :: "src_file option"
  fi_line :: u32
  fi_tick :: u32
  fi_task_entry :: u32
  fi_base_priority :: u8
  fi_effective_priority :: u8
  fi_stack_pointer :: u32
  fi_stack_low :: u32
  fi_stack_high :: u32

text \<open>\<open>rtos_port_halt\<close> masks interrupts and waits for ever; this is the state it waits in.\<close>

definition rtos_port_halt :: "'z port_scheme \<Rightarrow> 'z port_scheme" where
  "rtos_port_halt s = s\<lparr>primask := 1\<rparr>"

definition rtos_record_failure ::
    "artos_failure_reason \<Rightarrow> src_file option \<Rightarrow> u32 \<Rightarrow> 'z kernel_scheme \<Rightarrow> rtos_failure_info \<times> 'z kernel_scheme" where
  "rtos_record_failure reason file line s =
     (let (_, s) = rtos_port_enter_critical s;
          task = rtos_scheduler_current_task s;
          info = (case task of
              Some t \<Rightarrow>
                \<lparr>fi_reason = reason, fi_file = file, fi_line = line, fi_tick = rtos_current_tick s,
                 fi_task_entry = tcb_entry (tcbs s t), fi_base_priority = priority (tcbs s t),
                 fi_effective_priority = effective_priority (tcbs s t),
                 fi_stack_pointer = stack_pointer (tcbs s t), fi_stack_low = stack_buffer (tcbs s t),
                 fi_stack_high = stack_buffer (tcbs s t) + 4 * stack_word_count (tcbs s t)\<rparr>
            | None \<Rightarrow>
                \<lparr>fi_reason = reason, fi_file = file, fi_line = line, fi_tick = rtos_current_tick s,
                 fi_task_entry = 0, fi_base_priority = 0, fi_effective_priority = 0,
                 fi_stack_pointer = 0, fi_stack_low = 0, fi_stack_high = 0\<rparr>)
      in (info, rtos_port_halt s))"

definition rtos_assert_failed :: "src_file \<Rightarrow> u32 \<Rightarrow> 'z kernel_scheme \<Rightarrow> rtos_failure_info \<times> 'z kernel_scheme" where
  "rtos_assert_failed file line = rtos_record_failure ARTOS_FAILURE_ASSERT (Some file) line"

text \<open>The record a halted kernel function leaves behind, if it halted through a failure.\<close>

definition failure_report :: "('a, 'z) kres \<Rightarrow> (rtos_failure_info \<times> 'z kernel_scheme) option" where
  "failure_report r =
     (case r of Halt (Failure reason file line) s \<Rightarrow> Some (rtos_record_failure reason file (of_nat line) s)
      | _ \<Rightarrow> None)"

lemma failure_report_simps [simp]:
  "failure_report (Ret a) = None" "failure_report (Halt NullDeref s) = None" "failure_report Loops = None"
  "failure_report (Halt (Failure reason file line) s) = Some (rtos_record_failure reason file (of_nat line) s)"
  by (simp_all add: failure_report_def)


end
