(* ===== verification/Context_Switch.thy ===== *)
theory Context_Switch
  imports Diagnostics Tasks_Create
begin

unbundle bit_operations_syntax

text \<open>
  The exception handlers of the port, written in assembly in \<open>src/rtos/ports/cortex-m4f/rtos_port.c\<close>: PendSV
  saves the context of the running task, calls the scheduler and restores the next one; SVC enters
  the first task; SysTick calls the tick handler; HardFault records the fault. Entry and return of an exception,
  which stack and unstack the caller-saved registers, are hardware.
\<close>

section \<open>Registers\<close>

text \<open>
  The registers the handlers touch: \<open>r0\<close> to \<open>r12\<close>, \<open>lr\<close>, the main stack pointer and the floating-point
  registers \<open>s0\<close> to \<open>s31\<close>. The process stack pointer is the field \<open>psp\<close> of the port.
\<close>

record cpu =
  reg :: "nat \<Rightarrow> u32"
  lr :: u32
  msp :: u32
  sreg :: "nat \<Rightarrow> u32"

text \<open>
  \<open>stmdb\<close> and \<open>vstmdb\<close> with write-back: the first register of the list ends up at the lowest address. \<open>ldmia\<close>
  and \<open>vldmia\<close> read the list back from there.
\<close>

definition stmdb :: "u32 \<Rightarrow> u32 list \<Rightarrow> 'z port_scheme \<Rightarrow> u32 \<times> 'z port_scheme" where
  "stmdb base vs s = fold push_word (rev vs) (base, s)"

definition ldmia :: "u32 \<Rightarrow> nat \<Rightarrow> 'z port_scheme \<Rightarrow> u32 list \<times> u32" where
  "ldmia base n s = (map (\<lambda>i. frame_word base i s) [0..<n], base + 4 * of_nat n)"

definition regs :: "nat list" where "regs = [4, 5, 6, 7, 8, 9, 10, 11]"
definition sregs :: "nat list" where "sregs = [16, 17, 18, 19, 20, 21, 22, 23, 24, 25, 26, 27, 28, 29, 30, 31]"

definition set_regs :: "(nat \<times> u32) list \<Rightarrow> (nat \<Rightarrow> u32) \<Rightarrow> nat \<Rightarrow> u32" where
  "set_regs xs f = fold (\<lambda>(i, v) g. g(i := v)) xs f"

section \<open>Handlers\<close>

text \<open>Up to the call of the scheduler: the context goes to the task's stack.\<close>

definition pendsv_save :: "cpu \<Rightarrow> 'z port_scheme \<Rightarrow> u32 \<times> 'z port_scheme" where
  "pendsv_save c s =
     (let r0 = psp s;
          (r0, s) = (if lr c AND 0x10 = 0 then stmdb r0 (map (sreg c) sregs) s else (r0, s))
      in stmdb r0 (map (reg c) regs @ [lr c]) s)"

text \<open>After it: the context of the selected task comes from its stack; \<open>bx lr\<close> leaves the handler.\<close>

definition pendsv_restore :: "u32 \<Rightarrow> cpu \<Rightarrow> 'z port_scheme \<Rightarrow> cpu \<times> 'z port_scheme" where
  "pendsv_restore r0 c s =
     (let (vs, r0) = ldmia r0 9 s;
          c = c\<lparr>reg := set_regs (zip regs (take 8 vs)) (reg c), lr := vs ! 8\<rparr>;
          (c, r0) = (if lr c AND 0x10 = 0
                     then let (ws, r0) = ldmia r0 16 s in (c\<lparr>sreg := set_regs (zip sregs ws) (sreg c)\<rparr>, r0)
                     else (c, r0))
      in (c, s\<lparr>psp := r0\<rparr>))"

text \<open>
  The call follows the procedure call standard: \<open>r4\<close> to \<open>r11\<close> and \<open>s16\<close> to \<open>s31\<close> are kept. What it leaves in the
  other registers is the argument \<open>scratch\<close>.
\<close>

definition PendSV_Handler ::
    "(u32 \<Rightarrow> u8) \<Rightarrow> (cpu \<Rightarrow> cpu) \<Rightarrow> cpu \<Rightarrow> 'z kernel_scheme \<Rightarrow> (cpu \<times> 'z kernel_scheme, 'z) kres" where
  "PendSV_Handler clz scratch c s =
     (let (sp, s) = pendsv_save c s in
      res_bind (rtos_scheduler_switch_context clz sp s) (\<lambda>(r0, s).
      Ret (pendsv_restore r0 ((scratch c)\<lparr>reg := set_regs (map (\<lambda>i. (i, reg c i)) regs) (reg (scratch c)),
        sreg := set_regs (map (\<lambda>i. (i, sreg c i)) sregs) (sreg (scratch c))\<rparr>) s)))"

definition SVC_Handler :: "cpu \<Rightarrow> 'z port_scheme \<Rightarrow> cpu \<times> 'z port_scheme" where
  "SVC_Handler c s =
     (let (vs, r0) = ldmia (psp s) 9 s
      in (c\<lparr>reg := set_regs (zip regs (take 8 vs)) (reg c), lr := vs ! 8\<rparr>, s\<lparr>psp := r0\<rparr>))"

definition SysTick_Handler :: "'z kproc" where
  "SysTick_Handler = rtos_tick_handler"

definition HardFault_Handler :: "cpu \<Rightarrow> 'z port_scheme \<Rightarrow> ('a, 'z port_scheme) res" where
  "HardFault_Handler c s =
     (let r0 = (if lr c AND 0x4 = 0 then msp c else psp s);
          r1 = lr c
      in rtos_port_hard_fault_c r0 r1 s)"

section \<open>Saving and restoring\<close>

lemma stmdb_frame:
  assumes "length vs < 2 ^ 30" "stmdb base vs s = (sp, s')"
  shows "sp = base - 4 * of_nat (length vs)" "\<exists>f. s' = s\<lparr>stack_mem := f\<rparr>"
    "map (\<lambda>i. frame_word sp i s') [0..<length vs] = vs"
    "\<forall>a. (\<forall>i < length vs. a \<noteq> sp + 4 * of_nat i) \<longrightarrow> stack_mem s' a = stack_mem s a"
  using fold_push_word[of "rev vs" base s sp s'] fold_push_word_frame[of "rev vs" base s sp s'] assms
  by (simp_all add: stmdb_def)

lemma set_regs_map: "set_regs (map (\<lambda>i. (i, f i)) xs) g i = (if i \<in> set xs then f i else g i)"
  by (induction xs arbitrary: g) (auto simp: set_regs_def)

lemma zip_map_self: "zip xs (map f xs) = map (\<lambda>i. (i, f i)) xs"
  by (induction xs) auto

text \<open>The number of words in a saved context, with and without floating point.\<close>

definition context_words :: "u32 \<Rightarrow> nat" where
  "context_words l = (if l AND 0x10 = 0 then 25 else 9)"

lemma stmdb_append: "stmdb base (vs @ ws) s = (case stmdb base ws s of (sp, s1) \<Rightarrow> stmdb sp vs s1)"
  by (simp add: stmdb_def split_beta)

text \<open>The words of a saved context, from the saved stack pointer upwards.\<close>

definition saved_context :: "cpu \<Rightarrow> u32 list" where
  "saved_context c = map (reg c) regs @ [lr c] @ (if lr c AND 0x10 = 0 then map (sreg c) sregs else [])"

lemma saved_context_length: "length (saved_context c) = context_words (lr c)"
  by (simp add: saved_context_def context_words_def regs_def sregs_def)

lemma pendsv_save_eq: "pendsv_save c s = stmdb (psp s) (saved_context c) s"
  using stmdb_append[of "psp s" "map (reg c) regs @ [lr c]" "map (sreg c) sregs" s]
  by (simp add: pendsv_save_def saved_context_def)

lemma save_frame:
  assumes "pendsv_save c s = (sp, s')"
  shows "sp = psp s - 4 * of_nat (context_words (lr c))" "\<exists>f. s' = s\<lparr>stack_mem := f\<rparr>"
    "map (\<lambda>i. frame_word sp i s') [0..<context_words (lr c)] = saved_context c"
    "\<forall>a. (\<forall>i < context_words (lr c). a \<noteq> sp + 4 * of_nat i) \<longrightarrow> stack_mem s' a = stack_mem s a"
proof -
  have "length (saved_context c) < 2 ^ 30" by (simp add: saved_context_length context_words_def)
  from stmdb_frame[OF this assms[unfolded pendsv_save_eq]]
  show "sp = psp s - 4 * of_nat (context_words (lr c))" "\<exists>f. s' = s\<lparr>stack_mem := f\<rparr>"
    "map (\<lambda>i. frame_word sp i s') [0..<context_words (lr c)] = saved_context c"
    "\<forall>a. (\<forall>i < context_words (lr c). a \<noteq> sp + 4 * of_nat i) \<longrightarrow> stack_mem s' a = stack_mem s a"
    by (simp_all only: saved_context_length)
qed

text \<open>Two register files agree on what a context switch saves.\<close>

definition same_context :: "cpu \<Rightarrow> cpu \<Rightarrow> bool" where
  "same_context c c' \<longleftrightarrow> (\<forall>i \<in> set regs. reg c' i = reg c i) \<and> lr c' = lr c \<and>
     (lr c AND 0x10 = 0 \<longrightarrow> (\<forall>i \<in> set sregs. sreg c' i = sreg c i))"

lemma restore_context:
  assumes f: "map (\<lambda>i. frame_word sp i s) [0..<context_words (lr c)] = saved_context c" and r: "pendsv_restore sp d s = (d', s')"
  shows "same_context c d'" "s' = s\<lparr>psp := sp + 4 * of_nat (context_words (lr c))\<rparr>"
proof -
  have n: "9 \<le> context_words (lr c)" by (simp add: context_words_def)
  have nine: "map (\<lambda>i. frame_word sp i s) [0..<9] = map (reg c) regs @ [lr c]"
  proof -
    have "map (\<lambda>i. frame_word sp i s) [0..<9] = take 9 (map (\<lambda>i. frame_word sp i s) [0..<context_words (lr c)])"
      using n by (simp add: take_map)
    then show ?thesis unfolding f by (simp add: saved_context_def regs_def)
  qed
  have fp: "map (\<lambda>i. frame_word (sp + 36) i s) [0..<16] = map (sreg c) sregs" if z: "lr c AND 0x10 = 0"
  proof -
    have "map (\<lambda>i. frame_word (sp + 36) i s) [0..<16] = drop 9 (map (\<lambda>i. frame_word sp i s) [0..<25])"
      by (rule nth_equalityI) (simp_all add: frame_word_def algebra_simps)
    also have "\<dots> = map (sreg c) sregs" using f z by (simp add: context_words_def saved_context_def regs_def)
    finally show ?thesis .
  qed
  let ?d = "d\<lparr>reg := set_regs (map (\<lambda>i. (i, reg c i)) regs) (reg d), lr := lr c\<rparr>"
  have l: "length (map (reg c) regs) = 8" by (simp add: regs_def)
  have lr8: "length regs = 8" by (simp add: regs_def)
  have z: "zip regs (take 8 (map (reg c) regs)) = map (\<lambda>i. (i, reg c i)) regs"
    using l by (simp add: zip_map_self)
  have e: "(map (reg c) regs @ [lr c]) ! 8 = lr c" using l by (simp add: nth_append)
  have d': "(d', s') = (if lr c AND 0x10 = 0 then (?d\<lparr>sreg := set_regs (map (\<lambda>i. (i, sreg c i)) sregs) (sreg d)\<rparr>, s\<lparr>psp := sp + 100\<rparr>)
      else (?d, s\<lparr>psp := sp + 36\<rparr>))"
    using r fp by (auto simp: pendsv_restore_def ldmia_def nine z e lr8 zip_map_self Let_def add.commute split: if_splits)
  then show "same_context c d'" "s' = s\<lparr>psp := sp + 4 * of_nat (context_words (lr c))\<rparr>"
    by (auto simp: same_context_def set_regs_map context_words_def split: if_splits)
qed

section \<open>Switching and starting tasks\<close>

text \<open>The context \<open>e\<close> is parked on the stack of task \<open>u\<close>, at its saved stack pointer.\<close>

definition parked :: "cpu \<Rightarrow> tcb_ref \<Rightarrow> 'z kernel_scheme \<Rightarrow> bool" where
  "parked e u s \<longleftrightarrow>
     map (\<lambda>i. frame_word (stack_pointer (tcbs s u)) i s) [0..<context_words (lr e)] = saved_context e"

definition apart :: "u32 \<Rightarrow> nat \<Rightarrow> u32 \<Rightarrow> nat \<Rightarrow> bool" where
  "apart a m b n \<longleftrightarrow> (\<forall>i < m. \<forall>j < n. a + 4 * of_nat i \<noteq> b + 4 * of_nat j)"

lemma parked_cong:
  assumes "stack_pointer (tcbs s' u) = stack_pointer (tcbs s u)"
    and "\<And>i. i < context_words (lr e) \<Longrightarrow>
           stack_mem s' (stack_pointer (tcbs s u) + 4 * of_nat i) = stack_mem s (stack_pointer (tcbs s u) + 4 * of_nat i)"
  shows "parked e u s' \<longleftrightarrow> parked e u s"
proof -
  have "map (\<lambda>i. frame_word (stack_pointer (tcbs s' u)) i s') [0..<context_words (lr e)] =
        map (\<lambda>i. frame_word (stack_pointer (tcbs s u)) i s) [0..<context_words (lr e)]"
    unfolding assms(1) using assms(2) by (simp add: frame_word_def)
  then show ?thesis by (simp only: parked_def)
qed

lemma pendsv_restore_port: "\<exists>p. snd (pendsv_restore r0 c s) = s\<lparr>psp := p\<rparr>"
  by (auto simp: pendsv_restore_def ldmia_def Let_def)

text \<open>
  \<^bold>\<open>C11.\<close> PendSV switches tasks without losing a register. If the stack of the running task is intact
  after its context was pushed, the handler returns; the context of the outgoing task, including the
  floating-point registers when it uses them, is parked on its stack; a context parked on another
  stack that the pushed words do not overlap stays parked; and if the task scheduled next has a
  parked context, exactly that context is in the registers and PSP points above it, at
  its hardware frame. The scheduler invariant is kept.
\<close>

theorem pendsv_switch_correct:
  assumes inv: "kinv s C" "tick_ok s C" and clz: "clz_spec clz" and t: "cur_task s = Some t"
    and sv: "pendsv_save c s = (sp, s0)" and sp: "sp \<noteq> 0" "artos_task_stack_valid (tcbs s0 t) sp s0"
  shows "\<exists>n c' s' C'. PendSV_Handler clz scratch c s = Ret (c', s') \<and> kinv s' C' \<and> tick_ok s' C' \<and>
           cur_task s' = Some n \<and> scheduled (requeued t s C) n C' \<and>
           parked c t s' \<and> stack_pointer (tcbs s' t) = psp s - 4 * of_nat (context_words (lr c)) \<and>
           (\<forall>u e. u \<noteq> t \<longrightarrow> apart (stack_pointer (tcbs s u)) (context_words (lr e)) sp (context_words (lr c)) \<longrightarrow>
              parked e u s \<longrightarrow> parked e u s') \<and>
           (\<forall>e. parked e n s' \<longrightarrow> same_context e c' \<and>
              psp s' = stack_pointer (tcbs s' n) + 4 * of_nat (context_words (lr e))) \<and>
           primask s' = primask s"
proof -
  note f = save_frame[OF sv]
  obtain m where s0: "s0 = s\<lparr>stack_mem := m\<rparr>" using f(2) by blast
  have k: "kinv s0 C" "tick_ok s0 C" "cur_task s0 = Some t" using inv t by (simp_all add: s0)
  have rq: "requeued t s0 C = requeued t s C" by (auto simp: s0 requeued_def)
  obtain n s1 C' where n: "rtos_scheduler_switch_context clz sp s0 = Ret (stack_pointer (tcbs s1 n), s1)"
      "kinv s1 C'" "tick_ok s1 C'" "cur_task s1 = Some n" "scheduled (requeued t s C) n C'"
      "tcbs s1 = (tcbs s0)(t := (tcbs s0 t)\<lparr>stack_pointer := sp\<rparr>)" "stack_mem s1 = stack_mem s0" "primask s1 = primask s0"
    using switch_context_runs[OF k(1,2) clz k(3) sp] unfolding rq by auto
  define d where "d = (scratch c)\<lparr>reg := set_regs (map (\<lambda>i. (i, reg c i)) regs) (reg (scratch c)),
        sreg := set_regs (map (\<lambda>i. (i, sreg c i)) sregs) (sreg (scratch c))\<rparr>"
  obtain c' s' where r: "pendsv_restore (stack_pointer (tcbs s1 n)) d s1 = (c', s')" by fastforce
  obtain p where p: "s' = s1\<lparr>psp := p\<rparr>" using pendsv_restore_port[of "stack_pointer (tcbs s1 n)" d s1] r by auto
  have run: "PendSV_Handler clz scratch c s = Ret (c', s')"
    using n(1) r by (simp add: PendSV_Handler_def sv d_def)
  have park: "parked e u s' \<longleftrightarrow> parked e u s1" for e u by (rule parked_cong) (simp_all add: p)
  have out: "parked c t s1" using f(3) by (simp add: parked_def n(6) frame_word_def n(7))
  have other: "parked e u s1" if "u \<noteq> t" "parked e u s"
      "apart (stack_pointer (tcbs s u)) (context_words (lr e)) sp (context_words (lr c))" for u e
  proof -
    have "parked e u s1 \<longleftrightarrow> parked e u s"
      using f(4) that(1,3) by (intro parked_cong) (auto simp: n(6,7) s0 apart_def)
    then show ?thesis using that(2) by simp
  qed
  have inn: "same_context e c' \<and> psp s' = stack_pointer (tcbs s' n) + 4 * of_nat (context_words (lr e))" if "parked e n s1" for e
    using restore_context[OF that[unfolded parked_def] r] by simp
  show ?thesis
  proof (intro exI conjI)
    show "PendSV_Handler clz scratch c s = Ret (c', s')" by (rule run)
    show "kinv s' C'" "tick_ok s' C'" "cur_task s' = Some n" "scheduled (requeued t s C) n C'" "primask s' = primask s"
      using n by (simp_all add: p s0)
    show "parked c t s'" "\<forall>u e. u \<noteq> t \<longrightarrow> apart (stack_pointer (tcbs s u)) (context_words (lr e)) sp (context_words (lr c)) \<longrightarrow>
              parked e u s \<longrightarrow> parked e u s'" using out other by (auto simp: park)
    show "stack_pointer (tcbs s' t) = psp s - 4 * of_nat (context_words (lr c))" using f(1) by (simp add: p n(6))
    show "\<forall>e. parked e n s' \<longrightarrow> same_context e c' \<and> psp s' = stack_pointer (tcbs s' n) + 4 * of_nat (context_words (lr e))"
      using inn unfolding park by blast
  qed
qed

text \<open>
  \<^bold>\<open>C28.\<close> SVC enters the first task on the frame its creation left: with the saved stack pointer in PSP,
  \<open>r4\<close> to \<open>r11\<close> are zero, \<open>lr\<close> is the EXC_RETURN value for thread mode on the process stack, and PSP points
  to the hardware frame whose words are the argument, four zeros, the return trap, the entry point
  without its Thumb bit, and xPSR. This is also how PendSV enters a new task.
\<close>

theorem svc_starts_task:
  assumes i: "rtos_port_initialize_stack stk entry argument s = (sp, s0)"
    and m: "\<forall>i < 17. frame_word sp i s' = frame_word sp i s0" and p: "psp s' = sp"
  shows "\<exists>c'. SVC_Handler c s' = (c', s'\<lparr>psp := stk - 32\<rparr>) \<and> pendsv_restore sp c s' = (c', s'\<lparr>psp := stk - 32\<rparr>) \<and>
           (\<forall>r \<in> set regs. reg c' r = 0) \<and> (\<forall>r. r \<notin> set regs \<longrightarrow> reg c' r = reg c r) \<and> sreg c' = sreg c \<and>
           lr c' = ARTOS_PORT_INITIAL_EXC_RETURN \<and>
           map (\<lambda>i. frame_word (stk - 32) i s') [0..<8] =
             [argument, 0, 0, 0, 0, task_return_trap_addr s, entry AND NOT 1, ARTOS_PORT_INITIAL_XPSR]"
proof -
  obtain t where t: "sp = stk - 68" "s0 = t"
      "map (\<lambda>i. frame_word sp i t) [0..<17] = replicate 8 0 @ [ARTOS_PORT_INITIAL_EXC_RETURN] @
       [argument, 0, 0, 0, 0, task_return_trap_addr s, entry AND NOT 1, ARTOS_PORT_INITIAL_XPSR]" (is "_ = ?ws")
    using initial_frame[of stk entry argument s] i by auto
  have w: "map (\<lambda>i. frame_word sp i s') [0..<17] = ?ws" unfolding t(3)[symmetric] using m t(2) by simp
  have nine: "map (\<lambda>i. frame_word sp i s') [0..<9] = replicate 8 0 @ [ARTOS_PORT_INITIAL_EXC_RETURN]"
    using arg_cong[OF w, of "take 9"] by (simp add: take_map)
  have "map (\<lambda>i. frame_word (stk - 32) i s') [0..<8] = drop 9 (map (\<lambda>i. frame_word sp i s') [0..<17])"
    by (rule nth_equalityI) (simp_all add: frame_word_def t(1) algebra_simps)
  also have "\<dots> = drop 9 ?ws" by (simp only: w)
  finally have hw: "map (\<lambda>i. frame_word (stk - 32) i s') [0..<8] =
             [argument, 0, 0, 0, 0, task_return_trap_addr s, entry AND NOT 1, ARTOS_PORT_INITIAL_XPSR]" by simp
  let ?c = "c\<lparr>reg := set_regs (map (\<lambda>r. (r, 0)) regs) (reg c), lr := ARTOS_PORT_INITIAL_EXC_RETURN\<rparr>"
  have z: "zip regs (replicate 8 (0 :: u32)) = map (\<lambda>r. (r, 0)) regs" by (simp add: regs_def numeral_eq_Suc)
  have "ARTOS_PORT_INITIAL_EXC_RETURN AND 0x10 \<noteq> 0" by (simp add: ARTOS_PORT_INITIAL_EXC_RETURN_def)
  moreover have "ldmia sp 9 s' = (replicate 8 0 @ [ARTOS_PORT_INITIAL_EXC_RETURN], stk - 32)"
    using nine by (simp add: ldmia_def t(1))
  ultimately have "SVC_Handler c s' = (?c, s'\<lparr>psp := stk - 32\<rparr>)" "pendsv_restore sp c s' = (?c, s'\<lparr>psp := stk - 32\<rparr>)"
    using z by (simp_all add: SVC_Handler_def pendsv_restore_def p nth_append)
  then show ?thesis using hw by (intro exI[of _ ?c]) (simp add: set_regs_map)
qed


end
