(* ===== verification/Calls.thy ===== *)
theory Calls
  imports Mutex_Correct Tasks_Create Context_Switch
begin

text \<open>
  The calls of the application and the interrupt handlers as steps of the whole kernel: each returns, keeps the invariant of
  tasks, semaphores, queues and mutexes together, destroys no object and loses no task. The blocking queue calls of queue.c are
  cut at the context switch, and shown to be these steps.
\<close>

unbundle bit_operations_syntax

section \<open>What keeps the invariant\<close>

text \<open>A created task is running, or in one of the ready, delayed and suspended lists.\<close>

definition placed :: "'z kernel_scheme \<Rightarrow> bool" where
  "placed s \<longleftrightarrow> (\<forall>u. user_task s u \<and> cont (lists s) (StateItem u) = None \<longrightarrow> cur_task s = Some u)"

text \<open>
  Control blocks of semaphores, shapes of queues and owners of mutexes that are not among the objects \<open>X\<close> stay as they are, and so does the
  rest of the program.
\<close>

definition touches :: "list_ref set \<Rightarrow> 'z mutex_kernel_scheme \<Rightarrow> 'z mutex_kernel_scheme \<Rightarrow> bool" where
  "touches X s s' \<longleftrightarrow> mutex_kernel.more s' = mutex_kernel.more s \<and> (\<forall>k. SemWaitL k \<notin> X \<longrightarrow> sems s' k = sems s k) \<and>
     (\<forall>k. QueueReadL k \<notin> X \<longrightarrow> q_item_size (queues s' k) = q_item_size (queues s k) \<and> queue_region (queues s' k) = queue_region (queues s k)) \<and>
     (\<forall>k. MutexLockL k \<notin> X \<longrightarrow> owner_of s' k = owner_of s k)"

lemma touches_refl [simp]: "touches X s s"
  by (simp add: touches_def)

lemma touches_trans: "touches X s s1 \<Longrightarrow> touches X s1 s2 \<Longrightarrow> touches X s s2"
  unfolding touches_def by metis

lemma touches_objects: "same_objects s s' \<Longrightarrow> \<forall>k. owner_of s' k \<noteq> owner_of s k \<longrightarrow> MutexLockL k \<in> X \<Longrightarrow> touches X s s'"
  unfolding touches_def same_objects_def by metis

lemma touches_more: "kernel.more s' = kernel.more s \<Longrightarrow> touches X s s'"
  using touches_objects[OF more_objects, of s' s X] owner_of_more[of s' s] by blast

text \<open>\<open>Y\<close> are the wait lists from which tasks can be released.\<close>

definition serves ::
    "list_ref set \<Rightarrow> list_ref set \<Rightarrow> 'z mutex_kernel_scheme \<Rightarrow> list_view \<Rightarrow> 'z mutex_kernel_scheme \<Rightarrow> list_view \<Rightarrow> bool" where
  "serves X Y s C s' C' \<longleftrightarrow> minv s' C' \<and> same_live C C' \<and> (placed s \<longrightarrow> placed s') \<and> touches X s s' \<and> undisturbed Y s s'"

lemma keeps_placed: "keeps_tasks Y s s' \<Longrightarrow> placed s \<Longrightarrow> placed s'"
  by (simp add: keeps_tasks_def placed_def)

lemma servesI: "minv s' C' \<Longrightarrow> same_live C C' \<Longrightarrow> keeps_tasks Y s s' \<Longrightarrow> touches X s s' \<Longrightarrow> serves X Y s C s' C'"
  using keeps_placed[of Y s s'] by (simp add: serves_def keeps_tasks_def)

lemma undisturbed_same: "ticks s' = ticks s \<Longrightarrow> tsk_cnt s' = tsk_cnt s \<Longrightarrow> lists s' = lists s \<Longrightarrow> undisturbed Y s s'"
  by (simp add: undisturbed_def user_task_def stays_def)

lemma serves_refl: "minv s C \<Longrightarrow> serves X Y s C s C"
  by (simp add: serves_def undisturbed_same)

text \<open>A call that neither schedules nor changes a priority also keeps the order of the ready tasks.\<close>

definition steady ::
    "list_ref set \<Rightarrow> list_ref set \<Rightarrow> 'z mutex_kernel_scheme \<Rightarrow> list_view \<Rightarrow> 'z mutex_kernel_scheme \<Rightarrow> list_view \<Rightarrow> bool" where
  "steady X Y s C s' C' \<longleftrightarrow> serves X Y s C s' C' \<and> ready_grows C C'"

lemma steadyI: "minv s' C' \<Longrightarrow> same_live C C' \<Longrightarrow> keeps_tasks Y s s' \<Longrightarrow> ready_grows C C' \<Longrightarrow> touches X s s' \<Longrightarrow> steady X Y s C s' C'"
  by (simp add: steady_def servesI)

lemma steady_refl: "minv s C \<Longrightarrow> steady X Y s C s C"
  by (simp add: steady_def serves_refl)

lemma steady_mono: "steady X Y s C s' C' \<Longrightarrow> Y \<subseteq> Z \<Longrightarrow> steady X Z s C s' C'"
  using undisturbed_mono by (auto simp: steady_def serves_def)

lemma minv_of_qinv:
  assumes inv: "minv s C" and q: "qinv s' C'" and o: "\<forall>n. owner_of s' n = owner_of s n"
    and t: "tsk_cnt s' = tsk_cnt s" "\<forall>u. mutexes_held (tcbs s' u) = mutexes_held (tcbs s u)"
    and l: "\<forall>n. C' (MutexLockL n) = C (MutexLockL n)"
  shows "minv s' C'"
proof -
  have lk: "lockers C' n = lockers C n" "mutex_live C' n = mutex_live C n" for n
    using l by (simp_all add: lockers_def waiters_def mutex_live_def)
  have "mutex_ok s' C' n" if "mutex_live C' n" for n
    using minvD(2)[OF inv, of n] that o t by (simp add: mutex_ok_def lk user_task_def)
  moreover have "held_ok s' C' u" if "user_task s' u" for u
    using minvD(3)[OF inv, of u] that o t by (simp add: held_ok_def held_by_def lk user_task_def)
  ultimately show ?thesis using q by (simp add: minv_def)
qed

lemma owners_sem_more: "sem_kernel.more s' = sem_kernel.more s \<Longrightarrow>
    owner_of s' n = owner_of s n \<and> queues s' = queues s \<and> mutex_kernel.more s' = mutex_kernel.more s"
  by (cases s; cases s'; simp add: owner_of_def)

lemma owners_queue_more: "queue_kernel.more s' = queue_kernel.more s \<Longrightarrow>
    owner_of s' n = owner_of s n \<and> mutex_kernel.more s' = mutex_kernel.more s"
  by (cases s; cases s'; simp add: owner_of_def)

lemma steady_sem_frame:
  assumes "minv s C" "sinv s' C'" "sem_frame Y n s C s' C'"
  shows "steady {SemWaitL n} Y s C s' C'"
proof -
  have f: "sem_kernel.more s' = sem_kernel.more s" "tsk_cnt s' = tsk_cnt s" "\<forall>u. mutexes_held (tcbs s' u) = mutexes_held (tcbs s u)"
      "\<And>l. is_wait_list l \<Longrightarrow> (C' l = None \<longleftrightarrow> C l = None) \<and> (l \<noteq> SemWaitL n \<longrightarrow> C' l = C l)"
    using assms(3) by (simp_all add: sem_frame_def)
  have "qinv s' C'" using owners_sem_more[OF f(1)] f(4)
    by (intro qinv_frame[OF minvD(1)[OF assms(1)] assms(2)]) (simp_all add: queue_live_def)
  then have "minv s' C'" using owners_sem_more[OF f(1)] f(2-4) by (intro minv_of_qinv[OF assms(1)]) simp_all
  moreover have "touches {SemWaitL n} s s'" using assms(3) owners_sem_more[OF f(1)] by (simp add: touches_def sem_frame_def)
  ultimately show ?thesis using f(4) assms(3) by (intro steadyI) (simp_all add: same_live_def sem_frame_def)
qed

lemma steady_queue_frame:
  assumes "minv s C" "qinv s' C'" "queue_frame Y l s C s' C'" "\<forall>n. l \<noteq> MutexLockL n"
  shows "steady {} Y s C s' C'"
proof -
  have f: "queue_kernel.more s' = queue_kernel.more s" "tsk_cnt s' = tsk_cnt s" "\<forall>u. mutexes_held (tcbs s' u) = mutexes_held (tcbs s u)"
      "\<And>k. is_wait_list k \<Longrightarrow> (C' k = None \<longleftrightarrow> C k = None) \<and> (k \<noteq> l \<longrightarrow> C' k = C k)"
    using assms(3) by (simp_all add: queue_frame_def)
  have "C' (MutexLockL n) = C (MutexLockL n)" for n using f(4)[of "MutexLockL n"] assms(4)[rule_format, of n] by auto
  then have "minv s' C'" using owners_queue_more[OF f(1)] f(2,3) by (intro minv_of_qinv[OF assms(1,2)]) simp_all
  moreover have "touches {} s s'" using assms(3) owners_queue_more[OF f(1)] by (simp add: touches_def queue_frame_def same_shape_def)
  ultimately show ?thesis using f(4) assms(3) by (intro steadyI) (simp_all add: same_live_def queue_frame_def)
qed

lemma minv_quiet:
  assumes "minv s C" "kinv s' C'" "tick_ok s' C'" "quiet s C s' C'"
  shows "minv s' C'" "same_live C C'" "touches {} s s'"
proof -
  have q: "kernel.more s' = kernel.more s" "tsk_cnt s' = tsk_cnt s" "\<forall>u. mutexes_held (tcbs s' u) = mutexes_held (tcbs s u)"
      "\<And>l. is_wait_list l \<Longrightarrow> C' l = C l"
    using assms(4) by (simp_all add: quiet_def)
  have "waiters_ok s C C'" using q(4) by (simp add: waiters_ok_def waiters_def)
  then show "minv s' C'" by (rule minv_frame[OF assms(1-3) q(1-3)])
  show "same_live C C'" using q(4) by (simp add: same_live_def)
  show "touches {} s s'" by (rule touches_more[OF q(1)])
qed

text \<open>A task waits in a list exactly when its event item is there.\<close>

lemma waiting_iff:
  assumes "kinv s C" "is_wait_list l" "C l \<noteq> None"
  shows "u \<in> set (waiters C l) \<longleftrightarrow> cont (lists s) (EventItem u) = Some l"
proof -
  obtain xs where xs: "C l = Some xs" using assms(3) by blast
  have "EventItem u \<in> set xs \<longleftrightarrow> cont (lists s) (EventItem u) = Some l"
    using rl.member[OF kinv_wf[OF assms(1)], of "EventItem u"] xs by auto
  moreover have "u \<in> set (waiters C l) \<longleftrightarrow> EventItem u \<in> set xs"
    by (subst waiters_items[OF assms(1,2) xs]) auto
  ultimately show ?thesis by simp
qed

text \<open>A tick disturbs only the resting tasks whose time has come.\<close>

definition ticked :: "'z kernel_scheme \<Rightarrow> 'z kernel_scheme \<Rightarrow> bool" where
  "ticked s s' \<longleftrightarrow> ticks s' = ticks s + 1 \<and> (\<forall>u. user_task s u \<longrightarrow> user_task s' u) \<and>
     (\<forall>u. rests {} s u \<longrightarrow>
        (if due s u then cont (lists s') (StateItem u) = Some (ReadyL (unat (effective_priority (tcbs s u)))) \<and>
           cont (lists s') (EventItem u) = None \<and> wait_reason (tcbs s' u) = WAIT_TIMED_OUT
         else stays (lists s) (lists s') u))"

lemma tick_minv:
  assumes "minv s C"
  shows "\<exists>s' C'. rtos_tick_handler s = Ret s' \<and> minv s' C' \<and> same_live C C' \<and> (placed s \<longrightarrow> placed s') \<and> touches {} s s' \<and>
           ready_grows C C' \<and> ticked s s'"
proof -
  obtain s' C' where r: "rtos_tick_handler s = Ret s'" "kinv s' C'" "tick_ok s' C'" "tsk_cnt s' = tsk_cnt s"
      "\<And>l. C' l = None \<longleftrightarrow> C l = None" "kernel.more s' = kernel.more s" "cur_task s' = cur_task s" "ready_grows C C'"
      "ticks s' = ticks s + 1" "\<forall>j. val (lists s') j = val (lists s) j" and
      t: "\<And>t. if due s t then cont (lists s') (StateItem t) = Some (ReadyL (unat (effective_priority (tcbs s t)))) \<and>
            cont (lists s') (EventItem t) = None \<and> tcbs s' t = (tcbs s t)\<lparr>wait_reason := WAIT_TIMED_OUT\<rparr>
          else cont (lists s') (StateItem t) = cont (lists s) (StateItem t) \<and>
            cont (lists s') (EventItem t) = cont (lists s) (EventItem t) \<and> tcbs s' t = tcbs s t"
    using tick_handler_runs[OF minvD(5,6)[OF assms]] by blast
  have "\<forall>u. mutexes_held (tcbs s' u) = mutexes_held (tcbs s u)"
  proof
    show "mutexes_held (tcbs s' u) = mutexes_held (tcbs s u)" for u using t[of u] by (cases "due s u") simp_all
  qed
  moreover have "u \<in> set (waiters C l)" if "is_wait_list l" "u \<in> set (waiters C' l)" "C l \<noteq> None" for u l
    using that t[of u] r(5)[of l] waiting_iff[OF r(2), of l u] waiting_iff[OF minvD(5)[OF assms], of l u]
    by (cases "due s u") simp_all
  then have "waiters_ok s C C'" using r(5) unfolding waiters_ok_def by (metis list.set_map option.sel waiters_def)
  ultimately have "minv s' C'" using minv_frame[OF assms r(2,3,6,4)] by blast
  moreover have "placed s \<longrightarrow> placed s'"
    using t r(4,7) unfolding placed_def user_task_def by (metis option.distinct(1))
  moreover have "ticked s s'"
  proof -
    have "if due s u then cont (lists s') (StateItem u) = Some (ReadyL (unat (effective_priority (tcbs s u)))) \<and>
        cont (lists s') (EventItem u) = None \<and> wait_reason (tcbs s' u) = WAIT_TIMED_OUT else stays (lists s) (lists s') u" for u
      using t[of u] r(10) by (simp add: stays_def split: if_splits)
    moreover have "user_task s' = user_task s" using r(4) by (simp add: fun_eq_iff user_task_def)
    ultimately show ?thesis using r(9) by (simp add: ticked_def)
  qed
  ultimately show ?thesis using r(1,5,8) touches_more[OF r(6)] by (auto simp: same_live_def)
qed

section \<open>Creating tasks and objects\<close>

lemma boot_minv: "pool_bounded s \<Longrightarrow> minv (rtos_system_init s) boot_view"
  using system_init_kinv[of s]
  by (auto simp: minv_def qinv_def sinv_def boot_view_def queue_live_def mutex_live_def user_task_def)

text \<open>The new task holds and waits for nothing.\<close>

lemma minv_new_task:
  assumes inv: "minv s C" and k: "kinv s' C'" "tick_ok s' C'" and m: "kernel.more s' = kernel.more s"
    and t: "tsk_cnt s' = tsk_cnt s + 1" "tcbs s' = (tcbs s)(Pool (unat (tsk_cnt s)) := x)" "mutexes_held x = 0"
    and n: "unat (tsk_cnt s) < ARTOS_MAX_TASKS" and w: "\<And>l. is_wait_list l \<Longrightarrow> C' l = C l"
  shows "minv s' C'"
proof -
  let ?t = "Pool (unat (tsk_cnt s))"
  have us: "user_task s' u \<longleftrightarrow> user_task s u \<or> u = ?t" for u
    using n t(1) unat_inc_small[of "tsk_cnt s"] by (auto simp: user_task_def ARTOS_MAX_TASKS_def less_Suc_eq)
  have nt: "\<not> user_task s ?t" by (simp add: user_task_def)
  have o: "owner_of s' j = owner_of s j" for j by (rule owner_of_more[OF m])
  have lk: "lockers C' j = lockers C j" "mutex_live C' j = mutex_live C j" for j using w by (simp_all add: lockers_def waiters_def mutex_live_def)
  have "sinv s' C'" by (rule sinv_frame[OF minvD(4)[OF inv] k more_fields(1)[OF m]]) (simp add: w)
  then have q: "qinv s' C'" by (rule qinv_frame[OF minvD(1)[OF inv] _ more_fields(2)[OF m]]) (simp add: queue_live_def w)
  have "mutex_ok s' C' j" if "mutex_live C' j" for j
    using minvD(2)[OF inv, of j] that t(2,3) us by (auto simp: mutex_ok_def o lk)
  moreover have "held_ok s' C' u" if u: "user_task s' u" for u
  proof (cases "u = ?t")
    case True
    have "held_by s' C' u = {}" using True nt minvD(2)[OF inv] by (auto simp: held_by_def o lk mutex_ok_def)
    then show ?thesis using True t(2,3) by (simp add: held_ok_def)
  next
    case False
    then show ?thesis using minvD(3)[OF inv, of u] u us t(2) by (simp add: held_ok_def held_by_def o lk)
  qed
  ultimately show ?thesis using q by (simp add: minv_def)
qed

lemma create_new_task:
  assumes inv: "minv s C" and n: "unat (tsk_cnt s) < ARTOS_MAX_TASKS"
    and a: "stack \<noteq> 0" "entry \<noteq> 0" "unat prio < ARTOS_PRIORITY_COUNT" "(stack + 4 * words) AND 7 = 0" "ARTOS_MIN_STACK_WORDS \<le> words"
  defines "C' \<equiv> append_to (ReadyL (unat prio)) (StateItem (Pool (unat (tsk_cnt s)))) C"
  shows "\<exists>s'. artos_task_create entry argument stack words prio s = Ret (ARTOS_OK, s') \<and> minv s' C' \<and> same_live C C' \<and> keeps_tasks {} s s' \<and>
           cur_task s' = cur_task s \<and> tsk_cnt s' = tsk_cnt s + 1 \<and> ready_grows C C' \<and> touches X s s'"
proof -
  obtain s' where s': "artos_task_create entry argument stack words prio s = Ret (ARTOS_OK, s')" "kinv s' C'" "tick_ok s' C'"
      "tsk_cnt s' = tsk_cnt s + 1" "tcbs s' = (tcbs s)(Pool (unat (tsk_cnt s)) := fresh_tcb entry argument stack words prio)"
      "kernel.more s' = kernel.more s" "keeps_tasks {} s s'" "cur_task s' = cur_task s"
    using task_create_ok[OF minvD(5,6)[OF inv] n a, of argument] unfolding C'_def by blast
  have w: "C' l = C l" if "is_wait_list l" for l using that by (auto simp: append_to_def C'_def)
  have "minv s' C'" by (rule minv_new_task[OF inv s'(2,3,6,4,5) _ n w]) (simp_all add: fresh_tcb_def)
  moreover have "ready_grows C C'" unfolding C'_def using minvD(5)[OF inv] a(3) by (intro append_grows) (auto simp: kinv_def kernel_lists_def)
  ultimately show ?thesis using s' w touches_more[OF s'(6)] by (auto simp: same_live_def)
qed

lemma create_minv:
  assumes inv: "minv s C"
  shows "\<exists>st s' C'. artos_task_create entry argument stack words prio s = Ret (st, s') \<and> steady {} {} s C s' C'"
proof (cases "stack = 0 \<or> entry = 0 \<or> unat prio \<ge> ARTOS_PRIORITY_COUNT \<or> (stack + 4 * words) AND 7 \<noteq> 0 \<or>
      words < ARTOS_MIN_STACK_WORDS \<or> unat (tsk_cnt s) = ARTOS_MAX_TASKS")
  case True
  have "tsk_cnt s = of_nat ARTOS_MAX_TASKS \<longleftrightarrow> unat (tsk_cnt s) = ARTOS_MAX_TASKS"
    by (auto simp: ARTOS_MAX_TASKS_def word_unat_eq_iff)
  then have "\<exists>st. artos_task_create entry argument stack words prio s = Ret (st, s)"
    using True by (auto simp: artos_task_create_def Let_def)
  then show ?thesis using steady_refl[OF inv] by blast
next
  case False
  have "unat (tsk_cnt s) \<le> ARTOS_MAX_TASKS" using minvD(5)[OF inv] by (simp add: kinv_def pool_ok_def)
  then have "unat (tsk_cnt s) < ARTOS_MAX_TASKS" using False by linarith
  from create_new_task[OF inv this, of stack entry prio words argument "{}"] False show ?thesis
    using steadyI[of _ _ C "{}" s "{}"] by (fastforce simp: not_le not_less)
qed

text \<open>The wait lists of the objects that exist.\<close>

definition objects_of :: "list_view \<Rightarrow> list_ref set" where
  "objects_of C = {l. is_wait_list l \<and> C l \<noteq> None}"

lemma same_live_objects: "same_live C C' \<longleftrightarrow> objects_of C' = objects_of C"
  unfolding same_live_def objects_of_def set_eq_iff mem_Collect_eq by metis

lemma objects_new: "is_wait_list l \<Longrightarrow> objects_of (C(l \<mapsto> xs)) = insert l (objects_of C)"
  by (auto simp: objects_of_def)

lemma new_semaphore_minv:
  assumes inv: "minv s C" and n: "C (SemWaitL n) = None" and x: "sem_count x \<le> sem_max x" "sem_max x \<noteq> 0"
  shows "minv (s\<lparr>sems := (sems s)(n := x), lists := rtos_init_list (Some (SemWaitL n)) (lists s)\<rparr>) (C(SemWaitL n \<mapsto> []))"
    (is "minv ?s' ?C")
proof -
  have "sinv ?s' ?C" using n x by (intro sinv_new_semaphore[OF minvD(4)[OF inv]]) auto
  then have "qinv ?s' ?C" by (rule qinv_frame[OF minvD(1)[OF inv]]) (simp_all add: queue_live_def)
  then show ?thesis by (rule minv_of_qinv[OF inv]) (simp_all add: owner_of_def)
qed

lemma sem_init_minv:
  assumes inv: "minv s C" and n: "C (SemWaitL n) = None"
  shows "\<exists>h s' C'. artos_counting_semaphore_init (Some n) max_count initial_count s = (h, s') \<and> minv s' C' \<and> keeps_tasks {} s s' \<and>
           objects_of C' = (if h = None then objects_of C else insert (SemWaitL n) (objects_of C)) \<and> ready_grows C C' \<and>
           touches {SemWaitL n} s s'"
proof (cases "max_count = 0 \<or> max_count < initial_count")
  case True
  then show ?thesis using inv by (auto simp: artos_counting_semaphore_init_def)
next
  case False
  let ?x = "(sems s n)\<lparr>sem_count := initial_count, sem_max := max_count\<rparr>"
  let ?s' = "s\<lparr>sems := (sems s)(n := ?x), lists := rtos_init_list (Some (SemWaitL n)) (lists s)\<rparr>" and ?C = "C(SemWaitL n \<mapsto> [])"
  have "minv ?s' ?C" using False n by (intro new_semaphore_minv[OF inv]) auto
  moreover have "artos_counting_semaphore_init (Some n) max_count initial_count s = (Some n, ?s')"
    using False by (simp add: artos_counting_semaphore_init_def upd_sem_def)
  moreover have "keeps_tasks {} s ?s'" by (simp add: keeps_tasks_defs init_list_cont init_list_val)
  ultimately show ?thesis using objects_new[of "SemWaitL n" C "[]"] ready_grows_same[of ?C C] by (auto simp: touches_def owner_of_def)
qed

lemma new_queue_minv:
  assumes inv: "minv s C" and n: "C (QueueReadL n) = None" "C (QueueWriteL n) = None"
    and d: "\<forall>k. queue_live C k \<longrightarrow> region storage (unat item_size * unat capacity) \<inter> queue_region (queues s k) = {}"
    and a: "storage \<noteq> 0" "capacity \<noteq> 0" "item_size \<noteq> 0" "\<not> SIZE_MAX div item_size < capacity"
  shows "minv (s\<lparr>queues := (queues s)(n := (queues s n)\<lparr>q_count := 0, q_item_size := item_size, q_capacity := capacity,
             q_read_index := 0, q_write_index := 0, q_storage := storage\<rparr>),
           lists := rtos_init_list (Some (QueueWriteL n)) (rtos_init_list (Some (QueueReadL n)) (lists s))\<rparr>)
         (C(QueueReadL n \<mapsto> [], QueueWriteL n \<mapsto> []))" (is "minv ?s' ?C")
proof -
  let ?q = "(queues s n)\<lparr>q_count := 0, q_item_size := item_size, q_capacity := capacity, q_read_index := 0,
      q_write_index := 0, q_storage := storage\<rparr>"
  have sz: "unat item_size * unat capacity < 2 ^ 32" using a size_check_iff[of item_size capacity] by simp
  have wf: "queue_wf ?q" using a sz by (simp add: queue_wf_def word_neq_0_conv)
  have "qinv ?s' ?C" using n d wf by (intro qinv_new_queue[OF minvD(1)[OF inv]]) (simp_all add: queue_region_def)
  then show ?thesis by (rule minv_of_qinv[OF inv]) (simp_all add: owner_of_def)
qed

lemma queue_init_minv:
  assumes inv: "minv s C" and n: "C (QueueReadL n) = None" "C (QueueWriteL n) = None"
    and d: "\<forall>k. queue_live C k \<longrightarrow> region storage (unat item_size * unat capacity) \<inter> queue_region (queues s k) = {}"
  shows "\<exists>h s' C'. artos_queue_init (Some n) storage item_size capacity s = (h, s') \<and> minv s' C' \<and> keeps_tasks {} s s' \<and>
           objects_of C' = (if h = None then objects_of C else {QueueReadL n, QueueWriteL n} \<union> objects_of C) \<and> ready_grows C C' \<and>
           touches {QueueReadL n} s s'"
proof (cases "storage = 0 \<or> capacity = 0 \<or> item_size = 0 \<or> SIZE_MAX div item_size < capacity")
  case True
  then show ?thesis using inv by (auto simp: artos_queue_init_def)
next
  case False
  let ?q = "(queues s n)\<lparr>q_count := 0, q_item_size := item_size, q_capacity := capacity, q_read_index := 0,
      q_write_index := 0, q_storage := storage\<rparr>"
  let ?m = "rtos_init_list (Some (QueueWriteL n)) (rtos_init_list (Some (QueueReadL n)) (lists s))"
  let ?s' = "s\<lparr>queues := (queues s)(n := ?q), lists := ?m\<rparr>" and ?C = "C(QueueReadL n \<mapsto> [], QueueWriteL n \<mapsto> [])"
  have "minv ?s' ?C" using False by (intro new_queue_minv[OF inv n d]) auto
  moreover have "artos_queue_init (Some n) storage item_size capacity s = (Some n, ?s')"
    using False by (simp add: artos_queue_init_def upd_queue_def)
  moreover have "keeps_tasks {} s ?s'" by (simp add: keeps_tasks_defs init_list_cont init_list_val)
  moreover have "objects_of ?C = {QueueReadL n, QueueWriteL n} \<union> objects_of C"
    using objects_new[of "QueueReadL n" C "[]"] objects_new[of "QueueWriteL n" "C(QueueReadL n \<mapsto> [])" "[]"] by auto
  moreover have "ready_grows C ?C" by (rule ready_grows_same) simp
  moreover have "touches {QueueReadL n} s ?s'" by (simp add: touches_def owner_of_def)
  ultimately show ?thesis by auto
qed

section \<open>Blocking queue calls, step by step\<close>

text \<open>
  One pass of the waiting loop, up to the context switch. \<open>Some (Some p)\<close>: the queue can be used, \<open>p\<close> is the interrupt
  state to restore; \<open>Some None\<close>: time is up; \<open>None\<close>: the caller has blocked.
\<close>

definition queue_wait_enter ::
    "('z queue_kernel_scheme \<Rightarrow> bool) \<Rightarrow> list_ref \<Rightarrow> u32 \<Rightarrow> bool \<Rightarrow> u32 \<Rightarrow> 'z queue_kernel_scheme \<Rightarrow>
     (u32 option option \<times> 'z queue_kernel_scheme, 'z) qres" where
  "queue_wait_enter blocked wait_list wake_tick forever prev_state s =
     (if \<not> blocked s then Ret (Some (Some prev_state), s)
      else let delta = wake_tick - rtos_current_tick s in
      if \<not> forever \<and> (delta = 0 \<or> delta \<ge> 0x80000000)
      then Ret (Some None, rtos_port_exit_critical prev_state s)
      else res_bind (rtos_block_current_task wake_tick (Some wait_list) forever s) (\<lambda>s.
        Ret (None, rtos_port_request_context_switch (rtos_port_exit_critical prev_state s))))"

lemma queue_wait_by_steps:
  "loop_res (queue_wait run blocked l w forever p s) =
     res_bind (queue_wait_enter blocked l w forever p s) (\<lambda>(r, s).
       case r of Some x \<Rightarrow> Ret (x, s)
       | None \<Rightarrow> res_bind (run s) (\<lambda>s.
           if rtos_current_wait_reason s = WAIT_TIMED_OUT then Ret (None, rtos_clear_current_wait_reason s)
           else loop_res (queue_wait run blocked l w forever (primask s) ((rtos_clear_current_wait_reason s)\<lparr>primask := 1\<rparr>))))"
proof -
  have e: "rtos_port_exit_critical (primask u) ((rtos_clear_current_wait_reason u)\<lparr>primask := 1\<rparr>) = rtos_clear_current_wait_reason u" for u :: "'a queue_kernel_scheme"
    using clear_reason_port(5)[of u] by (simp add: rtos_port_exit_critical_def)
  show ?thesis
    by (subst queue_wait.simps)
      (simp add: queue_wait_enter_def loop_res_def rtos_port_enter_critical_def e Let_def split: res.split)
qed

text \<open>What a task-level call does once the queue can be used, or its time is up.\<close>

definition queue_finish ::
    "list_ref \<Rightarrow> ('z queue_kernel_scheme \<Rightarrow> 'z queue_kernel_scheme) \<Rightarrow> u32 option \<Rightarrow> 'z queue_kernel_scheme \<Rightarrow>
     (bool \<times> 'z queue_kernel_scheme, 'z) qres" where
  "queue_finish l transfer go_on s =
     (case go_on of None \<Rightarrow> Ret (False, s)
      | Some prev_state \<Rightarrow>
          res_bind (queue_wake l (transfer s)) (\<lambda>(gt_prio, s).
          let s = rtos_port_exit_critical prev_state s;
              s = (if gt_prio then rtos_port_request_context_switch s else s)
          in Ret (True, s)))"

text \<open>The task-level calls until they return or the caller blocks.\<close>

definition queue_enter where
  "queue_enter blocked wait_list other_list transfer wake_tick forever prev_state s =
     res_bind (queue_wait_enter blocked wait_list wake_tick forever prev_state s) (\<lambda>(r, s).
       case r of None \<Rightarrow> Ret (None, s)
       | Some go_on \<Rightarrow> res_bind (queue_finish other_list transfer go_on s) (\<lambda>(b, s). Ret (Some b, s)))"

definition wake_of :: "u32 \<Rightarrow> 'z kernel_scheme \<Rightarrow> u32" where
  "wake_of timeout s = (if timeout = ARTOS_DELAY_INFINITY then ARTOS_DELAY_INFINITY else timeout + rtos_current_tick s)"

definition enqueue_enter ::
    "nat \<Rightarrow> u32 \<Rightarrow> u32 \<Rightarrow> 'z queue_kernel_scheme \<Rightarrow> (bool option \<times> 'z queue_kernel_scheme, 'z) qres" where
  "enqueue_enter q data timeout s =
     (if data = 0 then Ret (Some False, s)
      else let (prev_state, s) = rtos_port_enter_critical s
        in res_bind (rtos_queue_assert_valid (Some q) s) (\<lambda>s.
           queue_enter (\<lambda>s. q_count (queues s q) = q_capacity (queues s q)) (QueueWriteL q) (QueueReadL q) (queue_store q data)
             (wake_of timeout s) (timeout = ARTOS_DELAY_INFINITY) prev_state s))"

definition dequeue_enter ::
    "nat \<Rightarrow> u32 \<Rightarrow> u32 \<Rightarrow> 'z queue_kernel_scheme \<Rightarrow> (bool option \<times> 'z queue_kernel_scheme, 'z) qres" where
  "dequeue_enter q dst timeout s =
     (if dst = 0 then Ret (Some False, s)
      else let (prev_state, s) = rtos_port_enter_critical s
        in res_bind (rtos_queue_assert_valid (Some q) s) (\<lambda>s.
           queue_enter (\<lambda>s. q_count (queues s q) = 0) (QueueReadL q) (QueueWriteL q) (queue_fetch q dst)
             (wake_of timeout s) (timeout = ARTOS_DELAY_INFINITY) prev_state s))"

text \<open>
  The calls are these steps, with \<open>run\<close> from a block to the next resumption, and again the waiting loop with the same
  deadline unless the wait timed out.
\<close>

definition queue_resume where
  "queue_resume run blocked wait_list other_list transfer wake_tick forever s =
     (if rtos_current_wait_reason s = WAIT_TIMED_OUT then Ret (False, rtos_clear_current_wait_reason s)
      else res_bind (loop_res (queue_wait run blocked wait_list wake_tick forever (primask s) ((rtos_clear_current_wait_reason s)\<lparr>primask := 1\<rparr>)))
        (\<lambda>(go_on, s). queue_finish other_list transfer go_on s))"

lemma queue_call_by_steps:
  "res_bind (loop_res (queue_wait run b l w f p s)) (\<lambda>(go_on, s). queue_finish k tr go_on s) =
   res_bind (queue_enter b l k tr w f p s) (\<lambda>(r, s).
     case r of Some b \<Rightarrow> Ret (b, s) | None \<Rightarrow> res_bind (run s) (queue_resume run b l k tr w f))"
proof (cases "queue_wait_enter b l w f p s")
  case (Ret x)
  obtain r s1 where x: "x = (r, s1)" by fastforce
  show ?thesis
  proof (cases r)
    case None
    have "res_bind (if c then Ret (None, u) else y) (\<lambda>(go_on, s). queue_finish k tr go_on s) =
        (if c then Ret (False, u) else res_bind y (\<lambda>(go_on, s). queue_finish k tr go_on s))" for c u y
      by (simp add: queue_finish_def)
    then show ?thesis unfolding queue_wait_by_steps[of run b l w f p s] queue_enter_def Ret x None
      by (simp add: queue_resume_def[abs_def])
  next
    case (Some go_on)
    then show ?thesis unfolding queue_wait_by_steps[of run b l w f p s] queue_enter_def Ret x
      by (cases "queue_finish k tr go_on s1") auto
  qed
qed (simp_all add: queue_wait_by_steps[of run b l w f p s] queue_enter_def)

text \<open>A resumed caller up to its return or its next block; this is what \<open>queue_resume\<close> repeats.\<close>

definition queue_again where
  "queue_again blocked wait_list other_list transfer wake_tick forever s =
     (if rtos_current_wait_reason s = WAIT_TIMED_OUT then Ret (Some False, rtos_clear_current_wait_reason s)
      else queue_enter blocked wait_list other_list transfer wake_tick forever (primask s) ((rtos_clear_current_wait_reason s)\<lparr>primask := 1\<rparr>))"

lemma queue_resume_by_steps:
  "queue_resume run b l k tr w f s =
   res_bind (queue_again b l k tr w f s) (\<lambda>(r, s).
     case r of Some b \<Rightarrow> Ret (b, s) | None \<Rightarrow> res_bind (run s) (queue_resume run b l k tr w f))"
  by (simp add: queue_resume_def[of run b l k tr w f s] queue_again_def queue_call_by_steps)

definition enqueue_again ::
    "nat \<Rightarrow> u32 \<Rightarrow> u32 \<Rightarrow> bool \<Rightarrow> 'z queue_kernel_scheme \<Rightarrow> (bool option \<times> 'z queue_kernel_scheme, 'z) qres" where
  "enqueue_again q data = queue_again (\<lambda>s. q_count (queues s q) = q_capacity (queues s q)) (QueueWriteL q) (QueueReadL q) (queue_store q data)"

definition dequeue_again ::
    "nat \<Rightarrow> u32 \<Rightarrow> u32 \<Rightarrow> bool \<Rightarrow> 'z queue_kernel_scheme \<Rightarrow> (bool option \<times> 'z queue_kernel_scheme, 'z) qres" where
  "dequeue_again q dst = queue_again (\<lambda>s. q_count (queues s q) = 0) (QueueReadL q) (QueueWriteL q) (queue_fetch q dst)"

lemma assert_valid_state: "rtos_queue_assert_valid qh s = Ret s' \<Longrightarrow> s' = s"
  by (auto simp: rtos_queue_assert_valid_def Let_def split: if_splits)

definition enqueue_resume where
  "enqueue_resume run q data =
     queue_resume run (\<lambda>s. q_count (queues s q) = q_capacity (queues s q)) (QueueWriteL q) (QueueReadL q) (queue_store q data)"

definition dequeue_resume where
  "dequeue_resume run q dst = queue_resume run (\<lambda>s. q_count (queues s q) = 0) (QueueReadL q) (QueueWriteL q) (queue_fetch q dst)"

lemma enqueue_by_steps:
  "artos_queue_enqueue run (Some q) data timeout s =
    res_bind (enqueue_enter q data timeout s) (\<lambda>(r, s').
      case r of Some b \<Rightarrow> Ret (b, s')
      | None \<Rightarrow> res_bind (run s') (enqueue_resume run q data (wake_of timeout s) (timeout = ARTOS_DELAY_INFINITY)))"
proof (cases "data = 0")
  case False
  show ?thesis
  proof (cases "rtos_queue_assert_valid (Some q) (s\<lparr>primask := 1\<rparr>)")
    case (Ret s0)
    have "s0 = s\<lparr>primask := 1\<rparr>" using assert_valid_state[OF Ret] .
    then have t: "wake_of timeout s0 = wake_of timeout s" by (simp add: wake_of_def rtos_current_tick_def)
    have "artos_queue_enqueue run (Some q) data timeout s =
        res_bind (loop_res (enqueue_wait run q (wake_of timeout s0) (timeout = ARTOS_DELAY_INFINITY) (primask s) s0))
          (\<lambda>(go_on, s). queue_finish (QueueReadL q) (queue_store q data) go_on s)"
      using False Ret by (simp add: artos_queue_enqueue_def rtos_port_enter_critical_def queue_finish_def wake_of_def)
    then show ?thesis using False Ret unfolding enqueue_wait_def queue_call_by_steps t enqueue_resume_def
      by (simp add: enqueue_enter_def rtos_port_enter_critical_def t)
  qed (simp_all add: artos_queue_enqueue_def enqueue_enter_def False rtos_port_enter_critical_def)
qed (simp add: artos_queue_enqueue_def enqueue_enter_def)

lemma dequeue_by_steps:
  "artos_queue_dequeue run (Some q) dst timeout s =
    res_bind (dequeue_enter q dst timeout s) (\<lambda>(r, s').
      case r of Some b \<Rightarrow> Ret (b, s')
      | None \<Rightarrow> res_bind (run s') (dequeue_resume run q dst (wake_of timeout s) (timeout = ARTOS_DELAY_INFINITY)))"
proof (cases "dst = 0")
  case False
  show ?thesis
  proof (cases "rtos_queue_assert_valid (Some q) (s\<lparr>primask := 1\<rparr>)")
    case (Ret s0)
    have "s0 = s\<lparr>primask := 1\<rparr>" using assert_valid_state[OF Ret] .
    then have t: "wake_of timeout s0 = wake_of timeout s" by (simp add: wake_of_def rtos_current_tick_def)
    have "artos_queue_dequeue run (Some q) dst timeout s =
        res_bind (loop_res (dequeue_wait run q (wake_of timeout s0) (timeout = ARTOS_DELAY_INFINITY) (primask s) s0))
          (\<lambda>(go_on, s). queue_finish (QueueWriteL q) (queue_fetch q dst) go_on s)"
      using False Ret by (simp add: artos_queue_dequeue_def rtos_port_enter_critical_def queue_finish_def wake_of_def)
    then show ?thesis using False Ret unfolding dequeue_wait_def queue_call_by_steps t dequeue_resume_def
      by (simp add: dequeue_enter_def rtos_port_enter_critical_def t)
  qed (simp_all add: artos_queue_dequeue_def dequeue_enter_def False rtos_port_enter_critical_def)
qed (simp add: artos_queue_dequeue_def dequeue_enter_def)


section \<open>Queue calls\<close>

lemma exit_enter [simp]: "rtos_port_exit_critical (primask s) (s\<lparr>primask := 1\<rparr>) = s"
  by (simp add: rtos_port_exit_critical_def)

lemma wake_of_forever: "timeout = ARTOS_DELAY_INFINITY \<longrightarrow> wake_of timeout s = ARTOS_DELAY_INFINITY"
  by (simp add: wake_of_def)

text \<open>A full or empty queue: the call fails, or the caller joins the wait list.\<close>

lemma queue_enter_blocked:
  assumes inv: "minv s C" and t: "running s t" and l: "l = QueueReadL n \<or> l = QueueWriteL n" "C l \<noteq> None" and b: "blocked (s\<lparr>primask := 1\<rparr>)"
    and w: "f \<longrightarrow> w = ARTOS_DELAY_INFINITY"
  shows "\<exists>r s' C'. queue_enter blocked l k tr w f (primask s) (s\<lparr>primask := 1\<rparr>) = Ret (r, s') \<and> steady {} Y s C s' C'"
proof -
  let ?s0 = "s\<lparr>primask := 1\<rparr>" and ?d = "w - ticks s"
  show ?thesis
  proof (cases "\<not> f \<and> (?d = 0 \<or> ?d \<ge> 0x80000000)")
    case True
    then have "queue_wait_enter blocked l w f (primask s) ?s0 = Ret (Some None, s)"
      using b unfolding queue_wait_enter_def rtos_current_tick_def by (simp add: Let_def)
    then have "queue_enter blocked l k tr w f (primask s) ?s0 = Ret (Some False, s)"
      by (simp add: queue_enter_def queue_finish_def)
    then show ?thesis using steady_refl[OF inv] by blast
  next
    case False
    let ?t = "if f then ARTOS_DELAY_INFINITY else ?d"
    have f: "(?t = ARTOS_DELAY_INFINITY) = f" using False by (auto simp: ARTOS_DELAY_INFINITY_def)
    have g: "?t = ARTOS_DELAY_INFINITY \<or> ?t \<noteq> 0" using False by auto
    have e: "(if f then ARTOS_DELAY_INFINITY else ?t + ticks s) = w" using w by simp
    obtain m C' where m: "rtos_block_current_task w (Some l) f ?s0 = Ret (?s0\<lparr>lists := m\<rparr>)"
        "qinv (?s0\<lparr>lists := m\<rparr>) C'" "queue_frame {} l s C (?s0\<lparr>lists := m\<rparr>) C'"
      using block_on_queue[OF minvD(1)[OF inv] t l g] unfolding f e by blast
    let ?s' = "rtos_port_request_context_switch (rtos_port_exit_critical (primask s) (?s0\<lparr>lists := m\<rparr>))"
    have "qinv ?s' C'" "queue_frame {} l s C ?s' C'" using m(2,3) by simp_all
    note v = steady_mono[OF steady_queue_frame[OF inv this] empty_subsetI]
    have "queue_wait_enter blocked l w f (primask s) ?s0 = Ret (None, ?s')"
      using b m(1) False unfolding queue_wait_enter_def rtos_current_tick_def by (auto simp: Let_def)
    then have "queue_enter blocked l k tr w f (primask s) ?s0 = Ret (None, ?s')"
      by (simp add: queue_enter_def)
    then show ?thesis using v l(1) by blast
  qed
qed

lemma queue_enter_free:
  assumes inv: "minv s C" and b: "\<not> blocked (s\<lparr>primask := 1\<rparr>)" and q: "queue_wake k (tr (s\<lparr>primask := 1\<rparr>)) = Ret (g, s')" "qinv s' C'" "queue_frame {k} k s C s' C'"
    and k: "\<forall>j. k \<noteq> MutexLockL j"
  shows "\<exists>r s' C'. queue_enter blocked l k tr w f (primask s) (s\<lparr>primask := 1\<rparr>) = Ret (r, s') \<and> steady {} {k} s C s' C'"
proof -
  let ?s' = "if g then rtos_port_request_context_switch (rtos_port_exit_critical (primask s) s') else rtos_port_exit_critical (primask s) s'"
  have "queue_enter blocked l k tr w f (primask s) (s\<lparr>primask := 1\<rparr>) = Ret (Some True, ?s')"
    using b q(1) by (simp add: queue_enter_def queue_wait_enter_def queue_finish_def)
  moreover have "qinv ?s' C'" "queue_frame {k} k s C ?s' C'" using q(2,3) by simp_all
  ultimately show ?thesis using steady_queue_frame[OF inv _ _ k, of ?s' C'] by blast
qed

lemma enqueue_pass:
  assumes inv: "minv s C" and t: "running s t" and n: "queue_live C n" and w: "f \<longrightarrow> w = ARTOS_DELAY_INFINITY"
  shows "\<exists>r s' C'. queue_enter (\<lambda>s. q_count (queues s n) = q_capacity (queues s n)) (QueueWriteL n) (QueueReadL n)
      (queue_store n data) w f (primask s) (s\<lparr>primask := 1\<rparr>) = Ret (r, s') \<and> steady {} {QueueReadL n} s C s' C'"
proof (cases "q_count (queues s n) = q_capacity (queues s n)")
  case True
  then show ?thesis using n w by (intro queue_enter_blocked[OF inv t]) (simp_all add: queue_live_def)
next
  case full: False
  have i0: "qinv (s\<lparr>primask := 1\<rparr>) C" using minvD(1)[OF inv] by simp
  obtain g s' C' where "queue_wake (QueueReadL n) (queue_store n data (s\<lparr>primask := 1\<rparr>)) = Ret (g, s')" "qinv s' C'"
      "queue_frame {QueueReadL n} (QueueReadL n) s C s' C'"
    using put_runs[OF i0 n, of data] full by auto
  then show ?thesis using full by (intro queue_enter_free[OF inv]) simp_all
qed

lemma dequeue_pass:
  assumes inv: "minv s C" and t: "running s t" and n: "queue_live C n" and w: "f \<longrightarrow> w = ARTOS_DELAY_INFINITY"
    and d: "\<forall>k. queue_live C k \<longrightarrow> region dst (unat (q_item_size (queues s n))) \<inter> queue_region (queues s k) = {}"
  shows "\<exists>r s' C'. queue_enter (\<lambda>s. q_count (queues s n) = 0) (QueueReadL n) (QueueWriteL n)
      (queue_fetch n dst) w f (primask s) (s\<lparr>primask := 1\<rparr>) = Ret (r, s') \<and> steady {} {QueueWriteL n} s C s' C'"
proof (cases "q_count (queues s n) = 0")
  case True
  then show ?thesis using n w by (intro queue_enter_blocked[OF inv t]) (simp_all add: queue_live_def)
next
  case some: False
  have i0: "qinv (s\<lparr>primask := 1\<rparr>) C" using minvD(1)[OF inv] by simp
  obtain g s' C' where "queue_wake (QueueWriteL n) (queue_fetch n dst (s\<lparr>primask := 1\<rparr>)) = Ret (g, s')" "qinv s' C'"
      "queue_frame {QueueWriteL n} (QueueWriteL n) s C s' C'"
    using get_runs[OF i0 n, of dst] some d by auto
  then show ?thesis using some by (intro queue_enter_free[OF inv]) simp_all
qed

lemma enqueue_minv:
  fixes timeout :: u32
  assumes inv: "minv s C" and t: "running s t" and n: "queue_live C n"
  shows "\<exists>r s' C'. enqueue_enter n data timeout s = Ret (r, s') \<and> steady {} {QueueReadL n} s C s' C'"
proof (cases "data = 0")
  case True
  then show ?thesis using steady_refl[OF inv] by (auto simp: enqueue_enter_def)
next
  case False
  have v: "rtos_queue_assert_valid (Some n) (s\<lparr>primask := 1\<rparr>) = Ret (s\<lparr>primask := 1\<rparr>)"
    using qinvD(2)[OF minvD(1)[OF inv] n] by (intro assert_valid_ok) simp
  show ?thesis using enqueue_pass[OF inv t n wake_of_forever] False v by (simp add: enqueue_enter_def rtos_port_enter_critical_def)
qed

lemma dequeue_minv:
  fixes timeout :: u32
  assumes inv: "minv s C" and t: "running s t" and n: "queue_live C n"
    and d: "\<forall>k. queue_live C k \<longrightarrow> region dst (unat (q_item_size (queues s n))) \<inter> queue_region (queues s k) = {}"
  shows "\<exists>r s' C'. dequeue_enter n dst timeout s = Ret (r, s') \<and> steady {} {QueueWriteL n} s C s' C'"
proof (cases "dst = 0")
  case True
  then show ?thesis using steady_refl[OF inv] by (auto simp: dequeue_enter_def)
next
  case False
  have v: "rtos_queue_assert_valid (Some n) (s\<lparr>primask := 1\<rparr>) = Ret (s\<lparr>primask := 1\<rparr>)"
    using qinvD(2)[OF minvD(1)[OF inv] n] by (intro assert_valid_ok) simp
  show ?thesis using dequeue_pass[OF inv t n wake_of_forever d] False v by (simp add: dequeue_enter_def rtos_port_enter_critical_def)
qed

text \<open>After a wait the same holds, from the state with the wait reason cleared.\<close>

lemma clear_running: "running (rtos_clear_current_wait_reason s) t = running s t"
  by (simp add: running_def)

lemma clear_queues [simp]: "queues (rtos_clear_current_wait_reason s) = queues s" "primask (rtos_clear_current_wait_reason s) = primask s"
  by (cases "cur_task s"; simp add: clear_reason_eq upd_tcb_def)+

lemma clear_steady:
  assumes "minv s C"
  shows "steady {} Y s C (rtos_clear_current_wait_reason s) C"
  by (rule steadyI[OF clear_reason_minv[OF assms]]) (simp_all add: touches_objects)

lemma steady_trans: "steady X Y s C s1 C1 \<Longrightarrow> steady X Y s1 C1 s2 C2 \<Longrightarrow> steady X Y s C s2 C2"
  using same_live_trans ready_grows_trans touches_trans[of X s s1 s2] undisturbed_trans[of Y s s1 s2] by (auto simp: steady_def serves_def)

lemma again_minv:
  assumes inv: "minv s C" and t: "running s t" and n: "queue_live C n" and w: "f \<longrightarrow> w = ARTOS_DELAY_INFINITY"
  shows "\<exists>r s' C'. enqueue_again n data w f s = Ret (r, s') \<and> steady {} {QueueReadL n} s C s' C'"
    "\<forall>k. queue_live C k \<longrightarrow> region dst (unat (q_item_size (queues s n))) \<inter> queue_region (queues s k) = {} \<Longrightarrow>
     \<exists>r s' C'. dequeue_again n dst w f s = Ret (r, s') \<and> steady {} {QueueWriteL n} s C s' C'"
proof -
  let ?s = "rtos_clear_current_wait_reason s"
  note c = clear_steady[OF inv]
  have k: "minv ?s C" "running ?s t" using clear_reason_minv[OF inv] t by (simp_all add: clear_running)
  show "\<exists>r s' C'. enqueue_again n data w f s = Ret (r, s') \<and> steady {} {QueueReadL n} s C s' C'"
    using enqueue_pass[OF k n w, where data = data] c
    by (cases "rtos_current_wait_reason s = WAIT_TIMED_OUT") (auto intro: steady_trans[OF c] simp: enqueue_again_def queue_again_def)
  show "\<exists>r s' C'. dequeue_again n dst w f s = Ret (r, s') \<and> steady {} {QueueWriteL n} s C s' C'"
    if "\<forall>k. queue_live C k \<longrightarrow> region dst (unat (q_item_size (queues s n))) \<inter> queue_region (queues s k) = {}"
    using dequeue_pass[OF k n w, where dst = dst] that c
    by (cases "rtos_current_wait_reason s = WAIT_TIMED_OUT") (auto intro: steady_trans[OF c] simp: dequeue_again_def queue_again_def)
qed

lemma enqueue_isr_minv:
  assumes inv: "minv s C" and n: "queue_live C n"
  shows "\<exists>r g s' C'. artos_queue_enqueue_from_isr (Some n) data flag s = Ret (r, g, s') \<and> steady {} {QueueReadL n} s C s' C'"
proof (cases "data = 0")
  case True
  then show ?thesis using steady_refl[OF inv] by (auto simp: artos_queue_enqueue_from_isr_def)
next
  case False
  obtain r g s' C' where "artos_queue_enqueue_from_isr (Some n) data flag s = Ret (r, g, s')" "qinv s' C'" "queue_frame {QueueReadL n} (QueueReadL n) s C s' C'"
    using enqueue_runs[OF minvD(1)[OF inv] n False, of flag undefined 0] by blast
  then show ?thesis using steady_queue_frame[OF inv, of s' C'] by blast
qed

lemma dequeue_isr_minv:
  assumes inv: "minv s C" and n: "queue_live C n"
    and d: "\<forall>k. queue_live C k \<longrightarrow> region dst (unat (q_item_size (queues s n))) \<inter> queue_region (queues s k) = {}"
  shows "\<exists>r g s' C'. artos_queue_dequeue_from_isr (Some n) dst flag s = Ret (r, g, s') \<and> steady {} {QueueWriteL n} s C s' C'"
proof (cases "dst = 0")
  case True
  then show ?thesis using steady_refl[OF inv] by (auto simp: artos_queue_dequeue_from_isr_def)
next
  case False
  obtain r g s' C' where "artos_queue_dequeue_from_isr (Some n) dst flag s = Ret (r, g, s')" "qinv s' C'" "queue_frame {QueueWriteL n} (QueueWriteL n) s C s' C'"
    using dequeue_runs[OF minvD(1)[OF inv] n False d, of flag undefined 0] by blast
  then show ?thesis using steady_queue_frame[OF inv, of s' C'] by blast
qed

section \<open>Semaphore calls\<close>

lemma signal_minv:
  assumes inv: "minv s C" and n: "C (SemWaitL n) \<noteq> None"
  shows "\<exists>r s' C'. artos_semaphore_signal (Some n) s = Ret (r, s') \<and> steady {SemWaitL n} {SemWaitL n} s C s' C'"
    "\<exists>r g s' C'. artos_semaphore_signal_isr (Some n) flag s = Ret (r, g, s') \<and> steady {SemWaitL n} {SemWaitL n} s C s' C'"
proof -
  obtain r g y s' C' where r: "artos_semaphore_signal (Some n) s = Ret (r, if y then rtos_port_request_context_switch s' else s')"
      "artos_semaphore_signal_isr (Some n) flag s = Ret (r, g, s')" "sinv s' C'" "sem_frame {SemWaitL n} n s C s' C'"
    using signal_cases[OF minvD(4)[OF inv] n, of flag] by blast
  let ?s' = "if y then rtos_port_request_context_switch s' else s'"
  have "sinv ?s' C'" "sem_frame {SemWaitL n} n s C ?s' C'" using r(3,4) by simp_all
  then show "\<exists>r s' C'. artos_semaphore_signal (Some n) s = Ret (r, s') \<and> steady {SemWaitL n} {SemWaitL n} s C s' C'"
    using r(1) steady_sem_frame[OF inv, where n = n] by blast
  show "\<exists>r g s' C'. artos_semaphore_signal_isr (Some n) flag s = Ret (r, g, s') \<and> steady {SemWaitL n} {SemWaitL n} s C s' C'"
    using r(2) steady_sem_frame[OF inv r(3,4)] by blast
qed

lemma take_minv:
  assumes inv: "minv s C" and n: "C (SemWaitL n) \<noteq> None"
  shows "running s t \<Longrightarrow> \<exists>r s' C'. semaphore_take_enter n timeout s = Ret (r, s') \<and> steady {SemWaitL n} {} s C s' C'"
    "\<exists>r s' C'. artos_semaphore_take_isr (Some n) s = (r, s') \<and> steady {SemWaitL n} {} s C s' C'"
proof -
  show "\<exists>r s' C'. semaphore_take_enter n timeout s = Ret (r, s') \<and> steady {SemWaitL n} {} s C s' C'" if "running s t"
    using take_enter_runs[OF minvD(4)[OF inv] that n, of timeout] steady_sem_frame[OF inv, where n = n] by blast
  obtain r s' where "artos_semaphore_take_isr (Some n) s = (r, s')" "sinv s' C" "sem_frame {} n s C s' C"
    using try_take_cases[OF minvD(4)[OF inv] n] by blast
  then show "\<exists>r s' C'. artos_semaphore_take_isr (Some n) s = (r, s') \<and> steady {SemWaitL n} {} s C s' C'"
    using steady_sem_frame[OF inv] by blast
qed

section \<open>Scheduler calls\<close>

lemma switch_minv:
  assumes inv: "minv s C" and "clz_spec clz" "cur_task s = Some c" "sp \<noteq> 0" "artos_task_stack_valid (tcbs s c) sp s"
  shows "\<exists>r s' C'. rtos_scheduler_switch_context clz sp s = Ret (r, s') \<and> serves {} {} s C s' C'"
proof -
  obtain n s' C' where r: "rtos_scheduler_switch_context clz sp s = Ret (stack_pointer (tcbs s' n), s')"
      "kinv s' C'" "tick_ok s' C'" "cur_task s' = Some n" "quiet s C s' C'"
      "\<forall>j. \<not> is_sentinel j \<longrightarrow>
         cont (lists s') j = (if n \<noteq> IdleTask \<and> j = StateItem n then None else requeued_cont c s j)" "undisturbed {} s s'"
    using switch_context_runs[OF minvD(5,6)[OF inv] assms(2-5)] by blast
  have "placed s'" if p: "placed s"
    unfolding placed_def
  proof (intro allI impI)
    fix u assume u: "user_task s' u \<and> cont (lists s') (StateItem u) = None"
    then have us: "user_task s u" "u \<noteq> IdleTask" using r(5) by (auto simp: quiet_def user_task_def)
    have "u = c" if "cont (lists s) (StateItem u) = None" using p us(1) that assms(3) unfolding placed_def by (metis option.inject)
    then have "requeued_cont c s (StateItem u) \<noteq> None" using us(2) unfolding requeued_cont_def by (metis option.distinct(1))
    then have "u = n" using u r(6)[rule_format, of "StateItem u"] by (auto split: if_splits)
    then show "cur_task s' = Some u" using r(4) by simp
  qed
  then have "serves {} {} s C s' C'" using minv_quiet[OF inv r(2,3,5)] r(7) by (simp add: serves_def)
  then show ?thesis using r(1) by blast
qed

lemma start_minv:
  assumes inv: "minv s C" and "clz_spec clz" "cur_task s = None"
  shows "\<exists>r s' C'. artos_start clz s = Ret (r, s') \<and> serves {} {} s C s' C'"
proof (cases "none_ready C")
  case True
  then show ?thesis using start_runs[OF minvD(5,6)[OF inv] assms(2,3)] serves_refl[OF inv] by auto
next
  case False
  obtain n s' C' where r: "artos_start clz s = Ret (None, s')" "kinv s' C'" "tick_ok s' C'" "quiet s C s' C'" "cur_task s' = Some n"
      "\<forall>u. cont (lists s') (StateItem u) = None \<longrightarrow> u = n \<or> cont (lists s) (StateItem u) = None" "undisturbed {} s s'"
    using start_runs[OF minvD(5,6)[OF inv] assms(2,3)] unfolding if_not_P[OF False] by blast
  have "user_task s' = user_task s" using r(4) by (simp add: fun_eq_iff quiet_def user_task_def)
  then have "placed s \<Longrightarrow> placed s'" using r(5,6) assms(3) unfolding placed_def by (metis option.distinct(1))
  then have "serves {} {} s C s' C'" using minv_quiet[OF inv r(2-4)] r(7) by (simp add: serves_def)
  then show ?thesis using r(1) by blast
qed

lemma wait_minv:
  assumes inv: "minv s C" and t: "running s t"
  shows "\<exists>s' C'. artos_wait n s = Ret s' \<and> steady {} {} s C s' C'"
    "\<exists>s' C'. artos_wait_until w s = Ret s' \<and> steady {} {} s C s' C'"
proof -
  have *: "steady {} {} s C s' C'" if "kinv s' C'" "tick_ok s' C'" "quiet s C s' C'" "keeps_tasks {} s s'" "ready_grows C C'" for s' C'
    using minv_quiet[OF inv that(1-3)] that(4,5) by (intro steadyI)
  show "\<exists>s' C'. artos_wait n s = Ret s' \<and> steady {} {} s C s' C'"
    using wait_runs[OF minvD(5,6)[OF inv] t, of n] * by blast
  show "\<exists>s' C'. artos_wait_until w s = Ret s' \<and> steady {} {} s C s' C'"
    using wait_until_runs[OF minvD(5,6)[OF inv] t, of w] * by blast
qed

end
