(* ===== verification/System.thy ===== *)
theory System
  imports Calls
begin

text \<open>
  The kernel as a whole, driven by events. Between two events the processor runs application code; an event is one
  call of the kernel up to its return or to the context switch that takes the caller off the processor, one
  interrupt, or one write of the application to memory.
\<close>

section \<open>Events\<close>

datatype event =
  Create u32 u32 u32 u32 u8
| Start
| Tick
| Switch u32
| Wait u32
| WaitUntil u32
| Yield
| YieldIsr
| BinaryInit nat bool
| SemInit nat u32 u32
| SemTake nat u32
| SemSignal nat
| SemTakeIsr nat
| SemSignalIsr nat "bool option"
| QueueInit nat u32 u32 u32
| Enqueue nat u32 u32
| Dequeue nat u32 u32
| EnqueueAgain nat u32 u32 bool
| DequeueAgain nat u32 u32 bool
| EnqueueIsr nat u32 "bool option"
| DequeueIsr nat u32 "bool option"
| MutexInit nat
| Lock nat u32
| LockResume nat
| Unlock nat
| ClearReason
| WriteStack u32 u32
| WriteMem u32 u8

text \<open>
  The first component of the result is the state, the second the set of wait lists of the objects created so far. A caller
  that blocked in \<open>SemTake\<close>, \<open>Lock\<close>, \<open>Enqueue\<close> or \<open>Dequeue\<close> and runs again continues with \<open>ClearReason\<close>, \<open>LockResume\<close>,
  \<open>EnqueueAgain\<close> or \<open>DequeueAgain\<close>.
\<close>

definition with_objects :: "list_ref set \<Rightarrow> ('a \<times> 's, 's) res \<Rightarrow> ('s \<times> list_ref set, 's) res" where
  "with_objects L r = res_bind r (\<lambda>(_, s). Ret (s, L))"

fun exec :: "(u32 \<Rightarrow> u8) \<Rightarrow> event \<Rightarrow> 'z mutex_kernel_scheme \<Rightarrow> list_ref set \<Rightarrow> ('z mutex_kernel_scheme \<times> list_ref set, 'z) mres" where
  "exec clz (Create entry argument stack words prio) s L = with_objects L (artos_task_create entry argument stack words prio s)"
| "exec clz Start s L = with_objects L (artos_start clz s)"
| "exec clz Tick s L = res_bind (SysTick_Handler s) (\<lambda>s. Ret (s, L))"
| "exec clz (Switch sp) s L = with_objects L (rtos_scheduler_switch_context clz sp s)"
| "exec clz (Wait n) s L = res_bind (artos_wait n s) (\<lambda>s. Ret (s, L))"
| "exec clz (WaitUntil w) s L = res_bind (artos_wait_until w s) (\<lambda>s. Ret (s, L))"
| "exec clz Yield s L = Ret (artos_yield s, L)"
| "exec clz YieldIsr s L = Ret (artos_yield_from_isr s, L)"
| "exec clz (BinaryInit n initially_available) s L =
     (let (h, s) = artos_binary_semaphore_init (Some n) initially_available s in Ret (s, insert (SemWaitL n) L))"
| "exec clz (SemInit n max_count initial_count) s L =
     (let (h, s) = artos_counting_semaphore_init (Some n) max_count initial_count s
      in Ret (s, if h = None then L else insert (SemWaitL n) L))"
| "exec clz (SemTake n timeout) s L = with_objects L (semaphore_take_enter n timeout s)"
| "exec clz (SemSignal n) s L = with_objects L (artos_semaphore_signal (Some n) s)"
| "exec clz (SemTakeIsr n) s L = with_objects L (Ret (artos_semaphore_take_isr (Some n) s))"
| "exec clz (SemSignalIsr n flag) s L = res_bind (artos_semaphore_signal_isr (Some n) flag s) (\<lambda>(_, _, s). Ret (s, L))"
| "exec clz (QueueInit n storage item_size capacity) s L =
     (let (h, s) = artos_queue_init (Some n) storage item_size capacity s
      in Ret (s, if h = None then L else {QueueReadL n, QueueWriteL n} \<union> L))"
| "exec clz (Enqueue n data timeout) s L = with_objects L (enqueue_enter n data timeout s)"
| "exec clz (Dequeue n dst timeout) s L = with_objects L (dequeue_enter n dst timeout s)"
| "exec clz (EnqueueAgain n data wake forever) s L = with_objects L (enqueue_again n data wake forever s)"
| "exec clz (DequeueAgain n dst wake forever) s L = with_objects L (dequeue_again n dst wake forever s)"
| "exec clz (EnqueueIsr n data flag) s L = res_bind (artos_queue_enqueue_from_isr (Some n) data flag s) (\<lambda>(_, _, s). Ret (s, L))"
| "exec clz (DequeueIsr n dst flag) s L = res_bind (artos_queue_dequeue_from_isr (Some n) dst flag s) (\<lambda>(_, _, s). Ret (s, L))"
| "exec clz (MutexInit n) s L = (let (h, s) = artos_mutex_init (Some n) s in Ret (s, insert (MutexLockL n) L))"
| "exec clz (Lock n timeout) s L = with_objects L (mutex_lock_enter n timeout s)"
| "exec clz (LockResume n) s L = with_objects L (mutex_lock_resume n s)"
| "exec clz (Unlock n) s L = with_objects L (artos_mutex_unlock (Some n) s)"
| "exec clz ClearReason s L = Ret (rtos_clear_current_wait_reason s, L)"
| "exec clz (WriteStack a v) s L = Ret (s\<lparr>stack_mem := (stack_mem s)(a := v)\<rparr>, L)"
| "exec clz (WriteMem a v) s L = Ret (s\<lparr>mem := (mem s)(a := v)\<rparr>, L)"

text \<open>
  When an event can happen in a well-behaved application: blocking calls and those on mutexes come from a running task,
  objects are initialised once and before they are used, queue storage and the destinations of dequeued items do not overlap,
  and a context switch finds the stack of the running task intact. Interrupt-level calls and
  ticks can come at any time, also while a blocked task has not yet been switched out.
\<close>

definition in_task :: "'z kernel_scheme \<Rightarrow> bool" where
  "in_task s \<longleftrightarrow> (\<exists>t. running s t)"

definition queue_created :: "list_ref set \<Rightarrow> nat \<Rightarrow> bool" where
  "queue_created L n \<longleftrightarrow> QueueReadL n \<in> L \<and> QueueWriteL n \<in> L"

definition clear_of_queues :: "u32 \<Rightarrow> nat \<Rightarrow> list_ref set \<Rightarrow> 'z queue_kernel_scheme \<Rightarrow> bool" where
  "clear_of_queues a len L s \<longleftrightarrow> (\<forall>k. queue_created L k \<longrightarrow> region a len \<inter> queue_region (queues s k) = {})"

fun enabled :: "event \<Rightarrow> 'z mutex_kernel_scheme \<Rightarrow> list_ref set \<Rightarrow> bool" where
  "enabled Start s L \<longleftrightarrow> cur_task s = None"
| "enabled (Switch sp) s L \<longleftrightarrow> sp \<noteq> 0 \<and> (\<exists>c. cur_task s = Some c \<and> artos_task_stack_valid (tcbs s c) sp s)"
| "enabled (Wait n) s L \<longleftrightarrow> in_task s"
| "enabled (WaitUntil w) s L \<longleftrightarrow> in_task s"
| "enabled (BinaryInit n initially_available) s L \<longleftrightarrow> SemWaitL n \<notin> L"
| "enabled (SemInit n max_count initial_count) s L \<longleftrightarrow> SemWaitL n \<notin> L"
| "enabled (SemTake n timeout) s L \<longleftrightarrow> in_task s \<and> SemWaitL n \<in> L"
| "enabled (SemSignal n) s L \<longleftrightarrow> SemWaitL n \<in> L"
| "enabled (SemTakeIsr n) s L \<longleftrightarrow> SemWaitL n \<in> L"
| "enabled (SemSignalIsr n flag) s L \<longleftrightarrow> SemWaitL n \<in> L"
| "enabled (QueueInit n storage item_size capacity) s L \<longleftrightarrow>
     QueueReadL n \<notin> L \<and> QueueWriteL n \<notin> L \<and> clear_of_queues storage (unat item_size * unat capacity) L s"
| "enabled (Enqueue n data timeout) s L \<longleftrightarrow> in_task s \<and> queue_created L n"
| "enabled (Dequeue n dst timeout) s L \<longleftrightarrow>
     in_task s \<and> queue_created L n \<and> clear_of_queues dst (unat (q_item_size (queues s n))) L s"
| "enabled (EnqueueAgain n data wake forever) s L \<longleftrightarrow> in_task s \<and> queue_created L n \<and> (forever \<longrightarrow> wake = ARTOS_DELAY_INFINITY)"
| "enabled (DequeueAgain n dst wake forever) s L \<longleftrightarrow>
     in_task s \<and> queue_created L n \<and> (forever \<longrightarrow> wake = ARTOS_DELAY_INFINITY) \<and>
     clear_of_queues dst (unat (q_item_size (queues s n))) L s"
| "enabled (EnqueueIsr n data flag) s L \<longleftrightarrow> queue_created L n"
| "enabled (DequeueIsr n dst flag) s L \<longleftrightarrow> queue_created L n \<and> clear_of_queues dst (unat (q_item_size (queues s n))) L s"
| "enabled (MutexInit n) s L \<longleftrightarrow> MutexLockL n \<notin> L"
| "enabled (Lock n timeout) s L \<longleftrightarrow> in_task s \<and> MutexLockL n \<in> L"
| "enabled (LockResume n) s L \<longleftrightarrow> MutexLockL n \<in> L"
| "enabled (Unlock n) s L \<longleftrightarrow> in_task s \<and> MutexLockL n \<in> L"
| "enabled e s L \<longleftrightarrow> True"

text \<open>The states an application can bring the kernel to, from start-up on; what the state holds besides the kernel can change at any time.\<close>

inductive reachable :: "(u32 \<Rightarrow> u8) \<Rightarrow> 'z mutex_kernel_scheme \<Rightarrow> list_ref set \<Rightarrow> bool" for clz where
  boot: "pool_bounded s \<Longrightarrow> reachable clz (artos_init s) {}"
| event: "reachable clz s L \<Longrightarrow> enabled e s L \<Longrightarrow> exec clz e s L = Ret (s', L') \<Longrightarrow> reachable clz s' L'"
| outside: "reachable clz s L \<Longrightarrow> reachable clz (mutex_kernel.more_update f s) L"

section \<open>Invariant and progress\<close>

definition system_ok :: "'z mutex_kernel_scheme \<Rightarrow> list_ref set \<Rightarrow> bool" where
  "system_ok s L \<longleftrightarrow> (\<exists>C. minv s C \<and> objects_of C = L) \<and> placed s"

lemma created_live:
  assumes "objects_of C = L"
  shows "is_wait_list l \<Longrightarrow> l \<in> L \<longleftrightarrow> C l \<noteq> None" "queue_created L n \<longleftrightarrow> queue_live C n" "MutexLockL n \<in> L \<longleftrightarrow> mutex_live C n"
  using assms by (auto simp: objects_of_def queue_created_def queue_live_def mutex_live_def)

lemma minv_memory [simp]: "minv (s\<lparr>stack_mem := f\<rparr>) C = minv s C" "minv (s\<lparr>mem := g\<rparr>) C = minv s C"
proof -
  show "minv (s\<lparr>stack_mem := f\<rparr>) C = minv s C"
    by (simp add: minv_def qinv_def sinv_def sem_abs_def mutex_ok_def held_ok_def held_by_def owner_of_def user_task_def)
  show "minv (s\<lparr>mem := g\<rparr>) C = minv s C"
    by (simp add: minv_def qinv_def mutex_ok_def held_ok_def held_by_def owner_of_def user_task_def)
qed

lemma kinv_outside [simp]:
  "kinv (mutex_kernel.more_update f s) C = kinv s C" "tick_ok (mutex_kernel.more_update f s) C = tick_ok s C"
  by (rule kinv_cong) (simp_all add: tick_ok_def)

lemma minv_outside [simp]: "minv (mutex_kernel.more_update f s) C = minv s C"
  by (simp add: minv_def qinv_def sinv_def sem_abs_def mutex_ok_def held_ok_def held_by_def owner_of_def user_task_def)

text \<open>Events that leave the ready tasks in their order: all but context switches and calls on mutexes.\<close>

fun keeps_order :: "event \<Rightarrow> bool" where
  "keeps_order Start \<longleftrightarrow> False"
| "keeps_order (Switch sp) \<longleftrightarrow> False"
| "keeps_order (Lock n timeout) \<longleftrightarrow> False"
| "keeps_order (LockResume n) \<longleftrightarrow> False"
| "keeps_order (Unlock n) \<longleftrightarrow> False"
| "keeps_order e \<longleftrightarrow> True"

text \<open>The object whose control block, or whose owner, an event can change; the wait lists from which it can release a task.\<close>

fun concerns :: "event \<Rightarrow> 'z mutex_kernel_scheme \<Rightarrow> list_ref set" where
  "concerns (BinaryInit n initially_available) s = {SemWaitL n}"
| "concerns (SemInit n max_count initial_count) s = {SemWaitL n}"
| "concerns (SemTake n timeout) s = {SemWaitL n}"
| "concerns (SemSignal n) s = {SemWaitL n}"
| "concerns (SemTakeIsr n) s = {SemWaitL n}"
| "concerns (SemSignalIsr n flag) s = {SemWaitL n}"
| "concerns (QueueInit n storage item_size capacity) s = {QueueReadL n}"
| "concerns (MutexInit n) s = {MutexLockL n}"
| "concerns (Lock n timeout) s = (if owner_of s n = None then {MutexLockL n} else {})"
| "concerns (Unlock n) s = (if owner_of s n = cur_task s then {MutexLockL n} else {})"
| "concerns e s = {}"

fun releases :: "event \<Rightarrow> list_ref set" where
  "releases (SemSignal n) = {SemWaitL n}"
| "releases (SemSignalIsr n flag) = {SemWaitL n}"
| "releases (Enqueue n data timeout) = {QueueReadL n}"
| "releases (EnqueueAgain n data wake forever) = {QueueReadL n}"
| "releases (EnqueueIsr n data flag) = {QueueReadL n}"
| "releases (Dequeue n dst timeout) = {QueueWriteL n}"
| "releases (DequeueAgain n dst wake forever) = {QueueWriteL n}"
| "releases (DequeueIsr n dst flag) = {QueueWriteL n}"
| "releases (Unlock n) = {MutexLockL n}"
| "releases e = {}"

definition served_by :: "(u32 \<Rightarrow> u8) \<Rightarrow> event \<Rightarrow> 'z mutex_kernel_scheme \<Rightarrow> list_view \<Rightarrow> list_ref set \<Rightarrow> bool" where
  "served_by clz e s C L \<longleftrightarrow>
     (\<exists>s' C'. exec clz e s L = Ret (s', objects_of C') \<and> minv s' C' \<and> placed s' \<and> (keeps_order e \<longrightarrow> ready_grows C C') \<and>
        touches (concerns e s) s s' \<and> (if e = Tick then ticked s s' else undisturbed (releases e) s s'))"

lemma served_byI:
  assumes "exec clz e s L = Ret (s', L)" "steady (concerns e s) (releases e) s C s' C'" "objects_of C = L" "placed s" "e \<noteq> Tick"
  shows "served_by clz e s C L"
  using assms by (auto simp: served_by_def steady_def serves_def same_live_objects intro: exI[of _ C'])

lemma served_by_switch:
  assumes "exec clz e s L = Ret (s', L)" "serves (concerns e s) (releases e) s C s' C'" "\<not> keeps_order e" "objects_of C = L" "placed s"
  shows "served_by clz e s C L"
  using assms by (cases e) (auto simp: served_by_def serves_def same_live_objects intro: exI[of _ C'])

lemma served_by_init:
  assumes "exec clz e s L = Ret (s', objects_of C')" "minv s' C'" "keeps_tasks (releases e) s s'" "ready_grows C C'" "touches (concerns e s) s s'"
    "placed s" "e \<noteq> Tick"
  shows "served_by clz e s C L"
  using assms keeps_placed[OF assms(3)] by (auto simp: served_by_def keeps_tasks_def)

lemma call_served:
  assumes "exec clz e s L = with_objects L call" "\<exists>r s' C'. call = Ret (r, s') \<and> steady (concerns e s) (releases e) s C s' C'" "objects_of C = L"
    "placed s" "e \<noteq> Tick"
  shows "served_by clz e s C L"
  using assms served_byI by (fastforce simp: with_objects_def)

lemma mutex_call_served:
  assumes "exec clz e s L = with_objects L call" "\<exists>r s' C'. call = Ret (r, s') \<and> serves (concerns e s) (releases e) s C s' C'" "\<not> keeps_order e"
    "objects_of C = L" "placed s"
  shows "served_by clz e s C L"
  using assms served_by_switch by (fastforce simp: with_objects_def)

lemma steady_memory: "minv s C \<Longrightarrow> steady {} {} s C (s\<lparr>stack_mem := f\<rparr>) C" "minv s C \<Longrightarrow> steady {} {} s C (s\<lparr>mem := g\<rparr>) C"
  by (simp_all add: steady_def serves_def placed_def user_task_def touches_def undisturbed_same owner_of_def)

lemma binary_is_counting:
  "artos_counting_semaphore_init (Some n) 1 (if a then 1 else 0) s = artos_binary_semaphore_init (Some n) a s"
  "fst (artos_binary_semaphore_init (Some n) a s) = Some n"
  by (simp_all add: artos_counting_semaphore_init_def artos_binary_semaphore_init_def Let_def)

lemma scheduler_events:
  assumes inv: "minv s C" and L: "objects_of C = L" and P: "placed s" and clz: "clz_spec clz"
  shows "served_by clz (Create en ar st wo pr) s C L" "cur_task s = None \<Longrightarrow> served_by clz Start s C L" "served_by clz Tick s C L"
    "enabled (Switch sp) s L \<Longrightarrow> served_by clz (Switch sp) s C L" "served_by clz Yield s C L" "served_by clz YieldIsr s C L"
    "in_task s \<Longrightarrow> served_by clz (Wait n) s C L" "in_task s \<Longrightarrow> served_by clz (WaitUntil w) s C L"
    "served_by clz ClearReason s C L" "served_by clz (WriteStack a v) s C L" "served_by clz (WriteMem b x) s C L"
proof -
  note I = served_byI[OF _ _ L P] and S = served_by_switch[OF _ _ _ L P]
  show "served_by clz (Create en ar st wo pr) s C L"
    using create_minv[OF inv, of en ar st wo pr] by (auto intro!: I simp: with_objects_def)
  show "served_by clz Start s C L" if "cur_task s = None"
    using start_minv[OF inv clz that] by (auto intro!: S simp: with_objects_def)
  show "served_by clz Tick s C L"
  proof -
    obtain s' C' where "rtos_tick_handler s = Ret s'" "minv s' C'" "same_live C C'" "placed s \<longrightarrow> placed s'" "touches {} s s'"
        "ready_grows C C'" "ticked s s'"
      using tick_minv[OF inv] by blast
    then show ?thesis using P L
      by (simp add: served_by_def SysTick_Handler_def same_live_objects) (rule exI[of _ C'], simp)
  qed
  show "served_by clz (Switch sp) s C L" if e: "enabled (Switch sp) s L"
  proof -
    obtain c where "cur_task s = Some c" "sp \<noteq> 0" "artos_task_stack_valid (tcbs s c) sp s" using e by auto
    from switch_minv[OF inv clz this] show ?thesis by (auto intro!: S simp: with_objects_def)
  qed
  have "steady {} {} s C (rtos_port_request_context_switch s) C" using inv by (intro steadyI) (simp_all add: touches_objects)
  then show "served_by clz Yield s C L" "served_by clz YieldIsr s C L"
    by (auto intro!: I[of _ _ "rtos_port_request_context_switch s" C] simp: artos_yield_def artos_yield_from_isr_def
        rtos_port_request_context_switch_def rtos_port_request_context_switch_from_isr_def)
  show "served_by clz (Wait n) s C L" "served_by clz (WaitUntil w) s C L" if i: "in_task s"
  proof -
    obtain t where "running s t" using i by (auto simp: in_task_def)
    from wait_minv(1)[OF inv this, of n] wait_minv(2)[OF inv this, of w] show "served_by clz (Wait n) s C L" "served_by clz (WaitUntil w) s C L" by (auto intro!: I)
  qed
  show "served_by clz ClearReason s C L" by (rule I[where C' = C]) (use clear_steady[OF inv] in simp_all)
  show "served_by clz (WriteStack a v) s C L" by (rule I[where C' = C]) (use steady_memory(1)[OF inv] in simp_all)
  show "served_by clz (WriteMem b x) s C L" by (rule I[where C' = C]) (use steady_memory(2)[OF inv] in simp_all)
qed

lemma semaphore_events:
  assumes inv: "minv s C" and L: "objects_of C = L" and P: "placed s"
  shows "SemWaitL n \<notin> L \<Longrightarrow> served_by clz (BinaryInit n a) s C L" "SemWaitL n \<notin> L \<Longrightarrow> served_by clz (SemInit n m i) s C L" "in_task s \<Longrightarrow> SemWaitL n \<in> L \<Longrightarrow> served_by clz (SemTake n d) s C L"
    "SemWaitL n \<in> L \<Longrightarrow> served_by clz (SemSignal n) s C L" "SemWaitL n \<in> L \<Longrightarrow> served_by clz (SemTakeIsr n) s C L"
    "SemWaitL n \<in> L \<Longrightarrow> served_by clz (SemSignalIsr n flag) s C L"
proof -
  note I = served_byI[OF _ _ L P] and live = created_live(1)[OF L, of "SemWaitL n"]
  show init: "served_by clz (SemInit n m i) s C L" if new: "SemWaitL n \<notin> L" for m i
  proof -
    obtain h s' C' where "artos_counting_semaphore_init (Some n) m i s = (h, s')" "minv s' C'" "keeps_tasks {} s s'"
        "objects_of C' = (if h = None then L else insert (SemWaitL n) L)" "ready_grows C C'" "touches {SemWaitL n} s s'"
      using sem_init_minv[OF inv, of n m i] new live L by auto
    then show ?thesis using P by (intro served_by_init) simp_all
  qed
  show "served_by clz (BinaryInit n a) s C L" if "SemWaitL n \<notin> L"
    using init[OF that, of 1 "if a then 1 else 0"] by (simp add: served_by_def binary_is_counting split_beta)
  have n: "C (SemWaitL n) \<noteq> None" if "SemWaitL n \<in> L" using live that by simp
  show "served_by clz (SemTake n d) s C L" if t: "in_task s" "SemWaitL n \<in> L"
    by (rule call_served[OF _ _ L P _], rule exec.simps) (use take_minv(1)[OF inv n[OF t(2)]] t(1) in \<open>auto simp: in_task_def\<close>)
  show "served_by clz (SemSignal n) s C L" "served_by clz (SemTakeIsr n) s C L" "served_by clz (SemSignalIsr n flag) s C L" if "SemWaitL n \<in> L"
    using signal_minv(1)[OF inv n[OF that]] signal_minv(2)[OF inv n[OF that], of flag] take_minv(2)[OF inv n[OF that]] by (auto intro!: I simp: with_objects_def)
qed

lemma queue_events:
  assumes inv: "minv s C" and L: "objects_of C = L" and P: "placed s"
  shows "enabled (QueueInit n st sz c) s L \<Longrightarrow> served_by clz (QueueInit n st sz c) s C L"
    "enabled (Enqueue n a d) s L \<Longrightarrow> served_by clz (Enqueue n a d) s C L" "enabled (Dequeue n a d) s L \<Longrightarrow> served_by clz (Dequeue n a d) s C L"
    "enabled (EnqueueAgain n a w f) s L \<Longrightarrow> served_by clz (EnqueueAgain n a w f) s C L"
    "enabled (DequeueAgain n a w f) s L \<Longrightarrow> served_by clz (DequeueAgain n a w f) s C L"
    "enabled (EnqueueIsr n a flag) s L \<Longrightarrow> served_by clz (EnqueueIsr n a flag) s C L"
    "enabled (DequeueIsr n a flag) s L \<Longrightarrow> served_by clz (DequeueIsr n a flag) s C L"
proof -
  note I = served_byI[OF _ _ L P] and live = created_live(1,2)[OF L]
  have d: "\<forall>k. queue_live C k \<longrightarrow> region b len \<inter> queue_region (queues s k) = {}" if "clear_of_queues b len L s" for b len
    using that live(2) by (auto simp: clear_of_queues_def)
  show "served_by clz (QueueInit n st sz c) s C L" if new: "enabled (QueueInit n st sz c) s L"
  proof -
    obtain h s' C' where "artos_queue_init (Some n) st sz c s = (h, s')" "minv s' C'" "keeps_tasks {} s s'"
        "objects_of C' = (if h = None then L else {QueueReadL n, QueueWriteL n} \<union> L)" "ready_grows C C'"
        "touches {QueueReadL n} s s'"
      using queue_init_minv[OF inv _ _ d, of n st sz c] new live(1)[of "QueueReadL n"] live(1)[of "QueueWriteL n"] L by auto
    then show ?thesis using P by (intro served_by_init) simp_all
  qed
  show "served_by clz (Enqueue n a d) s C L" if "enabled (Enqueue n a d) s L"
    by (rule call_served[OF _ _ L P _], rule exec.simps) (use enqueue_minv[OF inv, of _ n a d] that live(2)[of n] in \<open>auto simp: in_task_def\<close>)
  show "served_by clz (Dequeue n a d) s C L" if "enabled (Dequeue n a d) s L"
    by (rule call_served[OF _ _ L P _], rule exec.simps) (use dequeue_minv[OF inv _ _ d, of _ n a d] that live(2)[of n] in \<open>auto simp: in_task_def\<close>)
  show "served_by clz (EnqueueAgain n a w f) s C L" if "enabled (EnqueueAgain n a w f) s L"
    by (rule call_served[OF _ _ L P _], rule exec.simps) (use again_minv(1)[OF inv, of _ n f w a] that live(2)[of n] in \<open>auto simp: in_task_def\<close>)
  show "served_by clz (DequeueAgain n a w f) s C L" if "enabled (DequeueAgain n a w f) s L"
    by (rule call_served[OF _ _ L P _], rule exec.simps) (use again_minv(2)[OF inv _ _ _ d, of _ n f w a] that live(2)[of n] in \<open>auto simp: in_task_def\<close>)
  show "served_by clz (EnqueueIsr n a flag) s C L" if "enabled (EnqueueIsr n a flag) s L"
    using enqueue_isr_minv[OF inv, of n a flag] that live(2)[of n] by (auto intro!: I)
  show "served_by clz (DequeueIsr n a flag) s C L" if "enabled (DequeueIsr n a flag) s L"
    using dequeue_isr_minv[OF inv _ d, of n a flag] that live(2)[of n] by (auto intro!: I)
qed

lemma mutex_events:
  assumes inv: "minv s C" and L: "objects_of C = L" and P: "placed s"
  shows "MutexLockL n \<notin> L \<Longrightarrow> served_by clz (MutexInit n) s C L" "in_task s \<Longrightarrow> MutexLockL n \<in> L \<Longrightarrow> served_by clz (Lock n d) s C L"
    "MutexLockL n \<in> L \<Longrightarrow> served_by clz (LockResume n) s C L" "in_task s \<Longrightarrow> MutexLockL n \<in> L \<Longrightarrow> served_by clz (Unlock n) s C L"
proof -
  note I = served_by_switch[OF _ _ _ L P] and live = created_live(3)[OF L, of n]
  have lk: "\<exists>r s' C'. mutex_lock_enter n d s = Ret (r, s') \<and> serves (concerns (Lock n d) s) {} s C s' C'"
      "\<exists>r s' C'. artos_mutex_unlock (Some n) s = Ret (r, s') \<and> serves (concerns (Unlock n) s) {MutexLockL n} s C s' C'"
    if r: "running s t" "mutex_live C n" for t
  proof -
    obtain r s' C' where l: "mutex_lock_enter n d s = Ret (r, s')" "minv s' C'" "same_live C C'" "keeps_tasks {} s s'" "same_objects s s'"
        "\<forall>k. owner_of s' k \<noteq> owner_of s k \<longrightarrow> k = n \<and> owner_of s n = None"
      using lock_enter_minv[OF inv r, of d] by blast
    have "touches (concerns (Lock n d) s) s s'" by (rule touches_objects[OF l(5)]) (use l(6) in auto)
    then show "\<exists>r s' C'. mutex_lock_enter n d s = Ret (r, s') \<and> serves (concerns (Lock n d) s) {} s C s' C'" using l(1) servesI[OF l(2-4)] by blast
    obtain r s' C' where u: "artos_mutex_unlock (Some n) s = Ret (r, s')" "minv s' C'" "same_live C C'" "keeps_tasks {MutexLockL n} s s'" "same_objects s s'"
        "\<forall>k. owner_of s' k \<noteq> owner_of s k \<longrightarrow> k = n \<and> owner_of s n = cur_task s"
      using unlock_minv[OF inv r] by blast
    have "touches (concerns (Unlock n) s) s s'" by (rule touches_objects[OF u(5)]) (use u(6) in auto)
    then show "\<exists>r s' C'. artos_mutex_unlock (Some n) s = Ret (r, s') \<and> serves (concerns (Unlock n) s) {MutexLockL n} s C s' C'"
      using u(1) servesI[OF u(2-4)] by blast
  qed
  show "served_by clz (MutexInit n) s C L" if "MutexLockL n \<notin> L"
    using minv_new_mutex[OF inv, of n] that live L P ready_grows_same[of "C(MutexLockL n \<mapsto> [])" C]
    by (intro served_by_init[where s' = "(set_owner_of n None s)\<lparr>lists := rtos_init_list (Some (MutexLockL n)) (lists s)\<rparr>"])
       (simp_all add: artos_mutex_init_def mutex_live_def objects_new keeps_tasks_defs init_list_cont init_list_val touches_objects)
  show "served_by clz (Lock n d) s C L" if "in_task s" "MutexLockL n \<in> L"
    by (rule mutex_call_served[OF _ _ _ L P], rule exec.simps) (use lk(1) that live in \<open>auto simp: in_task_def\<close>)
  show "served_by clz (Unlock n) s C L" if "in_task s" "MutexLockL n \<in> L"
    by (rule mutex_call_served[OF _ _ _ L P], rule exec.simps) (use lk(2) that live in \<open>auto simp: in_task_def\<close>)
  show "served_by clz (LockResume n) s C L" if m: "MutexLockL n \<in> L"
  proof -
    obtain r s' C' where "mutex_lock_resume n s = Ret (r, s')" "minv s' C'" "owner_of s' = owner_of s" "same_live C C'" "keeps_tasks {} s s'" "same_objects s s'"
      using lock_resume_runs[OF inv, of n] m live by blast
    then show ?thesis using servesI[of s' C' C "{}" s "{}"] touches_objects[of s s' "{}"] by (intro I[of _ _ s' C']) (simp_all add: with_objects_def)
  qed
qed

lemma event_served_by:
  assumes C: "minv s C" "objects_of C = L" "placed s" and e: "enabled e s L" and clz: "clz_spec clz"
  shows "served_by clz e s C L"
  using e scheduler_events[OF C clz] semaphore_events[OF C] queue_events[OF C] mutex_events[OF C] by (cases e) auto

lemma event_served:
  assumes "system_ok s L" "enabled e s L" "clz_spec clz"
  shows "\<exists>s' L'. exec clz e s L = Ret (s', L') \<and> system_ok s' L'"
proof -
  obtain C where C: "minv s C" "objects_of C = L" "placed s" using assms(1) by (auto simp: system_ok_def)
  from event_served_by[OF this assms(2,3)] show ?thesis by (auto simp: served_by_def system_ok_def)
qed

lemma reachable_ok: "reachable clz s L \<Longrightarrow> clz_spec clz \<Longrightarrow> system_ok s L"
proof (induction rule: reachable.induct)
  case (boot s)
  have "objects_of boot_view = {}" by (auto simp: objects_of_def boot_view_def split: list_ref.splits)
  moreover have "tsk_cnt (rtos_system_init s) = 0" using system_init_kinv[OF boot(1)] by simp
  ultimately show ?case using boot_minv[OF boot(1)] by (auto simp: system_ok_def artos_init_def placed_def user_task_def)
next
  case (event s L e s' L')
  then show ?case using event_served[of s L e clz] by auto
next
  case (outside s L f)
  then show ?case by (simp add: system_ok_def placed_def user_task_def)
qed

text \<open>
  \<^bold>\<open>C1.\<close> The kernel never fails: in every state that a well-behaved application can reach from start-up, each further
  call, interrupt or context switch returns. No assertion of the kernel fails, no loop over a list runs on forever,
  and no pointer is followed that is NULL; and the state after it is reachable again, so this holds forever.
\<close>

theorem kernel_never_fails:
  assumes "clz_spec clz" "reachable clz s L" "enabled e s L"
  shows "\<exists>s' L'. exec clz e s L = Ret (s', L') \<and> reachable clz s' L'"
  using event_served[OF reachable_ok[OF assms(2,1)] assms(3,1)] reachable.event[OF assms(2,3)] by blast

section \<open>What holds in every reachable state\<close>

lemma system_okE:
  assumes "system_ok s L"
  obtains C where "minv s C" "objects_of C = L" "placed s"
  using assms by (auto simp: system_ok_def)

lemma ready_bit:
  assumes "kinv s C" "cont (lists s) (StateItem t) = Some (ReadyL p)"
  shows "bit (ready_bitmap s) p"
proof -
  obtain xs where "C (ReadyL p) = Some xs" "StateItem t \<in> set xs"
    using rl.member[OF kinv_wf[OF assms(1)], of "StateItem t"] assms(2) by auto
  then show ?thesis using assms(1) by (auto simp: kinv_def bitmap_ok_def)
qed

lemma waits_for_object:
  assumes "kinv s C" "user_task s t" "cont (lists s) (EventItem t) = Some l"
  shows "l \<in> objects_of C"
proof -
  have "is_wait_list l" using kinv_task[OF assms(1,2)] assms(3) by (simp add: task_ok_def)
  then show ?thesis using rl.member[OF kinv_wf[OF assms(1)], of "EventItem t" l] assms(3) by (auto simp: objects_of_def)
qed

text \<open>
  \<^bold>\<open>C2.\<close> In every reachable state each created task is well-formed and accounted for. Its effective priority is one of
  the configured ones and not below its base priority. It is running, or in the ready list of its effective priority with the bit of that
  list set in the ready bitmap, or delayed, or suspended: no task is ever lost. It waits for an object only if that object
  has been created and only while it is blocked, at the place its effective priority gives it.
\<close>

theorem reachable_tasks_ok:
  assumes "clz_spec clz" "reachable clz s L" "user_task s t"
  shows "priority (tcbs s t) \<le> effective_priority (tcbs s t) \<and> unat (effective_priority (tcbs s t)) < ARTOS_PRIORITY_COUNT \<and>
    (case cont (lists s) (StateItem t) of
       None \<Rightarrow> cur_task s = Some t
     | Some (ReadyL p) \<Rightarrow> p = unat (effective_priority (tcbs s t)) \<and> bit (ready_bitmap s) p
     | Some k \<Rightarrow> k \<in> {DelayedL, DelayedOverflowL, SuspendL}) \<and>
    (\<forall>l. cont (lists s) (EventItem t) = Some l \<longrightarrow>
       l \<in> L \<and> cont (lists s) (StateItem t) \<in> Some ` {DelayedL, DelayedOverflowL, SuspendL} \<and>
       val (lists s) (EventItem t) = ucast (effective_priority (tcbs s t)))"
proof -
  obtain C where C: "minv s C" "objects_of C = L" "placed s" using reachable_ok[OF assms(2,1)] by (rule system_okE)
  note k = minvD(5)[OF C(1)]
  have t: "task_ok s t" by (rule kinv_task[OF k assms(3)])
  have "cur_task s = Some t" if "cont (lists s) (StateItem t) = None" using C(3) assms(3) that by (simp add: placed_def)
  moreover have "l \<in> L" if "cont (lists s) (EventItem t) = Some l" for l using waits_for_object[OF k assms(3) that] C(2) by simp
  ultimately show ?thesis using t ready_bit[OF k, of t]
    by (auto simp: task_ok_def blocked_list_def split: option.splits list_ref.splits)
qed

lemma semaphore_consistent:
  assumes "minv s C" "C (SemWaitL n) \<noteq> None"
  shows "0 < sem_max (sems s n) \<and> sem_count (sems s n) \<le> sem_max (sems s n) \<and>
         (\<forall>u. cont (lists s) (EventItem u) = Some (SemWaitL n) \<longrightarrow> sem_count (sems s n) = 0)"
proof -
  have "sem_wf (sem_abs s C n)" using minvD(4)[OF assms(1)] assms(2) by (simp add: sinv_def)
  then show ?thesis using waiting_iff[OF minvD(5)[OF assms(1)] _ assms(2)]
    by (auto simp: sem_wf_def sem_abs_def word_le_nat_alt word_less_nat_alt unat_gt_0)
qed

lemma queue_consistent:
  assumes "minv s C" "queue_live C n"
  shows "q_count (queues s n) \<le> q_capacity (queues s n) \<and>
         q_read_index (queues s n) < q_capacity (queues s n) \<and> q_write_index (queues s n) < q_capacity (queues s n)"
  using qinvD(2)[OF minvD(1)[OF assms(1)] assms(2)] by (auto simp: queue_wf_def word_less_nat_alt unat_gt_0)

lemma mutex_consistent:
  assumes "minv s C" "mutex_live C n"
  shows "(\<forall>t. owner_of s n = Some t \<longrightarrow> user_task s t) \<and>
         (\<forall>u. cont (lists s) (EventItem u) = Some (MutexLockL n) \<longrightarrow> owner_of s n \<noteq> None \<and> owner_of s n \<noteq> Some u)"
proof -
  have "C (MutexLockL n) \<noteq> None" using assms(2) by (simp add: mutex_live_def)
  from waiting_iff[OF minvD(5)[OF assms(1)] _ this] show ?thesis
    using minvD(2)[OF assms] by (auto simp: mutex_ok_def lockers_def)
qed

text \<open>
  \<^bold>\<open>C3.\<close> In every reachable state the objects are consistent with their waiters and owners. A semaphore's count is within its
  limit and a task waits for it only if the count is zero. A queue's count and indices are within its capacity. A task waits
  for a mutex only if another task owns it, an owner is a created task, and the count in each task control block is the
  number of mutexes the task owns.
\<close>

theorem reachable_objects_ok:
  assumes "clz_spec clz" "reachable clz s L"
  shows "(\<forall>n. SemWaitL n \<in> L \<longrightarrow> 0 < sem_max (sems s n) \<and> sem_count (sems s n) \<le> sem_max (sems s n) \<and>
           (\<forall>u. cont (lists s) (EventItem u) = Some (SemWaitL n) \<longrightarrow> sem_count (sems s n) = 0)) \<and>
    (\<forall>n. queue_created L n \<longrightarrow> q_count (queues s n) \<le> q_capacity (queues s n) \<and>
       q_read_index (queues s n) < q_capacity (queues s n) \<and> q_write_index (queues s n) < q_capacity (queues s n)) \<and>
    (\<forall>n. MutexLockL n \<in> L \<longrightarrow> (\<forall>t. owner_of s n = Some t \<longrightarrow> user_task s t) \<and>
       (\<forall>u. cont (lists s) (EventItem u) = Some (MutexLockL n) \<longrightarrow> owner_of s n \<noteq> None \<and> owner_of s n \<noteq> Some u)) \<and>
    (\<forall>t. user_task s t \<longrightarrow> card {n. MutexLockL n \<in> L \<and> owner_of s n = Some t} = unat (mutexes_held (tcbs s t)))"
proof -
  obtain C where C: "minv s C" "objects_of C = L" using reachable_ok[OF assms(2,1)] by (rule system_okE)
  note live = created_live[OF C(2)]
  have "card {n. MutexLockL n \<in> L \<and> owner_of s n = Some t} = unat (mutexes_held (tcbs s t))" if "user_task s t" for t
    using minvD(3)[OF C(1) that] live(3) by (simp add: held_ok_def held_by_def)
  then show ?thesis
    using semaphore_consistent[OF C(1)] queue_consistent[OF C(1)] mutex_consistent[OF C(1)] live by simp
qed

text \<open>The task a context switch selects has the highest priority of those left ready.\<close>

lemma scheduled_highest:
  assumes k: "kinv s' C'" and h: "scheduled R n C'" and u: "cont (lists s') (StateItem u) = Some (ReadyL q)"
  shows "\<exists>p xs. highest_ready R p n xs \<and> q \<le> p"
proof -
  have "\<exists>ys. C' (ReadyL q) = Some ys \<and> StateItem u \<in> set ys"
    using rl.member[OF kinv_wf[OF k], of "StateItem u" "ReadyL q"] u by simp
  then have "R (ReadyL q) \<notin> {None, Some []}"
    using h by (auto simp: scheduled_def highest_ready_def none_ready_def split: if_splits)
  then show ?thesis using h unfolding scheduled_def highest_ready_def none_ready_def by (metis not_le)
qed

lemma requeued_head:
  assumes k: "kinv s C" and c: "cur_task s = Some c" and h: "highest_ready (requeued c s C) p n xs"
  shows "user_task s n" "p = unat (effective_priority (tcbs s n))"
proof -
  have "c = IdleTask \<or> user_task s c" using k c by (simp add: kinv_def cur_ok_def)
  from requeue_runs[OF k this] obtain m b where r: "kinv (s\<lparr>lists := m, ready_bitmap := b\<rparr>) (requeued c s C)" by blast
  have x: "requeued c s C (ReadyL p) = Some (StateItem n # xs)" using h by (simp add: highest_ready_def)
  have u: "user_task (s\<lparr>lists := m, ready_bitmap := b\<rparr>) n" using kinv_listed[OF r x, of "StateItem n"] by auto
  then show "user_task s n" by (simp add: user_task_def)
  have "cont m (StateItem n) = Some (ReadyL p)" using lists_wf_container[OF kinv_wf[OF r] x, of "StateItem n"] by simp
  then show "p = unat (effective_priority (tcbs s n))" using kinv_task[OF r u] by (simp add: task_ok_def blocked_list_def)
qed

text \<open>
  \<^bold>\<open>C4.\<close> After every context switch of a reachable system, the task that runs has the highest effective priority: no created task
  that is left ready has a higher one, and the idle task runs only if no task is ready.
\<close>

theorem highest_priority_runs:
  assumes "clz_spec clz" "reachable clz s L" "enabled (Switch sp) s L"
  shows "\<exists>s' n. exec clz (Switch sp) s L = Ret (s', L) \<and> cur_task s' = Some n \<and> (n = IdleTask \<or> user_task s' n) \<and>
    (\<forall>u p. user_task s' u \<and> cont (lists s') (StateItem u) = Some (ReadyL p) \<longrightarrow>
       n \<noteq> IdleTask \<and> effective_priority (tcbs s' u) \<le> effective_priority (tcbs s' n))"
proof -
  obtain C where C: "minv s C" "objects_of C = L" using reachable_ok[OF assms(2,1)] by (rule system_okE)
  obtain c where c: "cur_task s = Some c" "sp \<noteq> 0" "artos_task_stack_valid (tcbs s c) sp s" using assms(3) by auto
  note k = minvD(5,6)[OF C(1)]
  obtain n s' C' where r: "rtos_scheduler_switch_context clz sp s = Ret (stack_pointer (tcbs s' n), s')"
      "kinv s' C'" "cur_task s' = Some n" "scheduled (requeued c s C) n C'"
      "tcbs s' = (tcbs s)(c := (tcbs s c)\<lparr>stack_pointer := sp\<rparr>)" "quiet s C s' C'"
    using switch_context_runs[OF k assms(1) c] by blast
  have us: "user_task s' = user_task s" using r(6) by (simp add: fun_eq_iff quiet_def user_task_def)
  have "n \<noteq> IdleTask \<and> effective_priority (tcbs s' u) \<le> effective_priority (tcbs s' n)"
    if u: "user_task s' u" "cont (lists s') (StateItem u) = Some (ReadyL q)" for u q
  proof -
    obtain p xs where p: "highest_ready (requeued c s C) p n xs" "q \<le> p" using scheduled_highest[OF r(2,4) u(2)] by blast
    have "q = unat (effective_priority (tcbs s' u))" using kinv_task[OF r(2) u(1)] u(2) by (simp add: task_ok_def blocked_list_def)
    moreover have "effective_priority (tcbs s' n) = effective_priority (tcbs s n)" using r(5) by simp
    ultimately show ?thesis using requeued_head[OF k(1) c(1) p(1)] p(2) by (auto simp: word_le_nat_alt user_task_def)
  qed
  moreover have "n = IdleTask \<or> user_task s' n" using r(2,3) by (simp add: kinv_def cur_ok_def)
  ultimately show ?thesis using r(1,3) by (intro exI[of _ s'] exI[of _ n]) (auto simp: with_objects_def)
qed

end
