(* ===== verification/Fairness.thy ===== *)
theory Fairness
  imports System
begin

text \<open>
  Round-robin scheduling: no task starves among tasks of its priority. A run of the system is a list of events; within as many
  context switches as there are tasks, a ready task runs, unless a task of higher priority could run meanwhile.
\<close>

section \<open>Runs\<close>

text \<open>\<open>None\<close>: an event of the run is not enabled, or is not served.\<close>

fun run_events :: "(u32 \<Rightarrow> u8) \<Rightarrow> event list \<Rightarrow> 'z mutex_kernel_scheme \<Rightarrow> list_ref set \<Rightarrow> ('z mutex_kernel_scheme \<times> list_ref set) option" where
  "run_events clz [] s L = Some (s, L)"
| "run_events clz (e # es) s L =
     (if enabled e s L then (case exec clz e s L of Ret (s', L') \<Rightarrow> run_events clz es s' L' | _ \<Rightarrow> None) else None)"

fun is_switch :: "event \<Rightarrow> bool" where
  "is_switch (Switch sp) \<longleftrightarrow> True"
| "is_switch e \<longleftrightarrow> False"

definition switches :: "event list \<Rightarrow> nat" where
  "switches es = length (filter is_switch es)"

lemma switches_simps [simp]: "switches [] = 0" "switches (e # es) = (if is_switch e then Suc (switches es) else switches es)"
  by (simp_all add: switches_def)

lemma run_append: "run_events clz (es1 @ es2) s L = (case run_events clz es1 s L of None \<Rightarrow> None | Some (s', L') \<Rightarrow> run_events clz es2 s' L')"
  by (induction es1 arbitrary: s L) (auto split: res.splits)

text \<open>A task of a priority above \<open>p\<close> is ready or running.\<close>

definition outranked :: "'z kernel_scheme \<Rightarrow> nat \<Rightarrow> bool" where
  "outranked s p \<longleftrightarrow> (\<exists>u. user_task s u \<and> p < unat (effective_priority (tcbs s u)) \<and> \<not> blocked_list (cont (lists s) (StateItem u)))"

section \<open>One step\<close>

lemma requeued_ready:
  "\<exists>zs. requeued c s C (ReadyL p) = map_option (\<lambda>xs. xs @ zs) (C (ReadyL p)) \<or> C (ReadyL p) = None"
  by (cases "C (ReadyL p)") (auto simp: requeued_def append_to_def)

text \<open>A context switch moves the queue of \<open>t\<close> forward by one place, or a task of higher priority is in the way.\<close>

lemma switch_rotates:
  assumes inv: "minv s C" "placed s" and clz: "clz_spec clz" and e: "enabled (Switch sp) s (objects_of C)"
    and x: "C (ReadyL p) = Some (xs @ StateItem t # ys)" and o: "\<not> outranked s p"
  shows "\<exists>s' C'. exec clz (Switch sp) s (objects_of C) = Ret (s', objects_of C') \<and> minv s' C' \<and> placed s' \<and>
           (case xs of [] \<Rightarrow> running s' t | _ # xs' \<Rightarrow> \<exists>ys'. C' (ReadyL p) = Some (xs' @ StateItem t # ys'))"
proof -
  note k = minvD(5,6)[OF inv(1)]
  obtain c where c: "cur_task s = Some c" "sp \<noteq> 0" "artos_task_stack_valid (tcbs s c) sp s" using e by auto
  let ?R = "requeued c s C"
  obtain n s' C' where r: "rtos_scheduler_switch_context clz sp s = Ret (stack_pointer (tcbs s' n), s')"
      "kinv s' C'" "tick_ok s' C'" "cur_task s' = Some n" "scheduled ?R n C'" "quiet s C s' C'"
      "\<forall>j. \<not> is_sentinel j \<longrightarrow> cont (lists s') j = (if n \<noteq> IdleTask \<and> j = StateItem n then None else requeued_cont c s j)"
    using switch_context_runs[OF k clz c] by blast
  have run: "exec clz (Switch sp) s (objects_of C) = Ret (s', objects_of C')"
    using r(1) minv_quiet(2)[OF inv(1) r(2,3,6)] by (simp add: with_objects_def same_live_objects)
  have ok: "minv s' C'" by (rule minv_quiet(1)[OF inv(1) r(2,3,6)])
  have placed: "placed s'" using event_served_by[OF inv(1) refl inv(2) e clz] run by (auto simp: served_by_def)
  obtain zs where R: "?R (ReadyL p) = Some (xs @ StateItem t # ys @ zs)" using requeued_ready[of c s C p] x by auto
  then have "\<not> none_ready ?R" unfolding none_ready_def by (metis append_is_Nil_conv emptyE insertE list.distinct(1) option.distinct(1) option.inject)
  then obtain q us where h: "highest_ready ?R q n us" "C' = ?R(ReadyL q \<mapsto> us)" using r(5) by (auto simp: scheduled_def)
  have "p \<le> q"
  proof (rule ccontr)
    assume "\<not> p \<le> q"
    then have "?R (ReadyL p) \<in> {None, Some []}" using h(1) by (simp add: highest_ready_def)
    then show False using R by simp
  qed
  note n = requeued_head[OF k(1) c(1) h(1)]
  have hd: "?R (ReadyL q) = Some (StateItem n # us)" using h(1) by (simp add: highest_ready_def)
  have "\<not> blocked_list (cont (lists s) (StateItem n))" by (rule requeued_member[OF k(1) c(1) hd]) simp
  then have "\<not> p < q" using o n by (auto simp: outranked_def)
  then have q: "q = p" using \<open>p \<le> q\<close> by simp
  then have eq: "xs @ StateItem t # ys @ zs = StateItem n # us" using hd R by simp
  have "case xs of [] \<Rightarrow> running s' t | _ # xs' \<Rightarrow> \<exists>ys'. C' (ReadyL p) = Some (xs' @ StateItem t # ys')"
  proof (cases xs)
    case Nil
    then have "n = t" using eq by simp
    moreover have "n \<noteq> IdleTask" using n(1) by (auto simp: user_task_def)
    ultimately have "running s' t" using r(4,6,7) n(1) by (simp add: running_def quiet_def user_task_def)
    then show ?thesis using Nil by simp
  next
    case (Cons y xs')
    then show ?thesis using eq h(2) q by auto
  qed
  then show ?thesis using run ok placed by blast
qed

lemma steady_step:
  assumes inv: "minv s C" "placed s" and clz: "clz_spec clz" and e: "enabled e s (objects_of C)" "keeps_order e"
    and x: "C (ReadyL p) = Some (xs @ StateItem t # ys)"
  shows "\<exists>s' C'. exec clz e s (objects_of C) = Ret (s', objects_of C') \<and> minv s' C' \<and> placed s' \<and>
           (\<exists>ys'. C' (ReadyL p) = Some (xs @ StateItem t # ys'))"
proof -
  obtain s' C' where r: "exec clz e s (objects_of C) = Ret (s', objects_of C')" "minv s' C'" "placed s'" "ready_grows C C'"
    using event_served_by[OF inv(1) refl inv(2) e(1) clz] e(2) by (auto simp: served_by_def)
  have "\<exists>zs. C' (ReadyL p) = map_option (\<lambda>xs. xs @ zs) (C (ReadyL p))" using r(4) by (simp add: ready_grows_def)
  then obtain zs where "C' (ReadyL p) = Some (xs @ StateItem t # ys @ zs)" using x by auto
  then show ?thesis using r by blast
qed

section \<open>Fairness\<close>

text \<open>\<open>t\<close> runs at some point of the run \<open>es\<close>, or a task above priority \<open>p\<close> could.\<close>

definition gets_turn :: "(u32 \<Rightarrow> u8) \<Rightarrow> event list \<Rightarrow> 'z mutex_kernel_scheme \<Rightarrow> list_ref set \<Rightarrow> tcb_ref \<Rightarrow> nat \<Rightarrow> bool" where
  "gets_turn clz es s L t p \<longleftrightarrow>
     (\<exists>es1 es2 s1 L1. es = es1 @ es2 \<and> run_events clz es1 s L = Some (s1, L1) \<and> (running s1 t \<or> outranked s1 p))"

lemma gets_turn_now: "running s t \<or> outranked s p \<Longrightarrow> gets_turn clz es s L t p"
  unfolding gets_turn_def by (intro exI[of _ "[]"] exI[of _ es] exI[of _ s] exI[of _ L]) simp

lemma gets_turn_later:
  assumes "enabled e s L" "exec clz e s L = Ret (s', L')" "gets_turn clz es s' L' t p"
  shows "gets_turn clz (e # es) s L t p"
proof -
  obtain es1 es2 s1 L1 where "es = es1 @ es2" "run_events clz es1 s' L' = Some (s1, L1)" "running s1 t \<or> outranked s1 p"
    using assms(3) by (auto simp: gets_turn_def)
  then have "e # es = (e # es1) @ es2" "run_events clz (e # es1) s L = Some (s1, L1)" "running s1 t \<or> outranked s1 p"
    using assms(1,2) by simp_all
  then show ?thesis unfolding gets_turn_def by blast
qed

lemma turn_comes:
  assumes "clz_spec clz" "minv s C" "placed s" "run_events clz es s (objects_of C) \<noteq> None" "\<forall>e \<in> set es. keeps_order e \<or> is_switch e"
    and "C (ReadyL p) = Some (xs @ StateItem t # ys)" "length xs < switches es"
  shows "gets_turn clz es s (objects_of C) t p"
  using assms(2-)
proof (induction es arbitrary: s C xs ys)
  case Nil
  then show ?case by simp
next
  case (Cons e es)
  show ?case
  proof (cases "outranked s p")
    case True
    then show ?thesis by (simp add: gets_turn_now)
  next
    case no: False
    have e: "enabled e s (objects_of C)" using Cons.prems(3) by (auto split: if_splits)
    show ?thesis
    proof (cases "is_switch e")
      case True
      then obtain sp where sp: "e = Switch sp" by (cases e) simp_all
      obtain s' C' where s': "exec clz e s (objects_of C) = Ret (s', objects_of C')" "minv s' C'" "placed s'"
          "case xs of [] \<Rightarrow> running s' t | _ # xs' \<Rightarrow> \<exists>ys'. C' (ReadyL p) = Some (xs' @ StateItem t # ys')"
        using switch_rotates[OF Cons.prems(1,2) assms(1) _ Cons.prems(5) no, of sp] e sp by blast
      have go: "run_events clz es s' (objects_of C') \<noteq> None" using Cons.prems(3) e s'(1) by simp
      have "gets_turn clz es s' (objects_of C') t p"
      proof (cases xs)
        case Nil
        then show ?thesis using s'(4) by (simp add: gets_turn_now)
      next
        case (Cons y xs')
        then obtain ys' where "C' (ReadyL p) = Some (xs' @ StateItem t # ys')" using s'(4) by auto
        then show ?thesis using Cons.IH[OF s'(2,3) go] Cons.prems(4,6) True \<open>xs = y # xs'\<close> by simp
      qed
      then show ?thesis by (rule gets_turn_later[OF e s'(1)])
    next
      case False
      then have ord: "keeps_order e" using Cons.prems(4) by simp
      obtain s' C' ys' where s': "exec clz e s (objects_of C) = Ret (s', objects_of C')" "minv s' C'" "placed s'"
          "C' (ReadyL p) = Some (xs @ StateItem t # ys')"
        using steady_step[OF Cons.prems(1,2) assms(1) e ord Cons.prems(5)] by blast
      have go: "run_events clz es s' (objects_of C') \<noteq> None" using Cons.prems(3) e s'(1) by simp
      have "gets_turn clz es s' (objects_of C') t p" using Cons.IH[OF s'(2,3) go _ s'(4)] Cons.prems(4,6) False by simp
      then show ?thesis by (rule gets_turn_later[OF e s'(1)])
    qed
  qed
qed

text \<open>A ready list holds each created task at most once.\<close>

lemma ready_length:
  assumes k: "kinv s C" and x: "C (ReadyL p) = Some xs"
  shows "length xs \<le> unat (tsk_cnt s)"
proof -
  have "\<exists>i < unat (tsk_cnt s). y = StateItem (Pool i)" if "y \<in> set xs" for y
    using kinv_listed[OF k x that] by (auto simp: user_task_def)
  then have "set xs \<subseteq> (\<lambda>i. StateItem (Pool i)) ` {..<unat (tsk_cnt s)}" by auto
  then have "card (set xs) \<le> card ((\<lambda>i. StateItem (Pool i)) ` {..<unat (tsk_cnt s)})" by (intro card_mono) auto
  also have "\<dots> \<le> unat (tsk_cnt s)" using card_image_le[of "{..<unat (tsk_cnt s)}" "\<lambda>i. StateItem (Pool i)"] by simp
  finally show ?thesis using distinct_card[OF lists_wf_distinct[OF kinv_wf[OF k] x]] by simp
qed

text \<open>
  \<^bold>\<open>C5.\<close> Round robin is fair: from every reachable state and in every run of the system without calls on mutexes, a ready task
  runs within as many context switches as there are tasks, unless at some point a task of higher priority is ready or running.
  Between the switches the tasks and interrupts may compute, sleep, yield, create tasks and use semaphores and queues as they like,
  and ticks may come at any time.
\<close>

theorem round_robin_fair:
  assumes "clz_spec clz" "reachable clz s L" "run_events clz es s L \<noteq> None" "\<forall>e \<in> set es. keeps_order e \<or> is_switch e"
    and "cont (lists s) (StateItem t) = Some (ReadyL p)" "unat (tsk_cnt s) \<le> switches es"
  shows "\<exists>es1 es2 s1 L1. es = es1 @ es2 \<and> run_events clz es1 s L = Some (s1, L1) \<and> (running s1 t \<or> outranked s1 p)"
proof -
  obtain C where C: "minv s C" "objects_of C = L" "placed s" using reachable_ok[OF assms(2,1)] by (rule system_okE)
  note k = minvD(5)[OF C(1)]
  obtain zs where "C (ReadyL p) = Some zs" "StateItem t \<in> set zs" using rl.member[OF kinv_wf[OF k], of "StateItem t" "ReadyL p"] assms(5) by auto
  moreover then obtain xs ys where "zs = xs @ StateItem t # ys" by (meson split_list)
  ultimately have x: "C (ReadyL p) = Some (xs @ StateItem t # ys)" by simp
  have "length xs < switches es" using ready_length[OF k x] assms(6) by simp
  from turn_comes[OF assms(1) C(1,3) _ assms(4) x this] assms(3) C(2) show ?thesis by (simp add: gets_turn_def)
qed

end
