(* ===== verification/Timing.thy ===== *)
theory Timing
  imports Fairness
begin

text \<open>
  Time and ownership in the running system: how long a delayed task sleeps, how long a task waits for an object that nobody releases,
  and who can give up a mutex, whatever the other tasks and the interrupt handlers do meanwhile.
\<close>

section \<open>One event\<close>

definition ticks_in :: "event list \<Rightarrow> nat" where
  "ticks_in es = length (filter (\<lambda>e. e = Tick) es)"

lemma ticks_in_simps [simp]:
  "ticks_in [] = 0" "ticks_in (e # es) = (if e = Tick then Suc (ticks_in es) else ticks_in es)"
  "ticks_in (es1 @ es2) = ticks_in es1 + ticks_in es2"
  by (simp_all add: ticks_in_def)

lemma event_time:
  assumes "clz_spec clz" "system_ok s L" "enabled e s L" "exec clz e s L = Ret (s', L')"
  shows "system_ok s' L'" "if e = Tick then ticked s s' else undisturbed (releases e) s s'"
proof -
  obtain C where C: "minv s C" "objects_of C = L" "placed s" using assms(2) by (auto simp: system_ok_def)
  from event_served_by[OF this assms(3,1)] assms(4) show "if e = Tick then ticked s s' else undisturbed (releases e) s s'" by (auto simp: served_by_def)
  show "system_ok s' L'" using event_served[OF assms(2,3,1)] assms(4) by auto
qed

text \<open>
  A task that rests with the wake tick \<open>w\<close>: \<open>sleeping\<close> for a finite delay, until the object \<open>obj\<close> is released to it if it waits for one. It
  times out when its tick has come.
\<close>

definition holds_back :: "list_ref option \<Rightarrow> event \<Rightarrow> bool" where
  "holds_back obj e \<longleftrightarrow> (\<forall>l \<in> releases e. obj \<noteq> Some l)"

definition timed_out :: "'z kernel_scheme \<Rightarrow> tcb_ref \<Rightarrow> bool" where
  "timed_out s t \<longleftrightarrow> (\<exists>p. cont (lists s) (StateItem t) = Some (ReadyL p)) \<and> cont (lists s) (EventItem t) = None \<and>
     wait_reason (tcbs s t) = WAIT_TIMED_OUT"

lemma holds_back_None [simp]: "holds_back None e"
  by (simp add: holds_back_def)

lemma sleeping_rests: "user_task s t \<Longrightarrow> sleeping s t w obj \<Longrightarrow> holds_back obj e \<Longrightarrow> rests (releases e) s t"
  by (auto simp: sleeping_def rests_def blocked_list_def holds_back_def)

lemma event_sleeping:
  assumes "if e = Tick then ticked s s' else undisturbed (releases e) s s'" "user_task s t" "sleeping s t w obj" "holds_back obj e"
  shows "user_task s' t" "ticks s' = (if e = Tick then ticks s + 1 else ticks s)"
    "if e = Tick \<and> w = ticks s + 1 then timed_out s' t else sleeping s' t w obj"
proof -
  note r = sleeping_rests[OF assms(2-4)]
  show "user_task s' t" "ticks s' = (if e = Tick then ticks s + 1 else ticks s)"
    using assms(1,2) by (auto simp: ticked_def undisturbed_def split: if_splits)
  have d: "due s t \<longleftrightarrow> w = ticks s + 1" using assms(3) by (auto simp: due_def sleeping_def)
  have "if e = Tick \<and> w = ticks s + 1 then timed_out s' t else stays (lists s) (lists s') t"
    using assms(1) r d by (auto simp: ticked_def undisturbed_def timed_out_def split: if_splits)
  then show "if e = Tick \<and> w = ticks s + 1 then timed_out s' t else sleeping s' t w obj"
    using assms(3) by (auto simp: sleeping_def stays_def split: if_splits)
qed

lemma event_suspended:
  assumes "if e = Tick then ticked s s' else undisturbed (releases e) s s'" "user_task s t" "cont (lists s) (StateItem t) = Some SuspendL"
    "cont (lists s) (EventItem t) = obj" "holds_back obj e"
  shows "user_task s' t" "cont (lists s') (StateItem t) = Some SuspendL" "cont (lists s') (EventItem t) = obj"
proof -
  have r: "rests (releases e) s t" "\<not> due s t" using assms(2-5) by (auto simp: rests_def blocked_list_def due_def holds_back_def)
  then have "user_task s' t \<and> stays (lists s) (lists s') t" using assms(1,2) by (auto simp: ticked_def undisturbed_def split: if_splits)
  then show "user_task s' t" "cont (lists s') (StateItem t) = Some SuspendL" "cont (lists s') (EventItem t) = obj"
    using assms(3,4) by (simp_all add: stays_def)
qed

section \<open>Runs\<close>

lemma run_step:
  assumes "clz_spec clz" "system_ok s L" "run_events clz (e # es) s L = Some r"
  obtains s1 L1 where "exec clz e s L = Ret (s1, L1)" "enabled e s L" "system_ok s1 L1" "run_events clz es s1 L1 = Some r"
    "if e = Tick then ticked s s1 else undisturbed (releases e) s s1"
  using assms event_time[OF assms(1,2), of e] by (auto split: if_splits res.splits)

text \<open>Fewer than \<open>n\<close> ticks leave a task asleep that sleeps for \<open>n\<close> more ticks.\<close>

lemma run_sleeping:
  assumes "clz_spec clz" "system_ok s L" "user_task s t" "sleeping s t (ticks s + n) obj" "\<forall>e \<in> set es. holds_back obj e" "ticks_in es < unat n"
    "run_events clz es s L = Some (s', L')"
  shows "system_ok s' L' \<and> user_task s' t \<and> sleeping s' t (ticks s + n) obj \<and> ticks s' = ticks s + of_nat (ticks_in es)"
  using assms(2-)
proof (induction es arbitrary: s L n)
  case Nil
  then show ?case by simp
next
  case (Cons e es)
  obtain s1 L1 where 1: "system_ok s1 L1" "run_events clz es s1 L1 = Some (s', L')" "if e = Tick then ticked s s1 else undisturbed (releases e) s s1"
    using run_step[OF assms(1) Cons.prems(1,6)] by blast
  have h: "holds_back obj e" "\<forall>e \<in> set es. holds_back obj e" using Cons.prems(4) by simp_all
  note e = event_sleeping[OF 1(3) Cons.prems(2,3) h(1)]
  show ?case
  proof (cases "e = Tick")
    case False
    then show ?thesis using Cons.IH[OF 1(1) e(1) _ h(2) _ 1(2), of n] e Cons.prems(5) by simp
  next
    case True
    then have n: "Suc (ticks_in es) < unat n" using Cons.prems(5) by simp
    have "n \<noteq> 0" "n \<noteq> 1" using n by auto
    moreover have "ticks s + n = ticks s + 1 + (n - 1)" by simp
    moreover have "unat (n - 1) = unat n - 1" using \<open>n \<noteq> 0\<close> by (rule unat_minus_one)
    ultimately have "sleeping s1 t (ticks s1 + (n - 1)) obj" "ticks_in es < unat (n - 1)" using e(2,3) True n by auto
    from Cons.IH[OF 1(1) e(1) this(1) h(2) this(2) 1(2)] show ?thesis using e(2) True by (simp add: algebra_simps)
  qed
qed

lemma run_suspended:
  assumes "clz_spec clz" "system_ok s L" "user_task s t" "cont (lists s) (StateItem t) = Some SuspendL" "cont (lists s) (EventItem t) = obj"
    "\<forall>e \<in> set es. holds_back obj e" "run_events clz es s L = Some (s', L')"
  shows "cont (lists s') (StateItem t) = Some SuspendL \<and> cont (lists s') (EventItem t) = obj"
  using assms(2-)
proof (induction es arbitrary: s L)
  case (Cons e es)
  obtain s1 L1 where 1: "system_ok s1 L1" "run_events clz es s1 L1 = Some (s', L')" "if e = Tick then ticked s s1 else undisturbed (releases e) s s1"
    using run_step[OF assms(1) Cons.prems(1,6)] by blast
  have h: "holds_back obj e" "\<forall>e \<in> set es. holds_back obj e" using Cons.prems(5) by simp_all
  show ?case using Cons.IH[OF 1(1) event_suspended[OF 1(3) Cons.prems(2-4) h(1)] h(2) 1(2)] .
qed simp

text \<open>The tick that ends the sleep.\<close>

lemma run_wakes:
  assumes "clz_spec clz" "system_ok s L" "user_task s t" "sleeping s t (ticks s + n) obj" "\<forall>e \<in> set es. holds_back obj e" "Suc (ticks_in es) = unat n"
    "run_events clz (es @ [Tick]) s L = Some (s', L')"
  shows "timed_out s' t"
proof -
  obtain s1 L1 where 1: "run_events clz es s L = Some (s1, L1)" "run_events clz [Tick] s1 L1 = Some (s', L')"
    using assms(7) by (auto simp: run_append split: option.splits)
  have lt: "ticks_in es < unat n" using assms(6) by simp
  have 2: "system_ok s1 L1" "user_task s1 t" "sleeping s1 t (ticks s + n) obj" "ticks s1 = ticks s + of_nat (ticks_in es)"
    using run_sleeping[OF assms(1-5) lt 1(1)] by simp_all
  have "ticks s + n = ticks s1 + 1" using of_nat_add_eq_iff[OF lt, of "ticks s"] assms(6) 2(4) by simp
  moreover have "if Tick = Tick then ticked s1 s' else undisturbed (releases Tick) s1 s'"
    using event_time(2)[OF assms(1) 2(1), of Tick s' L'] 1(2) by (auto split: res.splits)
  from event_sleeping(3)[OF this 2(2,3)] show ?thesis using calculation by (simp add: holds_back_def)
qed

text \<open>Both together.\<close>

definition waits_exactly :: "'z kernel_scheme \<Rightarrow> tcb_ref \<Rightarrow> u32 \<Rightarrow> list_ref option \<Rightarrow> event list \<Rightarrow> 'z kernel_scheme \<Rightarrow> bool" where
  "waits_exactly s t n obj es s' \<longleftrightarrow> (ticks_in es < unat n \<longrightarrow> sleeping s' t (ticks s + n) obj) \<and>
     (\<forall>es1. es = es1 @ [Tick] \<and> ticks_in es = unat n \<longrightarrow> timed_out s' t)"

lemma run_waits_exactly:
  assumes "clz_spec clz" "system_ok s L" "user_task s t" "sleeping s t (ticks s + n) obj" "\<forall>e \<in> set es. holds_back obj e"
    "run_events clz es s L = Some (s', L')"
  shows "waits_exactly s t n obj es s'"
  unfolding waits_exactly_def
proof (intro conjI allI impI)
  show "sleeping s' t (ticks s + n) obj" if "ticks_in es < unat n" using run_sleeping[OF assms(1-5) that assms(6)] by simp
  show "timed_out s' t" if "es = es1 @ [Tick] \<and> ticks_in es = unat n" for es1
    using run_wakes[OF assms(1-4), of es1 s' L'] assms(5,6) that by auto
qed

section \<open>Delays\<close>

lemma after_wait:
  assumes "clz_spec clz" "reachable clz s L" "running s t" "exec clz e s L = Ret (s1, L1)"
    and e: "e = Wait n \<and> n \<noteq> 0 \<and> n \<noteq> ARTOS_DELAY_INFINITY \<or> e = WaitUntil (ticks s + n) \<and> n \<noteq> 0 \<and> n < 0x80000000"
  shows "system_ok s1 L1" "user_task s1 t" "sleeping s1 t (ticks s1 + n) None"
proof -
  note ok = reachable_ok[OF assms(2,1)]
  obtain C where C: "minv s C" using ok by (auto simp: system_ok_def)
  note k = minvD(5,6)[OF C]
  have "enabled e s L" using e assms(3) by (auto simp: in_task_def)
  from event_time(1)[OF assms(1) ok this assms(4)] show "system_ok s1 L1" .
  have "sleeping s1 t (ticks s1 + n) None \<and> tsk_cnt s1 = tsk_cnt s"
  proof -
    obtain w C' where "artos_wait n s = Ret w" "waits s w" "quiet s C w C'"
        "if n = 0 then lists w = lists s \<and> C' = C else if n = ARTOS_DELAY_INFINITY then cont (lists w) (StateItem t) = Some SuspendL
         else sleeping w t (ticks s + n) None"
      using wait_runs[OF k assms(3), of n] by blast
    moreover obtain v D where "artos_wait_until (ticks s + n) s = Ret v" "waits s v" "quiet s C v D"
        "if 1 \<le> unat n \<and> unat n \<le> 0x7fffffff then sleeping v t (ticks s + n) None else lists v = lists s \<and> D = C"
      using wait_until_runs[OF k assms(3), of "ticks s + n"] by auto
    moreover have "n \<noteq> 0 \<and> n < 0x80000000 \<longleftrightarrow> 1 \<le> unat n \<and> unat n \<le> 0x7fffffff"
      using unat_gt_0[of n] by (auto simp: word_less_nat_alt)
    ultimately show ?thesis using e assms(4) by (auto simp: waits_def quiet_def)
  qed
  then show "user_task s1 t" "sleeping s1 t (ticks s1 + n) None" using assms(3) by (simp_all add: running_def user_task_def)
qed

text \<open>
  \<^bold>\<open>C6.\<close> Delays are exact in the running system. After \<open>artos_wait n\<close> of a running task in any reachable state, and in every run
  that follows, whatever the other tasks and the interrupt handlers do, the task sleeps as long as fewer than \<open>n\<close> ticks have
  come, and the \<open>n\<close>-th tick makes it ready; also when the tick counter wraps in between. \<open>artos_wait_until\<close> with a wake tick
  less than \<open>2 ^ 31\<close> ahead does the same for the difference.
\<close>

theorem delay_exact:
  assumes "clz_spec clz" "reachable clz s L" "running s t"
    and "e = Wait n \<and> n \<noteq> 0 \<and> n \<noteq> ARTOS_DELAY_INFINITY \<or> e = WaitUntil (ticks s + n) \<and> n \<noteq> 0 \<and> n < 0x80000000"
    and "run_events clz (e # es) s L = Some (s', L')"
  shows "(ticks_in es < unat n \<longrightarrow> sleeping s' t (ticks s + n) None) \<and>
    (\<forall>es1. es = es1 @ [Tick] \<and> ticks_in es = unat n \<longrightarrow> (\<exists>p. cont (lists s') (StateItem t) = Some (ReadyL p)))"
proof -
  obtain s1 L1 where 1: "exec clz e s L = Ret (s1, L1)" "enabled e s L" "run_events clz es s1 L1 = Some (s', L')"
      "if e = Tick then ticked s s1 else undisturbed (releases e) s s1"
    using run_step[OF assms(1) reachable_ok[OF assms(2,1)] assms(5)] by blast
  note w = after_wait[OF assms(1-3) 1(1) assms(4)]
  have "ticks s1 = ticks s" using assms(4) 1(4) by (auto simp: undisturbed_def)
  then show ?thesis using run_waits_exactly[OF assms(1) w _ 1(3)] by (auto simp: waits_exactly_def timed_out_def)
qed

text \<open>
  A task that waits with \<open>ARTOS_DELAY_INFINITY\<close> in \<open>artos_wait\<close> never runs again: it stays suspended in every run of the
  system.
\<close>

theorem infinite_wait_never_ends:
  assumes "clz_spec clz" "reachable clz s L" "running s t" "run_events clz (Wait ARTOS_DELAY_INFINITY # es) s L = Some (s', L')"
  shows "cont (lists s') (StateItem t) = Some SuspendL \<and> \<not> running s' t"
proof -
  note ok = reachable_ok[OF assms(2,1)]
  obtain C where C: "minv s C" using ok by (auto simp: system_ok_def)
  obtain s1 L1 where 1: "exec clz (Wait ARTOS_DELAY_INFINITY) s L = Ret (s1, L1)" "system_ok s1 L1" "run_events clz es s1 L1 = Some (s', L')"
    using run_step[OF assms(1) ok assms(4)] by blast
  obtain C' where w: "cont (lists s1) (StateItem t) = Some SuspendL" "quiet s C s1 C'" "kinv s1 C'"
    using wait_runs[OF minvD(5,6)[OF C] assms(3), of ARTOS_DELAY_INFINITY] 1(1) by (auto simp: ARTOS_DELAY_INFINITY_def)
  have u: "user_task s1 t" using w(2) assms(3) by (simp add: quiet_def running_def user_task_def)
  have "cont (lists s1) (EventItem t) = None"
  proof (rule ccontr)
    assume "cont (lists s1) (EventItem t) \<noteq> None"
    then obtain l where l: "cont (lists s1) (EventItem t) = Some l" by blast
    then obtain xs where "C' l = Some xs" "EventItem t \<in> set xs" using rl.member[OF kinv_wf[OF w(3)], of "EventItem t" l] by auto
    moreover have "is_wait_list l" using kinv_task[OF w(3) u] l by (simp add: task_ok_def)
    ultimately have "C l = Some xs \<and> EventItem t \<in> set xs" using w(2) by (simp add: quiet_def)
    then have "cont (lists s) (EventItem t) = Some l" using rl.member[OF kinv_wf[OF minvD(5)[OF C]], of "EventItem t" l] by auto
    then show False using kinv_task[OF minvD(5)[OF C], of t] assms(3) by (simp add: task_ok_def running_def blocked_list_def)
  qed
  from run_suspended[OF assms(1) 1(2) u w(1) this _ 1(3)] show ?thesis by (simp add: running_def)
qed

section \<open>Waits for an object\<close>

text \<open>
  The wait list an event makes the running task join, and the number of ticks it will wait there. A resumed queue call waits for
  what is left until its wake tick.
\<close>

definition joins :: "(bool option \<times> 's, 's) res \<Rightarrow> bool" where
  "joins r \<longleftrightarrow> (case r of Ret (None, s) \<Rightarrow> True | _ \<Rightarrow> False)"

definition time_left :: "u32 \<Rightarrow> bool \<Rightarrow> 'z kernel_scheme \<Rightarrow> u32" where
  "time_left wake forever s = (if forever then ARTOS_DELAY_INFINITY else wake - ticks s)"

fun awaits :: "event \<Rightarrow> 'z mutex_kernel_scheme \<Rightarrow> (list_ref \<times> u32) option" where
  "awaits (SemTake n d) s = (if joins (semaphore_take_enter n d s) then Some (SemWaitL n, d) else None)"
| "awaits (Lock n d) s = (if joins (mutex_lock_enter n d s) then Some (MutexLockL n, d) else None)"
| "awaits (Enqueue n a d) s = (if joins (enqueue_enter n a d s) then Some (QueueWriteL n, d) else None)"
| "awaits (Dequeue n a d) s = (if joins (dequeue_enter n a d s) then Some (QueueReadL n, d) else None)"
| "awaits (EnqueueAgain n a w f) s = (if joins (enqueue_again n a w f s) then Some (QueueWriteL n, time_left w f s) else None)"
| "awaits (DequeueAgain n a w f) s = (if joins (dequeue_again n a w f s) then Some (QueueReadL n, time_left w f s) else None)"
| "awaits e s = None"

lemma time_left_wake_of: "time_left (wake_of d s) (d = ARTOS_DELAY_INFINITY) s = d"
  by (simp add: time_left_def wake_of_def rtos_current_tick_def)

lemma wake_of_masked: "wake_of d (s\<lparr>primask := p\<rparr>) = wake_of d s"
  by (simp add: wake_of_def rtos_current_tick_def)

lemma joins_call: "joins r \<Longrightarrow> with_objects L r = Ret (s1, L1) \<Longrightarrow> r = Ret (None, s1)"
  by (auto simp: joins_def with_objects_def split: res.splits option.splits)

definition waiting_in :: "'z kernel_scheme \<Rightarrow> tcb_ref \<Rightarrow> list_ref \<Rightarrow> u32 \<Rightarrow> 'z kernel_scheme \<Rightarrow> bool" where
  "waiting_in s t l d s1 \<longleftrightarrow> cont (lists s1) (EventItem t) = Some l \<and>
     (if d = ARTOS_DELAY_INFINITY then cont (lists s1) (StateItem t) = Some SuspendL else sleeping s1 t (d + ticks s) (Some l))"

lemma take_waits:
  assumes "minv s C" "running s t" "C (SemWaitL n) \<noteq> None" "semaphore_take_enter n d s = Ret (None, s1)"
  shows "waiting_in s t (SemWaitL n) d s1"
  using take_enter_runs[OF qinvD(1)[OF minvD(1)[OF assms(1)]] assms(2,3), of d] assms(4) by (auto simp: take_blocked_def waiting_in_def)

lemma lock_waits:
  assumes "minv s C" "running s t" "mutex_live C n" "mutex_lock_enter n d s = Ret (None, s1)"
  shows "waiting_in s t (MutexLockL n) d s1"
proof -
  consider "mutexes_held (tcbs s t) = 0xFF \<or> owner_of s n = Some t \<or> owner_of s n \<noteq> None \<and> d = 0"
    | "mutexes_held (tcbs s t) \<noteq> 0xFF" "owner_of s n = None"
    | w where "mutexes_held (tcbs s t) \<noteq> 0xFF" "owner_of s n = Some w" "w \<noteq> t" "d \<noteq> 0" by fastforce
  then show ?thesis
  proof cases
    case 1
    then show ?thesis using lock_refused[OF assms(2) 1] assms(4) by simp
  next
    case 2
    then show ?thesis using lock_acquires[OF assms(1-3) 2, of d] assms(4) by auto
  next
    case (3 w)
    obtain s' where "mutex_lock_enter n d s = Ret (None, s')" "blocked_on s t (MutexLockL n) d s'"
      using lock_blocks[OF assms(1-3) 3(2,3,1,4)] by blast
    then show ?thesis using assms(4) by (simp add: blocked_on_def waiting_in_def)
  qed
qed

lemma queue_enter_waits:
  assumes inv: "minv s C" and t: "running s t" and l: "l = QueueReadL n \<or> l = QueueWriteL n" "C l \<noteq> None"
    and w: "f \<longrightarrow> w = ARTOS_DELAY_INFINITY" and r: "queue_enter blocked l k tr w f (primask s) (s\<lparr>primask := 1\<rparr>) = Ret (None, s1)"
  shows "waiting_in s t l (time_left w f s) s1"
proof -
  let ?s0 = "s\<lparr>primask := 1\<rparr>" and ?t = "time_left w f s"
  have r': "queue_wait_enter blocked l w f (primask s) ?s0 = Ret (None, s1)"
    using r by (auto simp: queue_enter_def res_bind_eq_Ret split: option.splits)
  have n: "\<not> (\<not> f \<and> (w - ticks s = 0 \<or> w - ticks s \<ge> 0x80000000))" and b: "blocked ?s0"
    using r' by (auto simp: queue_wait_enter_def rtos_current_tick_def Let_def split: if_splits)
  have f: "(?t = ARTOS_DELAY_INFINITY) = f" using n by (auto simp: time_left_def ARTOS_DELAY_INFINITY_def)
  have g: "?t = ARTOS_DELAY_INFINITY \<or> ?t \<noteq> 0" using n by (auto simp: time_left_def)
  have e: "(if f then ARTOS_DELAY_INFINITY else ?t + ticks s) = w" using w by (simp add: time_left_def)
  obtain m where m: "rtos_block_current_task w (Some l) f ?s0 = Ret (?s0\<lparr>lists := m\<rparr>)"
      "blocked_on s t l ?t (rtos_port_request_context_switch (rtos_port_exit_critical (primask s) (?s0\<lparr>lists := m\<rparr>)))"
    using block_on_queue[OF minvD(1)[OF inv] t l g] unfolding f e by blast
  have "queue_wait_enter blocked l w f (primask s) ?s0 =
      Ret (None, rtos_port_request_context_switch (rtos_port_exit_critical (primask s) (?s0\<lparr>lists := m\<rparr>)))"
    using b m(1) n unfolding queue_wait_enter_def rtos_current_tick_def by (auto simp: Let_def)
  then have "rtos_port_request_context_switch (rtos_port_exit_critical (primask s) (?s0\<lparr>lists := m\<rparr>)) = s1" using r' by simp
  from m(2)[unfolded this] show ?thesis by (simp add: blocked_on_def waiting_in_def)
qed

lemma again_waits:
  assumes inv: "minv s C" and t: "running s t" and l: "l = QueueReadL n \<or> l = QueueWriteL n" "C l \<noteq> None"
    and w: "f \<longrightarrow> w = ARTOS_DELAY_INFINITY" and r: "queue_again blocked l k tr w f s = Ret (None, s1)"
  shows "waiting_in s t l (time_left w f s) s1"
proof -
  let ?s0 = "rtos_clear_current_wait_reason s"
  have e: "queue_enter blocked l k tr w f (primask ?s0) (?s0\<lparr>primask := 1\<rparr>) = Ret (None, s1)"
    using r by (simp add: queue_again_def split: if_splits)
  have i: "minv ?s0 C" "running ?s0 t" and k: "ticks ?s0 = ticks s"
    using clear_steady[OF inv] t by (auto simp: steady_def serves_def undisturbed_def running_def user_task_def)
  from queue_enter_waits[of ?s0 C t l n f w blocked k tr s1, OF i l w e] show ?thesis unfolding waiting_in_def time_left_def k .
qed

lemma event_waits:
  assumes C: "minv s C" "objects_of C = L" and t: "running s t" and e: "enabled e s L" "awaits e s = Some (l, d)" "exec clz e s L = Ret (s1, L1)"
  shows "waiting_in s t l d s1"
proof -
  note live = created_live[OF C(2)]
  have q: "C (QueueReadL n) \<noteq> None \<and> C (QueueWriteL n) \<noteq> None" if "queue_created L n" for n
    using that live(2) by (simp add: queue_live_def)
  show ?thesis
  proof (cases e)
    case (SemTake n timeout)
    then show ?thesis using e live(1)[of "SemWaitL n"] take_waits[OF C(1) t] by (auto dest: joins_call split: if_splits)
  next
    case (Lock n timeout)
    then show ?thesis using e live(3)[of n] lock_waits[OF C(1) t] by (auto dest: joins_call split: if_splits)
  next
    case (Enqueue n a timeout)
    then have "enqueue_enter n a timeout s = Ret (None, s1)" "l = QueueWriteL n" "d = timeout" using e by (auto dest: joins_call split: if_splits)
    then show ?thesis using q[of n] e(1) Enqueue queue_enter_waits[OF C(1) t, of l n "d = ARTOS_DELAY_INFINITY" "wake_of d s"]
      by (auto simp: enqueue_enter_def rtos_port_enter_critical_def res_bind_eq_Ret wake_of_forever time_left_wake_of wake_of_masked
          dest!: assert_valid_state split: if_splits)
  next
    case (Dequeue n a timeout)
    then have "dequeue_enter n a timeout s = Ret (None, s1)" "l = QueueReadL n" "d = timeout" using e by (auto dest: joins_call split: if_splits)
    then show ?thesis using q[of n] e(1) Dequeue queue_enter_waits[OF C(1) t, of l n "d = ARTOS_DELAY_INFINITY" "wake_of d s"]
      by (auto simp: dequeue_enter_def rtos_port_enter_critical_def res_bind_eq_Ret wake_of_forever time_left_wake_of wake_of_masked
          dest!: assert_valid_state split: if_splits)
  next
    case (EnqueueAgain n a w f)
    then show ?thesis using e q[of n] again_waits[OF C(1) t, of l n f w] by (auto simp: enqueue_again_def dest: joins_call split: if_splits)
  next
    case (DequeueAgain n a w f)
    then show ?thesis using e q[of n] again_waits[OF C(1) t, of l n f w] by (auto simp: dequeue_again_def dest: joins_call split: if_splits)
  qed (use e(2) in simp_all)
qed

text \<open>
  \<^bold>\<open>C7.\<close> Timeouts are exact in the running system. When a running task of any reachable state starts to wait for a semaphore, a
  mutex or a queue, and in the run that follows no call releases a task from that wait list, then the task sleeps while fewer
  ticks than its timeout have come, and the tick that completes the timeout makes it ready, out of the wait list and with the
  timed-out wait reason, whatever the other tasks and the interrupt handlers do meanwhile; with an infinite timeout it
  stays suspended in the wait list.
\<close>

theorem timeout_exact:
  assumes "clz_spec clz" "reachable clz s L" "running s t" "awaits e s = Some (l, d)"
    and "run_events clz (e # es) s L = Some (s', L')" "\<forall>e \<in> set es. l \<notin> releases e"
  shows "if d = ARTOS_DELAY_INFINITY then cont (lists s') (StateItem t) = Some SuspendL \<and> cont (lists s') (EventItem t) = Some l
    else (ticks_in es < unat d \<longrightarrow> sleeping s' t (ticks s + d) (Some l)) \<and>
      (\<forall>es1. es = es1 @ [Tick] \<and> ticks_in es = unat d \<longrightarrow> timed_out s' t)"
proof -
  note ok = reachable_ok[OF assms(2,1)]
  obtain C where C: "minv s C" "objects_of C = L" using ok by (auto simp: system_ok_def)
  obtain s1 L1 where 1: "exec clz e s L = Ret (s1, L1)" "enabled e s L" "system_ok s1 L1" "run_events clz es s1 L1 = Some (s', L')"
      "if e = Tick then ticked s s1 else undisturbed (releases e) s s1"
    using run_step[OF assms(1) ok assms(5)] by blast
  note w = event_waits[OF C assms(3) 1(2) assms(4) 1(1)]
  have "e \<noteq> Tick" using assms(4) by auto
  then have u: "user_task s1 t" "ticks s1 = ticks s" using 1(5) assms(3) by (auto simp: undisturbed_def running_def)
  have h: "\<forall>e \<in> set es. holds_back (Some l) e" using assms(6) by (auto simp: holds_back_def)
  show ?thesis
  proof (cases "d = ARTOS_DELAY_INFINITY")
    case True
    then show ?thesis using w run_suspended[OF assms(1) 1(3) u(1) _ _ h 1(4)] by (simp add: waiting_in_def)
  next
    case False
    then have "sleeping s1 t (ticks s1 + d) (Some l)" using w u(2) by (simp add: waiting_in_def add.commute)
    from run_waits_exactly[OF assms(1) 1(3) u(1) this h 1(4)] show ?thesis using False u(2) by (simp add: waits_exactly_def)
  qed
qed

section \<open>Mutual exclusion\<close>

text \<open>
  \<^bold>\<open>C8.\<close> A mutex stays with its owner: in every run from a reachable state in which a task owns a mutex, the mutex is still
  owned by that task at the end, or the task itself, running and owner, has unlocked it on the way. No call of another task, no
  interrupt, no timeout and no context switch takes it away.
\<close>

theorem mutex_exclusive:
  assumes "clz_spec clz" "reachable clz s L" "MutexLockL n \<in> L" "owner_of s n = Some u" "run_events clz es s L = Some (s', L')"
  shows "owner_of s' n = Some u \<or>
    (\<exists>es1 es2 s1 L1. es = es1 @ Unlock n # es2 \<and> run_events clz es1 s L = Some (s1, L1) \<and> owner_of s1 n = Some u \<and> running s1 u)"
  using assms(2-)
proof (induction es arbitrary: s L)
  case (Cons e es)
  obtain C where C: "minv s C" "objects_of C = L" "placed s" using reachable_ok[OF Cons.prems(1) assms(1)] by (rule system_okE)
  obtain s1 L1 where 1: "exec clz e s L = Ret (s1, L1)" "enabled e s L" "run_events clz es s1 L1 = Some (s', L')"
    using run_step[OF assms(1) reachable_ok[OF Cons.prems(1) assms(1)] Cons.prems(4)] by blast
  have r: "reachable clz s1 L1" using reachable.event[OF Cons.prems(1) 1(2,1)] .
  have t: "touches (concerns e s) s s1" using event_served_by[OF C 1(2) assms(1)] 1(1) by (auto simp: served_by_def)
  show ?case
  proof (cases "e = Unlock n \<and> cur_task s = Some u")
    case True
    then have "running s u" using 1(2) by (auto simp: in_task_def running_def)
    then show ?thesis using True Cons.prems(3) by (intro disjI2 exI[of _ "[]"] exI[of _ es] exI[of _ s] exI[of _ L]) simp
  next
    case False
    then have "MutexLockL n \<notin> concerns e s" using 1(2) Cons.prems(2,3) by (cases e) auto
    then have o: "owner_of s1 n = Some u" using t Cons.prems(3) by (simp add: touches_def)
    have "L \<subseteq> L1" using 1(1) by (cases e) (auto simp: Let_def res_bind_eq_Ret with_objects_def split: prod.splits if_splits)
    then have "owner_of s' n = Some u \<or> (\<exists>es1 es2 s2 L2. es = es1 @ Unlock n # es2 \<and> run_events clz es1 s1 L1 = Some (s2, L2) \<and>
        owner_of s2 n = Some u \<and> running s2 u)"
      using Cons.IH[OF r _ o 1(3)] Cons.prems(2) by auto
    then show ?thesis
    proof (elim disjE exE conjE)
      fix es1 es2 s2 L2 assume "es = es1 @ Unlock n # es2" "run_events clz es1 s1 L1 = Some (s2, L2)" "owner_of s2 n = Some u" "running s2 u"
      then show ?thesis using 1(1,2) by (intro disjI2 exI[of _ "e # es1"] exI[of _ es2] exI[of _ s2] exI[of _ L2]) simp
    qed simp
  qed
qed simp

end
