(* ===== verification/Board.thy ===== *)
theory Board
  imports Prelude
begin

unbundle bit_operations_syntax

text \<open>
  What the two board files share: access to memory-mapped registers, the busy-wait loops, and the printing of numbers. The
  peripherals and the vendor's NVIC functions are a parameter of type \<open>mmio\<close>; a function that may not return has an option
  as its result, and \<open>None\<close> says that it does not, or that it writes outside its buffer.
\<close>

section \<open>Registers\<close>

record ('r, 'd) mmio =
  rd :: "'r \<Rightarrow> 'd \<Rightarrow> u32 \<times> 'd"
  wr :: "'r \<Rightarrow> u32 \<Rightarrow> 'd \<Rightarrow> 'd"
  NVIC_ClearPendingIRQ :: "u32 \<Rightarrow> 'd \<Rightarrow> 'd"
  NVIC_SetPriority :: "u32 \<Rightarrow> u32 \<Rightarrow> 'd \<Rightarrow> 'd"
  NVIC_EnableIRQ :: "u32 \<Rightarrow> 'd \<Rightarrow> 'd"

text \<open>The static \<open>button_callback\<close> (0 for NULL), the vendor's \<open>SystemCoreClock\<close>, and the devices.\<close>

record 'd board =
  button_callback :: u32
  SystemCoreClock :: u32
  dev :: 'd

text \<open>\<open>reg = v\<close>, \<open>reg |= v\<close> and \<open>reg &= v\<close>.\<close>

definition reg_set :: "('r, 'd) mmio \<Rightarrow> 'r \<Rightarrow> u32 \<Rightarrow> 'd board \<Rightarrow> 'd board" where
  "reg_set D r v b = b\<lparr>dev := wr D r v (dev b)\<rparr>"

definition reg_or :: "('r, 'd) mmio \<Rightarrow> 'r \<Rightarrow> u32 \<Rightarrow> 'd board \<Rightarrow> 'd board" where
  "reg_or D r v b = (let (x, d) = rd D r (dev b) in b\<lparr>dev := wr D r (x OR v) d\<rparr>)"

definition reg_and :: "('r, 'd) mmio \<Rightarrow> 'r \<Rightarrow> u32 \<Rightarrow> 'd board \<Rightarrow> 'd board" where
  "reg_and D r v b = (let (x, d) = rd D r (dev b) in b\<lparr>dev := wr D r (x AND v) d\<rparr>)"

text \<open>\<open>while (!ready(reg)) {}\<close>\<close>

partial_function (option) poll :: "('r, 'd) mmio \<Rightarrow> 'r \<Rightarrow> (u32 \<Rightarrow> bool) \<Rightarrow> 'd board \<Rightarrow> 'd board option" where
  "poll D r ready b =
     (let (x, d) = rd D r (dev b); b = b\<lparr>dev := d\<rparr>
      in if ready x then Some b else poll D r ready b)"

section \<open>Printing\<close>

text \<open>\<open>text\<close> is the rest of the array it points into; running off its end is undefined.\<close>

fun write_string :: "(u8 \<Rightarrow> 'b \<Rightarrow> 'b option) \<Rightarrow> u8 list \<Rightarrow> 'b \<Rightarrow> 'b option" where
  "write_string put [] b = None"
| "write_string put (c # text) b = (if c = 0 then Some b else Option.bind (put c b) (write_string put text))"

function uint_digits :: "u8 list \<Rightarrow> nat \<Rightarrow> u32 \<Rightarrow> (u8 list \<times> nat) option" where
  "uint_digits buffer len v =
     (if v > 0 then
        if len < length buffer then uint_digits (buffer[len := 48 + ucast (v mod 10)]) (len + 1) (v div 10) else None
      else Some (buffer, len))"
  by pat_completeness auto
termination
proof (relation "measure (\<lambda>(_, _, v). unat v)")
  show "((buffer[len := 48 + ucast (v mod 10)], len + 1, v div 10), buffer, len, v) \<in> measure (\<lambda>(_, _, v). unat v)"
    if "v > 0" for buffer :: "u8 list" and len and v :: u32
    using that by (simp add: unat_div word_less_nat_alt)
qed simp

declare uint_digits.simps [simp del]

fun write_buffer :: "(u8 \<Rightarrow> 'b \<Rightarrow> 'b option) \<Rightarrow> u8 list \<Rightarrow> nat \<Rightarrow> 'b \<Rightarrow> 'b option" where
  "write_buffer put buffer 0 b = Some b"
| "write_buffer put buffer (Suc len) b = Option.bind (put (buffer ! len) b) (write_buffer put buffer len)"

text \<open>The buffer is not initialised; \<open>scratch\<close> holds what happens to be in it.\<close>

definition write_uint :: "u8 list \<Rightarrow> (u8 \<Rightarrow> 'b \<Rightarrow> 'b option) \<Rightarrow> u32 \<Rightarrow> 'b \<Rightarrow> 'b option" where
  "write_uint scratch put v b =
     (if v = 0 then put 48 b
      else Option.bind (uint_digits (take 10 scratch) 0 v) (\<lambda>(buffer, len). write_buffer put buffer len b))"

section \<open>The printed text\<close>

text \<open>The value of a sequence of decimal digits.\<close>

definition digits_value :: "u8 list \<Rightarrow> nat" where
  "digits_value cs = foldl (\<lambda>n c. 10 * n + (unat c - 48)) 0 cs"

fun decimal :: "nat \<Rightarrow> u8 list" where
  "decimal n = (if n = 0 then [] else decimal (n div 10) @ [48 + of_nat (n mod 10)])"

declare decimal.simps [simp del]

lemma decimal_0 [simp]: "decimal 0 = []"
  by (simp add: decimal.simps)

lemma decimal_pos: "n > 0 \<Longrightarrow> decimal n = decimal (n div 10) @ [48 + of_nat (n mod 10)]"
  by (simp add: decimal.simps[of n])

lemma word_of_nat_unat: "(of_nat (unat (v :: u32)) :: u8) = ucast v"
  by simp

lemma unat_digit: "unat (48 + of_nat (n mod 10) :: u8) = 48 + n mod 10"
proof -
  have "n mod 10 < 10" by simp
  then have "(48 + n mod 10) mod 2 ^ 8 = 48 + n mod 10" by simp
  then have "unat (of_nat (48 + n mod 10) :: u8) = 48 + n mod 10" by (simp only: unat_of_nat) simp
  then show ?thesis by simp
qed

lemma decimal_value: "digits_value (decimal n) = n"
proof (induction n rule: decimal.induct)
  case (1 n)
  then show ?case by (cases "n = 0") (simp_all add: digits_value_def decimal_pos unat_digit)
qed

lemma decimal_digits: "c \<in> set (decimal n) \<Longrightarrow> 48 \<le> unat c \<and> unat c \<le> 57"
proof (induction n rule: decimal.induct)
  case (1 n)
  have "n mod 10 < 10" by simp
  then have "unat (48 + of_nat (n mod 10) :: u8) \<le> 57" unfolding unat_digit by linarith
  then show ?case using 1 by (cases "n = 0") (auto simp: decimal_pos unat_digit)
qed

lemma decimal_length: "n < 10 ^ k \<Longrightarrow> length (decimal n) \<le> k"
proof (induction k arbitrary: n)
  case (Suc k)
  then show ?case by (cases "n = 0") (simp_all add: decimal_pos less_mult_imp_div_less mult.commute)
qed simp

lemma decimal_first: "n > 0 \<Longrightarrow> decimal n \<noteq> [] \<and> hd (decimal n) \<noteq> 48"
proof (induction n rule: decimal.induct)
  case (1 n)
  show ?case
  proof (cases "n div 10 = 0")
    case True
    then have n: "n mod 10 = n" "n > 0" using 1(2) by (simp_all add: div_eq_0_iff)
    then have "unat (48 + of_nat (n mod 10) :: u8) \<noteq> 48" unfolding unat_digit by simp
    then have "(48 + of_nat (n mod 10) :: u8) \<noteq> 48" by auto
    then show ?thesis using 1(2) True by (simp add: decimal_pos)
  next
    case False
    then show ?thesis using 1 by (simp add: decimal_pos[of n])
  qed
qed

text \<open>What a number should look like on the line.\<close>

definition prints :: "u32 \<Rightarrow> u8 list \<Rightarrow> bool" where
  "prints v cs \<longleftrightarrow> digits_value cs = unat v \<and> cs \<noteq> [] \<and> length cs \<le> 10 \<and> (\<forall>c \<in> set cs. 48 \<le> unat c \<and> unat c \<le> 57) \<and>
     (v \<noteq> 0 \<longrightarrow> hd cs \<noteq> 48) \<and> (v = 0 \<longrightarrow> cs = [48])"

lemma prints_decimal: "prints v (if v = 0 then [48] else decimal (unat v))"
proof (cases "v = 0")
  case False
  then have "unat v > 0" by (simp add: unat_gt_0)
  moreover have "length (decimal (unat v)) \<le> 10" using u32_bound[of v] by (intro decimal_length) simp
  ultimately show ?thesis using False decimal_first[of "unat v"] decimal_digits[of _ "unat v"] by (simp add: prints_def decimal_value)
qed (simp add: prints_def digits_value_def)

text \<open>The first loop leaves the digits in the buffer, the last one first, and stays inside it.\<close>

lemma uint_digits_runs:
  assumes "len \<le> length buffer" "unat v < 10 ^ (length buffer - len)"
  shows "\<exists>buffer' len'. uint_digits buffer len v = Some (buffer', len') \<and> length buffer' = length buffer \<and>
           len \<le> len' \<and> len' \<le> length buffer \<and> take len buffer' = take len buffer \<and>
           rev (drop len (take len' buffer')) = decimal (unat v)"
  using assms
proof (induction buffer len v rule: uint_digits.induct)
  case (1 buffer len v)
  show ?case
  proof (cases "v > 0")
    case True
    let ?c = "48 + ucast (v mod 10) :: u8" and ?n = "length buffer - len"
    have pos: "unat v > 0" using True by (simp add: word_less_nat_alt)
    then have "?n \<noteq> 0" using 1(3) by (metis less_one not_less_zero power_0 gr_implies_not0)
    then have l: "len < length buffer" and n: "?n = Suc (length buffer - (len + 1))" by simp_all
    have "unat (v div 10) < 10 ^ (length (buffer[len := ?c]) - (len + 1))"
      using 1(3) unfolding n by (simp add: unat_div less_mult_imp_div_less mult.commute)
    from 1(1)[OF True l _ this] l obtain buffer' len' where
      r: "uint_digits (buffer[len := ?c]) (len + 1) (v div 10) = Some (buffer', len')" "length buffer' = length buffer"
        "len + 1 \<le> len'" "len' \<le> length buffer" "take (len + 1) buffer' = take (len + 1) (buffer[len := ?c])"
        "rev (drop (len + 1) (take len' buffer')) = decimal (unat v div 10)" by (auto simp: unat_div)
    have t: "take len buffer' = take len buffer" using arg_cong[OF r(5), of "take len"] by simp
    have "buffer' ! len = ?c" using arg_cong[OF r(5), of "\<lambda>xs. xs ! len"] l r(2) by simp
    then have "drop len (take len' buffer') = ?c # drop (len + 1) (take len' buffer')"
      using r(2-4) l by (subst Cons_nth_drop_Suc[symmetric]) simp_all
    moreover have "?c = 48 + of_nat (unat v mod 10)" using word_of_nat_unat[of "v mod 10"] by (simp add: unat_mod)
    ultimately show ?thesis using r t True l pos
      by (simp add: uint_digits.simps[of buffer len v] decimal_pos[OF pos])
  next
    case False
    then have "v = 0" by (simp add: word_neq_0_conv[symmetric])
    then show ?thesis using 1(2) by (simp add: uint_digits.simps[of buffer len 0])
  qed
qed

text \<open>A routine \<open>put\<close> that sends each character it is given; \<open>out\<close> is what has been sent.\<close>

definition sends :: "(u8 \<Rightarrow> 'b \<Rightarrow> 'b option) \<Rightarrow> ('b \<Rightarrow> u8 list) \<Rightarrow> bool" where
  "sends put out \<longleftrightarrow> (\<forall>c b. \<exists>b'. put c b = Some b' \<and> out b' = out b @ [c])"

lemma sendsD: "sends put out \<Longrightarrow> \<exists>b'. put c b = Some b' \<and> out b' = out b @ [c]"
  by (simp add: sends_def)

lemma write_buffer_sends:
  assumes "sends put out" "len \<le> length buffer"
  shows "\<exists>b'. write_buffer put buffer len b = Some b' \<and> out b' = out b @ rev (take len buffer)"
  using assms(2)
proof (induction len arbitrary: b)
  case (Suc len)
  obtain b1 where b1: "put (buffer ! len) b = Some b1" "out b1 = out b @ [buffer ! len]" using sendsD[OF assms(1)] by blast
  obtain b2 where "write_buffer put buffer len b1 = Some b2" "out b2 = out b1 @ rev (take len buffer)"
    using Suc.IH[of b1] Suc.prems by auto
  then show ?case using b1 Suc.prems by (simp add: take_Suc_conv_app_nth)
qed simp

lemma write_string_sends:
  assumes "sends put out" "0 \<notin> set cs"
  shows "\<exists>b'. write_string put (cs @ 0 # rest) b = Some b' \<and> out b' = out b @ cs"
  using assms(2)
proof (induction cs arbitrary: b)
  case (Cons c cs)
  obtain b1 where b1: "put c b = Some b1" "out b1 = out b @ [c]" using sendsD[OF assms(1)] by blast
  then show ?case using Cons.IH[of b1] Cons.prems by auto
qed simp

lemma write_uint_sends:
  assumes "sends put out" "length scratch \<ge> 10"
  shows "\<exists>b'. write_uint scratch put v b = Some b' \<and> out b' = out b @ (if v = 0 then [48] else decimal (unat v))"
proof (cases "v = 0")
  case True
  then show ?thesis using sendsD[OF assms(1)] by (simp add: write_uint_def)
next
  case False
  have "unat v < 10 ^ (length (take 10 scratch) - 0)" using assms(2) u32_bound[of v] by simp
  from uint_digits_runs[OF _ this] obtain buffer len where
    u: "uint_digits (take 10 scratch) 0 v = Some (buffer, len)" "len \<le> length buffer" "rev (take len buffer) = decimal (unat v)" by auto
  then show ?thesis using write_buffer_sends[OF assms(1) u(2), of b] False by (simp add: write_uint_def)
qed

section \<open>What the devices promise\<close>

text \<open>
  The registers \<open>R\<close> are plain storage with the contents \<open>v\<close>: reading gives the contents and changes nothing, writing one of
  them changes it alone, and writing any other register leaves them alone.
\<close>

definition plain_storage :: "('r, 'd) mmio \<Rightarrow> 'r set \<Rightarrow> ('d \<Rightarrow> 'r \<Rightarrow> u32) \<Rightarrow> bool" where
  "plain_storage D R v \<longleftrightarrow>
     (\<forall>r d. (r \<in> R \<longrightarrow> fst (rd D r d) = v d r) \<and> (\<forall>q \<in> R. v (snd (rd D r d)) q = v d q)) \<and>
     (\<forall>r x d. \<forall>q \<in> R. v (wr D r x d) q = (if q = r then x else v d q)) \<and>
     (\<forall>n p d. \<forall>q \<in> R. v (NVIC_ClearPendingIRQ D n d) q = v d q \<and> v (NVIC_SetPriority D n p d) q = v d q \<and>
        v (NVIC_EnableIRQ D n d) q = v d q)"

lemma storage_ops:
  assumes "plain_storage D R v" "q \<in> R"
  shows "v (dev (reg_set D r x b)) q = (if q = r then x else v (dev b) q)"
    "v (dev (reg_or D r x b)) q = (if q = r then v (dev b) q OR x else v (dev b) q)"
    "v (dev (reg_and D r x b)) q = (if q = r then v (dev b) q AND x else v (dev b) q)"
    "v (NVIC_ClearPendingIRQ D n d) q = v d q" "v (NVIC_SetPriority D n p d) q = v d q" "v (NVIC_EnableIRQ D n d) q = v d q"
  using assms by (auto simp: plain_storage_def reg_set_def reg_or_def reg_and_def split_beta)

lemma reg_ops_fields [simp]:
  "button_callback (reg_set D r x b) = button_callback b" "button_callback (reg_or D r x b) = button_callback b"
  "button_callback (reg_and D r x b) = button_callback b"
  "SystemCoreClock (reg_set D r x b) = SystemCoreClock b" "SystemCoreClock (reg_or D r x b) = SystemCoreClock b"
  "SystemCoreClock (reg_and D r x b) = SystemCoreClock b"
  by (simp_all add: reg_set_def reg_or_def reg_and_def split_beta)

text \<open>A register that keeps being read shows a value that the loop waits for sooner or later.\<close>

definition becomes :: "('r, 'd) mmio \<Rightarrow> 'r \<Rightarrow> (u32 \<Rightarrow> bool) \<Rightarrow> 'd \<Rightarrow> bool" where
  "becomes D r ready d \<longleftrightarrow> (\<exists>k. ready (fst (rd D r (((\<lambda>d. snd (rd D r d)) ^^ k) d))))"

lemma poll_ends:
  assumes "becomes D r ready (dev b)"
  shows "\<exists>k d. poll D r ready b = Some (b\<lparr>dev := snd (rd D r d)\<rparr>) \<and> ready (fst (rd D r d)) \<and>
           d = ((\<lambda>d. snd (rd D r d)) ^^ k) (dev b)"
proof -
  obtain k where "ready (fst (rd D r (((\<lambda>d. snd (rd D r d)) ^^ k) (dev b))))" using assms by (auto simp: becomes_def)
  then show ?thesis
  proof (induction k arbitrary: b)
    case 0
    then have "poll D r ready b = Some (b\<lparr>dev := snd (rd D r (dev b))\<rparr>)" by (subst poll.simps) (simp add: split_beta Let_def)
    then show ?case using 0 by (intro exI[of _ 0] exI[of _ "dev b"]) simp
  next
    case (Suc k)
    let ?b = "b\<lparr>dev := snd (rd D r (dev b))\<rparr>"
    show ?case
    proof (cases "ready (fst (rd D r (dev b)))")
      case True
      then have "poll D r ready b = Some ?b" by (subst poll.simps) (simp add: split_beta Let_def)
      then show ?thesis using True by (intro exI[of _ 0] exI[of _ "dev b"]) simp
    next
      case False
      then have e: "poll D r ready b = poll D r ready ?b" by (subst poll.simps) (simp add: split_beta Let_def)
      have "ready (fst (rd D r (((\<lambda>d. snd (rd D r d)) ^^ k) (dev ?b))))" using Suc.prems by (simp add: funpow_swap1[of "\<lambda>d. snd (rd D r d)"])
      from Suc.IH[OF this] obtain j d where j: "poll D r ready ?b = Some (?b\<lparr>dev := snd (rd D r d)\<rparr>)" "ready (fst (rd D r d))"
          "d = ((\<lambda>d. snd (rd D r d)) ^^ j) (dev ?b)" by blast
      then show ?thesis unfolding e by (intro exI[of _ "Suc j"] exI[of _ d]) (simp add: funpow_swap1[of "\<lambda>d. snd (rd D r d)"])
    qed
  qed
qed

lemma poll_storage:
  assumes "becomes D r ready (dev b)" "plain_storage D R v"
  shows "\<exists>b'. poll D r ready b = Some b' \<and> button_callback b' = button_callback b \<and> (\<forall>q \<in> R. v (dev b') q = v (dev b) q)"
proof -
  obtain k where "poll D r ready b = Some (b\<lparr>dev := snd (rd D r (((\<lambda>d. snd (rd D r d)) ^^ k) (dev b)))\<rparr>)"
    using poll_ends[OF assms(1)] by blast
  moreover have rd: "v (snd (rd D r d)) q = v d q" if "q \<in> R" for q d using assms(2) that by (simp add: plain_storage_def)
  moreover have "v (((\<lambda>d. snd (rd D r d)) ^^ k) d) q = v d q" if "q \<in> R" for q d using rd[OF that] by (induction k) simp_all
  ultimately show ?thesis by simp
qed

text \<open>A transmitter: its empty flag is set sooner or later, reading the status sends nothing, and a byte written with the flag set is sent.\<close>

definition transmitter :: "('r, 'd) mmio \<Rightarrow> 'r \<Rightarrow> 'r \<Rightarrow> u32 \<Rightarrow> ('d \<Rightarrow> u8 list) \<Rightarrow> bool" where
  "transmitter D status data txe sent \<longleftrightarrow>
     (\<forall>d. becomes D status (\<lambda>x. x AND txe \<noteq> 0) d \<and> sent (snd (rd D status d)) = sent d \<and>
        (fst (rd D status d) AND txe \<noteq> 0 \<longrightarrow> (\<forall>x. sent (wr D data x (snd (rd D status d))) = sent d @ [ucast x])))"

lemma ucast_u8_u32: "(ucast (ucast (c :: u8) :: u32) :: u8) = c"
  by (rule bit_word_eqI) (simp add: bit_simps)

lemma transmitter_sends:
  fixes D :: "('r, 'd) mmio" and put :: "u8 \<Rightarrow> 'd board \<Rightarrow> 'd board option"
  assumes t: "transmitter D status data txe sent"
    and put: "\<And>c b. put c b = Option.bind (poll D status (\<lambda>x. x AND txe \<noteq> 0) b) (\<lambda>b. Some (reg_set D data (ucast c) b))"
  shows "sends put (\<lambda>b. sent (dev b))"
  unfolding sends_def
proof (intro allI)
  fix c :: u8 and b :: "'d board"
  let ?r = "\<lambda>d. snd (rd D status d)"
  have "becomes D status (\<lambda>x. x AND txe \<noteq> 0) (dev b)" using t by (simp add: transmitter_def)
  then obtain k d where d: "poll D status (\<lambda>x. x AND txe \<noteq> 0) b = Some (b\<lparr>dev := ?r d\<rparr>)" "fst (rd D status d) AND txe \<noteq> 0"
      "d = (?r ^^ k) (dev b)" using poll_ends[of D status "\<lambda>x. x AND txe \<noteq> 0" b] by blast
  have "sent ((?r ^^ k) e) = sent e" for e using t by (induction k) (simp_all add: transmitter_def)
  then have "sent (wr D data (ucast c) (?r d)) = sent (dev b) @ [c]" using t d(2,3) by (simp add: transmitter_def ucast_u8_u32)
  then show "\<exists>b'. put c b = Some b' \<and> sent (dev b') = sent (dev b) @ [c]" using d(1) by (simp add: put reg_set_def)
qed

section \<open>Bit fields\<close>

text \<open>The \<open>i\<close>-th field of \<open>n\<close> bits: the mode of a pin, its alternate function.\<close>

definition field :: "nat \<Rightarrow> u32 \<Rightarrow> nat \<Rightarrow> u32" where
  "field n w i = take_bit n (drop_bit (n * i) w)"

lemma field_update:
  assumes "n * p + n \<le> 32" "n * i + n \<le> 32" "take_bit n x = x"
  shows "field n ((w AND NOT (push_bit (n * p) (mask n))) OR push_bit (n * p) x) i = (if i = p then x else field n w i)"
proof (rule bit_word_eqI)
  fix j assume "j < LENGTH(32)"
  have x: "bit x k \<Longrightarrow> k < n" for k using assms(3) by (metis bit_take_bit_iff)
  have neq: "\<not> (n * p \<le> n * i + j \<and> n * i + j - n * p < n)" if "i \<noteq> p" "j < n"
  proof (cases "i < p")
    case True
    then have "n * i + n \<le> n * p" by (metis Suc_leI mult_Suc_right mult_le_mono2 add.commute)
    then show ?thesis using that by linarith
  next
    case False
    then have "n * p + n \<le> n * i" using that by (metis Suc_leI mult_Suc_right mult_le_mono2 add.commute nat_neq_iff)
    then show ?thesis using that by linarith
  qed
  show "bit (field n ((w AND NOT (push_bit (n * p) (mask n))) OR push_bit (n * p) x) i) j = bit (if i = p then x else field n w i) j"
    using assms(1,2) x[of j] x[of "n * i + j - n * p"] neq
    by (cases "j < n"; cases "i = p") (auto simp: field_def bit_simps)
qed

end
