(* ===== verification/Board_F446.thy ===== *)
theory Board_F446
  imports Board
begin

unbundle bit_operations_syntax

text \<open>
  The board support of the F446RE Nucleo, boards/f446re/board.c. The masks of the vendor's header are the parameter \<open>H\<close>,
  the peripherals the parameter \<open>D\<close>.
\<close>

record f446_header =
  RCC_AHB1ENR_GPIOAEN :: u32
  RCC_AHB1ENR_GPIOCEN :: u32
  RCC_APB1ENR_USART2EN :: u32
  RCC_APB2ENR_SYSCFGEN :: u32
  USART_CR1_TE :: u32
  USART_CR1_UE :: u32
  USART_SR_TXE :: u32
  EXTI15_10_IRQn :: u32

datatype f446_reg =
  RCC_AHB1ENR | RCC_APB1ENR | RCC_APB2ENR
| GPIOA_MODER | GPIOA_AFR0 | GPIOA_BSRR | GPIOC_MODER | GPIOC_PUPDR
| SYSCFG_EXTICR3 | EXTI_IMR | EXTI_RTSR | EXTI_FTSR | EXTI_PR
| USART2_CR1 | USART2_CR2 | USART2_CR3 | USART2_BRR | USART2_SR | USART2_DR

definition BOARD_LED_PIN :: nat where "BOARD_LED_PIN = 5"
definition BOARD_BUTTON_PIN :: nat where "BOARD_BUTTON_PIN = 13"
definition BOARD_USART_BRR_16_MHZ_115200 :: u32 where "BOARD_USART_BRR_16_MHZ_115200 = 139"
definition BOARD_BUTTON_MASK :: u32 where "BOARD_BUTTON_MASK = push_bit BOARD_BUTTON_PIN 1"

definition board_led_set :: "(f446_reg, 'd) mmio \<Rightarrow> bool \<Rightarrow> 'd board \<Rightarrow> 'd board" where
  "board_led_set D enabled b =
     reg_set D GPIOA_BSRR (if enabled then push_bit BOARD_LED_PIN 1 else push_bit (BOARD_LED_PIN + 16) 1) b"

definition board_init :: "f446_header \<Rightarrow> (f446_reg, 'd) mmio \<Rightarrow> 'd board \<Rightarrow> 'd board" where
  "board_init H D b =
     (let b = reg_or D RCC_AHB1ENR (RCC_AHB1ENR_GPIOAEN H) b;
          b = reg_or D RCC_APB1ENR (RCC_APB1ENR_USART2EN H) b;
          b = reg_and D GPIOA_MODER (NOT (push_bit (BOARD_LED_PIN * 2) 3)) b;
          b = reg_or D GPIOA_MODER (push_bit (BOARD_LED_PIN * 2) 1) b;
          b = reg_and D GPIOA_MODER (NOT (push_bit (2 * 2) 3)) b;
          b = reg_or D GPIOA_MODER (push_bit (2 * 2) 2) b;
          b = reg_and D GPIOA_AFR0 (NOT (push_bit (2 * 4) 15)) b;
          b = reg_or D GPIOA_AFR0 (push_bit (2 * 4) 7) b;
          b = reg_set D USART2_CR1 0 b;
          b = reg_set D USART2_CR2 0 b;
          b = reg_set D USART2_CR3 0 b;
          b = reg_set D USART2_BRR BOARD_USART_BRR_16_MHZ_115200 b;
          b = reg_set D USART2_CR1 (USART_CR1_TE H OR USART_CR1_UE H) b
      in board_led_set D False b)"

definition board_button_init :: "f446_header \<Rightarrow> (f446_reg, 'd) mmio \<Rightarrow> u32 \<Rightarrow> 'd board \<Rightarrow> 'd board" where
  "board_button_init H D callback b =
     (let b = b\<lparr>button_callback := callback\<rparr>;
          b = reg_or D RCC_AHB1ENR (RCC_AHB1ENR_GPIOCEN H) b;
          b = reg_or D RCC_APB2ENR (RCC_APB2ENR_SYSCFGEN H) b;
          b = reg_and D GPIOC_MODER (NOT (push_bit (BOARD_BUTTON_PIN * 2) 3)) b;
          b = reg_and D GPIOC_PUPDR (NOT (push_bit (BOARD_BUTTON_PIN * 2) 3)) b;
          b = reg_or D GPIOC_PUPDR (push_bit (BOARD_BUTTON_PIN * 2) 1) b;
          b = reg_and D SYSCFG_EXTICR3 (NOT (push_bit 4 15)) b;
          b = reg_or D SYSCFG_EXTICR3 (push_bit 4 2) b;
          b = reg_and D EXTI_IMR (NOT BOARD_BUTTON_MASK) b;
          b = reg_and D EXTI_RTSR (NOT BOARD_BUTTON_MASK) b;
          b = reg_or D EXTI_FTSR BOARD_BUTTON_MASK b;
          b = reg_set D EXTI_PR BOARD_BUTTON_MASK b;
          b = b\<lparr>dev := NVIC_ClearPendingIRQ D (EXTI15_10_IRQn H) (dev b)\<rparr>;
          b = b\<lparr>dev := NVIC_SetPriority D (EXTI15_10_IRQn H) 13 (dev b)\<rparr>;
          b = reg_or D EXTI_IMR BOARD_BUTTON_MASK b
      in b\<lparr>dev := NVIC_EnableIRQ D (EXTI15_10_IRQn H) (dev b)\<rparr>)"

text \<open>The function a non-NULL \<open>button_callback\<close> points to is the parameter \<open>call\<close>.\<close>

definition EXTI15_10_IRQHandler ::
    "(f446_reg, 'd) mmio \<Rightarrow> (u32 \<Rightarrow> 'd board \<Rightarrow> 'd board) \<Rightarrow> 'd board \<Rightarrow> 'd board" where
  "EXTI15_10_IRQHandler D call b =
     (let (pr, d) = rd D EXTI_PR (dev b); b = b\<lparr>dev := d\<rparr>
      in if pr AND BOARD_BUTTON_MASK = 0 then b
         else let b = reg_set D EXTI_PR BOARD_BUTTON_MASK b
              in if button_callback b \<noteq> 0 then call (button_callback b) b else b)"

definition board_uart_write_char :: "f446_header \<Rightarrow> (f446_reg, 'd) mmio \<Rightarrow> u8 \<Rightarrow> 'd board \<Rightarrow> 'd board option" where
  "board_uart_write_char H D character b =
     Option.bind (poll D USART2_SR (\<lambda>sr. sr AND USART_SR_TXE H \<noteq> 0) b) (\<lambda>b. Some (reg_set D USART2_DR (ucast character) b))"

definition board_uart_write_string :: "f446_header \<Rightarrow> (f446_reg, 'd) mmio \<Rightarrow> u8 list \<Rightarrow> 'd board \<Rightarrow> 'd board option" where
  "board_uart_write_string H D text = write_string (board_uart_write_char H D) text"

definition board_uart_write_uint :: "f446_header \<Rightarrow> (f446_reg, 'd) mmio \<Rightarrow> u8 list \<Rightarrow> u32 \<Rightarrow> 'd board \<Rightarrow> 'd board option" where
  "board_uart_write_uint H D scratch v = write_uint scratch (board_uart_write_char H D) v"

section \<open>Configuration\<close>

definition config_regs :: "f446_reg set" where
  "config_regs = - {GPIOA_BSRR, EXTI_PR, USART2_SR, USART2_DR}"

text \<open>
  \<open>board_init\<close> on registers that keep what is written to them: pin 5 of port A becomes an output and pin 2 an alternate
  function, namely number 7, the USART; all other pins keep their modes and functions. The two clocks are enabled
  without disabling others, and the USART ends up enabled for transmission at 16 MHz divided by 139.
\<close>

theorem f446_init_configures:
  assumes "plain_storage D config_regs v"
  shows "let s = v (dev (board_init H D b)); s0 = v (dev b) in
    s USART2_CR1 = USART_CR1_TE H OR USART_CR1_UE H \<and> s USART2_BRR = 139 \<and> s USART2_CR2 = 0 \<and> s USART2_CR3 = 0 \<and>
    s RCC_AHB1ENR = s0 RCC_AHB1ENR OR RCC_AHB1ENR_GPIOAEN H \<and> s RCC_APB1ENR = s0 RCC_APB1ENR OR RCC_APB1ENR_USART2EN H \<and>
    (\<forall>p < 16. field 2 (s GPIOA_MODER) p = (if p = 5 then 1 else if p = 2 then 2 else field 2 (s0 GPIOA_MODER) p)) \<and>
    (\<forall>p < 8. field 4 (s GPIOA_AFR0) p = (if p = 2 then 7 else field 4 (s0 GPIOA_AFR0) p)) \<and>
    (\<forall>r \<in> {RCC_APB2ENR, GPIOC_MODER, GPIOC_PUPDR, SYSCFG_EXTICR3, EXTI_IMR, EXTI_RTSR, EXTI_FTSR}. s r = s0 r)"
proof -
  define s s0 where "s = v (dev (board_init H D b))" and "s0 = v (dev b)"
  note ops = storage_ops[OF assms(1)] and c = config_regs_def board_init_def board_led_set_def Let_def BOARD_USART_BRR_16_MHZ_115200_def BOARD_LED_PIN_def
  have s: "s USART2_CR1 = USART_CR1_TE H OR USART_CR1_UE H" "s USART2_BRR = 139" "s USART2_CR2 = 0" "s USART2_CR3 = 0"
    "s RCC_AHB1ENR = s0 RCC_AHB1ENR OR RCC_AHB1ENR_GPIOAEN H" "s RCC_APB1ENR = s0 RCC_APB1ENR OR RCC_APB1ENR_USART2EN H"
    "\<forall>r \<in> {RCC_APB2ENR, GPIOC_MODER, GPIOC_PUPDR, SYSCFG_EXTICR3, EXTI_IMR, EXTI_RTSR, EXTI_FTSR}. s r = s0 r"
    by (simp_all add: s_def s0_def c ops)
  have m: "s GPIOA_MODER = (((s0 GPIOA_MODER AND NOT (push_bit (2 * 5) (mask 2))) OR push_bit (2 * 5) 1) AND
      NOT (push_bit (2 * 2) (mask 2))) OR push_bit (2 * 2) 2"
      "s GPIOA_AFR0 = (s0 GPIOA_AFR0 AND NOT (push_bit (4 * 2) (mask 4))) OR push_bit (4 * 2) 7"
    by (simp_all add: s_def s0_def c ops mask_eq_exp_minus_1)
  have "field 2 (s GPIOA_MODER) p = (if p = 5 then 1 else if p = 2 then 2 else field 2 (s0 GPIOA_MODER) p)" if "p < 16" for p
    unfolding m using that by (subst field_update | simp)+
  moreover have "field 4 (s GPIOA_AFR0) p = (if p = 2 then 7 else field 4 (s0 GPIOA_AFR0) p)" if "p < 8" for p
    unfolding m using that by (subst field_update | simp)+
  ultimately show ?thesis using s unfolding s_def s0_def Let_def by simp
qed

lemma f446_board_button_registers:
  fixes H :: f446_header and b :: "'d board" and callback :: u32
  assumes "plain_storage D config_regs v"
  defines "b' \<equiv> board_button_init H D callback b"
  defines "s \<equiv> v (dev b')" and "s0 \<equiv> v (dev b)"
  shows "button_callback b' = callback"
    "bit (s EXTI_IMR) p \<longleftrightarrow> p = 13 \<or> bit (s0 EXTI_IMR) p" "bit (s EXTI_RTSR) p \<longleftrightarrow> p \<noteq> 13 \<and> bit (s0 EXTI_RTSR) p"
    "bit (s EXTI_FTSR) p \<longleftrightarrow> p = 13 \<or> bit (s0 EXTI_FTSR) p"
    "p < 16 \<Longrightarrow> field 2 (s GPIOC_MODER) p = (if p = 13 then 0 else field 2 (s0 GPIOC_MODER) p)"
    "p < 16 \<Longrightarrow> field 2 (s GPIOC_PUPDR) p = (if p = 13 then 1 else field 2 (s0 GPIOC_PUPDR) p)"
    "p < 8 \<Longrightarrow> field 4 (s SYSCFG_EXTICR3) p = (if p = 1 then 2 else field 4 (s0 SYSCFG_EXTICR3) p)"
proof -
  note ops = storage_ops[OF assms(1)] and c = config_regs_def board_button_init_def Let_def BOARD_BUTTON_PIN_def BOARD_BUTTON_MASK_def
  show "button_callback b' = callback" by (simp add: b'_def c)
  have "s EXTI_IMR = (s0 EXTI_IMR AND NOT (push_bit 13 1)) OR push_bit 13 1" "s EXTI_RTSR = s0 EXTI_RTSR AND NOT (push_bit 13 1)"
      "s EXTI_FTSR = s0 EXTI_FTSR OR push_bit 13 1"
    by (simp_all add: s_def s0_def b'_def c ops)
  then show "bit (s EXTI_IMR) p \<longleftrightarrow> p = 13 \<or> bit (s0 EXTI_IMR) p" "bit (s EXTI_RTSR) p \<longleftrightarrow> p \<noteq> 13 \<and> bit (s0 EXTI_RTSR) p"
    "bit (s EXTI_FTSR) p \<longleftrightarrow> p = 13 \<or> bit (s0 EXTI_FTSR) p"
    using bit_set_iff[of 13] bit_clear_iff[of _ 13] by auto
  have m: "s GPIOC_MODER = (s0 GPIOC_MODER AND NOT (push_bit (2 * 13) (mask 2))) OR push_bit (2 * 13) 0"
    "s GPIOC_PUPDR = (s0 GPIOC_PUPDR AND NOT (push_bit (2 * 13) (mask 2))) OR push_bit (2 * 13) 1"
    "s SYSCFG_EXTICR3 = (s0 SYSCFG_EXTICR3 AND NOT (push_bit (4 * 1) (mask 4))) OR push_bit (4 * 1) 2"
    by (simp_all add: s_def s0_def b'_def c ops mask_eq_exp_minus_1)
  show "field 2 (s GPIOC_MODER) p = (if p = 13 then 0 else field 2 (s0 GPIOC_MODER) p)"
    "field 2 (s GPIOC_PUPDR) p = (if p = 13 then 1 else field 2 (s0 GPIOC_PUPDR) p)" if "p < 16"
    unfolding m using that by (subst field_update | simp)+
  show "field 4 (s SYSCFG_EXTICR3) p = (if p = 1 then 2 else field 4 (s0 SYSCFG_EXTICR3) p)" if "p < 8"
    unfolding m using that by (subst field_update | simp)+
qed

text \<open>The handler acknowledges the button before it calls back, and calls back only for the button.\<close>

lemma f446_button_handler:
  assumes "button_callback b = callback"
  shows "EXTI15_10_IRQHandler D call b =
    (let (pr, d) = rd D EXTI_PR (dev b); b' = b\<lparr>dev := wr D EXTI_PR (push_bit 13 1) d\<rparr>
     in if \<not> bit pr 13 then b\<lparr>dev := d\<rparr> else if callback = 0 then b' else call callback b')"
proof -
  have "w AND push_bit 13 1 = 0 \<longleftrightarrow> \<not> bit w 13" for w :: u32 using bit_test_iff[of 13 w] by auto
  then show ?thesis using assms
    by (simp add: EXTI15_10_IRQHandler_def BOARD_BUTTON_MASK_def BOARD_BUTTON_PIN_def reg_set_def Let_def split_beta)
qed

section \<open>Printing\<close>

lemma f446_write_char_sends:
  "transmitter D USART2_SR USART2_DR (USART_SR_TXE H) sent \<Longrightarrow> sends (board_uart_write_char H D) (\<lambda>b. sent (dev b))"
  by (rule transmitter_sends) (simp_all add: board_uart_write_char_def)

end
