(* ===== verification/Board_L4S5.thy ===== *)
theory Board_L4S5
  imports Board
begin

unbundle bit_operations_syntax

text \<open>
  The board support of the L4S5I board, boards/l4s5i/board.c. The masks of the vendor's header are the parameter \<open>H\<close>,
  the peripherals the parameter \<open>D\<close>. Unlike the other board it first switches to the internal oscillator and waits for it.
\<close>

record l4s5_header =
  RCC_CR_HSION :: u32
  RCC_CR_HSIRDY :: u32
  RCC_CFGR_HPRE :: u32
  RCC_CFGR_PPRE1 :: u32
  RCC_CFGR_PPRE2 :: u32
  RCC_CFGR_SW :: u32
  RCC_CFGR_SW_HSI :: u32
  RCC_CFGR_SWS :: u32
  RCC_CFGR_SWS_HSI :: u32
  RCC_AHB2ENR_GPIOAEN :: u32
  RCC_AHB2ENR_GPIOBEN :: u32
  RCC_AHB2ENR_GPIOCEN :: u32
  RCC_APB2ENR_USART1EN :: u32
  RCC_APB2ENR_SYSCFGEN :: u32
  USART_CR1_TE :: u32
  USART_CR1_UE :: u32
  USART_ISR_TXE_TXFNF :: u32
  EXTI15_10_IRQn :: u32

datatype l4s5_reg =
  RCC_CR | RCC_CFGR | RCC_AHB2ENR | RCC_APB2ENR
| GPIOA_MODER | GPIOA_BSRR | GPIOB_MODER | GPIOB_AFR0 | GPIOC_MODER | GPIOC_PUPDR
| SYSCFG_EXTICR3 | EXTI_IMR1 | EXTI_RTSR1 | EXTI_FTSR1 | EXTI_PR1
| USART1_CR1 | USART1_CR2 | USART1_CR3 | USART1_BRR | USART1_ISR | USART1_TDR

definition BOARD_LED_PIN :: nat where "BOARD_LED_PIN = 5"
definition BOARD_BUTTON_PIN :: nat where "BOARD_BUTTON_PIN = 13"
definition BOARD_UART_TX_PIN :: nat where "BOARD_UART_TX_PIN = 6"
definition BOARD_USART_BRR_16_MHZ_115200 :: u32 where "BOARD_USART_BRR_16_MHZ_115200 = 139"
definition BOARD_BUTTON_MASK :: u32 where "BOARD_BUTTON_MASK = push_bit BOARD_BUTTON_PIN 1"

definition board_led_set :: "(l4s5_reg, 'd) mmio \<Rightarrow> bool \<Rightarrow> 'd board \<Rightarrow> 'd board" where
  "board_led_set D enabled b =
     reg_set D GPIOA_BSRR (if enabled then push_bit BOARD_LED_PIN 1 else push_bit (BOARD_LED_PIN + 16) 1) b"

definition board_clock_init :: "l4s5_header \<Rightarrow> (l4s5_reg, 'd) mmio \<Rightarrow> 'd board \<Rightarrow> 'd board option" where
  "board_clock_init H D b =
     (let b = reg_or D RCC_CR (RCC_CR_HSION H) b
      in Option.bind (poll D RCC_CR (\<lambda>cr. cr AND RCC_CR_HSIRDY H \<noteq> 0) b) (\<lambda>b.
         let b = reg_and D RCC_CFGR (NOT (RCC_CFGR_HPRE H OR RCC_CFGR_PPRE1 H OR RCC_CFGR_PPRE2 H OR RCC_CFGR_SW H)) b;
             b = reg_or D RCC_CFGR (RCC_CFGR_SW_HSI H) b
         in Option.bind (poll D RCC_CFGR (\<lambda>cfgr. cfgr AND RCC_CFGR_SWS H = RCC_CFGR_SWS_HSI H) b) (\<lambda>b.
            Some (b\<lparr>SystemCoreClock := 16000000\<rparr>))))"

definition board_init :: "l4s5_header \<Rightarrow> (l4s5_reg, 'd) mmio \<Rightarrow> 'd board \<Rightarrow> 'd board option" where
  "board_init H D b =
     Option.bind (board_clock_init H D b) (\<lambda>b.
     let b = reg_or D RCC_AHB2ENR (RCC_AHB2ENR_GPIOAEN H OR RCC_AHB2ENR_GPIOBEN H) b;
         b = reg_or D RCC_APB2ENR (RCC_APB2ENR_USART1EN H) b;
         b = reg_and D GPIOA_MODER (NOT (push_bit (BOARD_LED_PIN * 2) 3)) b;
         b = reg_or D GPIOA_MODER (push_bit (BOARD_LED_PIN * 2) 1) b;
         b = reg_and D GPIOB_MODER (NOT (push_bit (BOARD_UART_TX_PIN * 2) 3)) b;
         b = reg_or D GPIOB_MODER (push_bit (BOARD_UART_TX_PIN * 2) 2) b;
         b = reg_and D GPIOB_AFR0 (NOT (push_bit (BOARD_UART_TX_PIN * 4) 15)) b;
         b = reg_or D GPIOB_AFR0 (push_bit (BOARD_UART_TX_PIN * 4) 7) b;
         b = reg_set D USART1_CR1 0 b;
         b = reg_set D USART1_CR2 0 b;
         b = reg_set D USART1_CR3 0 b;
         b = reg_set D USART1_BRR BOARD_USART_BRR_16_MHZ_115200 b;
         b = reg_set D USART1_CR1 (USART_CR1_TE H OR USART_CR1_UE H) b
     in Some (board_led_set D False b))"

definition board_button_init :: "l4s5_header \<Rightarrow> (l4s5_reg, 'd) mmio \<Rightarrow> u32 \<Rightarrow> 'd board \<Rightarrow> 'd board" where
  "board_button_init H D callback b =
     (let b = b\<lparr>button_callback := callback\<rparr>;
          b = reg_or D RCC_AHB2ENR (RCC_AHB2ENR_GPIOCEN H) b;
          b = reg_or D RCC_APB2ENR (RCC_APB2ENR_SYSCFGEN H) b;
          b = reg_and D GPIOC_MODER (NOT (push_bit (BOARD_BUTTON_PIN * 2) 3)) b;
          b = reg_and D GPIOC_PUPDR (NOT (push_bit (BOARD_BUTTON_PIN * 2) 3)) b;
          b = reg_or D GPIOC_PUPDR (push_bit (BOARD_BUTTON_PIN * 2) 1) b;
          b = reg_and D SYSCFG_EXTICR3 (NOT (push_bit 4 15)) b;
          b = reg_or D SYSCFG_EXTICR3 (push_bit 4 2) b;
          b = reg_and D EXTI_IMR1 (NOT BOARD_BUTTON_MASK) b;
          b = reg_and D EXTI_RTSR1 (NOT BOARD_BUTTON_MASK) b;
          b = reg_or D EXTI_FTSR1 BOARD_BUTTON_MASK b;
          b = reg_set D EXTI_PR1 BOARD_BUTTON_MASK b;
          b = b\<lparr>dev := NVIC_ClearPendingIRQ D (EXTI15_10_IRQn H) (dev b)\<rparr>;
          b = b\<lparr>dev := NVIC_SetPriority D (EXTI15_10_IRQn H) 13 (dev b)\<rparr>;
          b = reg_or D EXTI_IMR1 BOARD_BUTTON_MASK b
      in b\<lparr>dev := NVIC_EnableIRQ D (EXTI15_10_IRQn H) (dev b)\<rparr>)"

text \<open>The function a non-NULL \<open>button_callback\<close> points to is the parameter \<open>call\<close>.\<close>

definition EXTI15_10_IRQHandler ::
    "(l4s5_reg, 'd) mmio \<Rightarrow> (u32 \<Rightarrow> 'd board \<Rightarrow> 'd board) \<Rightarrow> 'd board \<Rightarrow> 'd board" where
  "EXTI15_10_IRQHandler D call b =
     (let (pr, d) = rd D EXTI_PR1 (dev b); b = b\<lparr>dev := d\<rparr>
      in if pr AND BOARD_BUTTON_MASK = 0 then b
         else let b = reg_set D EXTI_PR1 BOARD_BUTTON_MASK b
              in if button_callback b \<noteq> 0 then call (button_callback b) b else b)"

definition board_uart_write_char :: "l4s5_header \<Rightarrow> (l4s5_reg, 'd) mmio \<Rightarrow> u8 \<Rightarrow> 'd board \<Rightarrow> 'd board option" where
  "board_uart_write_char H D character b =
     Option.bind (poll D USART1_ISR (\<lambda>isr. isr AND USART_ISR_TXE_TXFNF H \<noteq> 0) b) (\<lambda>b. Some (reg_set D USART1_TDR (ucast character) b))"

definition board_uart_write_string :: "l4s5_header \<Rightarrow> (l4s5_reg, 'd) mmio \<Rightarrow> u8 list \<Rightarrow> 'd board \<Rightarrow> 'd board option" where
  "board_uart_write_string H D text = write_string (board_uart_write_char H D) text"

definition board_uart_write_uint :: "l4s5_header \<Rightarrow> (l4s5_reg, 'd) mmio \<Rightarrow> u8 list \<Rightarrow> u32 \<Rightarrow> 'd board \<Rightarrow> 'd board option" where
  "board_uart_write_uint H D scratch v = write_uint scratch (board_uart_write_char H D) v"

section \<open>Configuration\<close>

definition config_regs :: "l4s5_reg set" where
  "config_regs = - {RCC_CR, RCC_CFGR, GPIOA_BSRR, EXTI_PR1, USART1_ISR, USART1_TDR}"

text \<open>The oscillator is ready and selected sooner or later.\<close>

definition oscillator :: "l4s5_header \<Rightarrow> (l4s5_reg, 'd) mmio \<Rightarrow> bool" where
  "oscillator H D \<longleftrightarrow> (\<forall>d. becomes D RCC_CR (\<lambda>cr. cr AND RCC_CR_HSIRDY H \<noteq> 0) d \<and>
     becomes D RCC_CFGR (\<lambda>cfgr. cfgr AND RCC_CFGR_SWS H = RCC_CFGR_SWS_HSI H) d)"

lemma clock_init_runs:
  assumes "oscillator H D" "plain_storage D config_regs v"
  shows "\<exists>b'. board_clock_init H D b = Some b' \<and> SystemCoreClock b' = 16000000 \<and> button_callback b' = button_callback b \<and>
           (\<forall>r \<in> config_regs. v (dev b') r = v (dev b) r)"
proof -
  let ?b1 = "reg_or D RCC_CR (RCC_CR_HSION H) b"
  obtain b2 where b2: "poll D RCC_CR (\<lambda>cr. cr AND RCC_CR_HSIRDY H \<noteq> 0) ?b1 = Some b2" "button_callback b2 = button_callback b"
      "\<forall>r \<in> config_regs. v (dev b2) r = v (dev ?b1) r"
    using poll_storage[OF _ assms(2), of RCC_CR "\<lambda>cr. cr AND RCC_CR_HSIRDY H \<noteq> 0" ?b1] assms(1) by (auto simp: oscillator_def)
  let ?b3 = "reg_or D RCC_CFGR (RCC_CFGR_SW_HSI H)
      (reg_and D RCC_CFGR (NOT (RCC_CFGR_HPRE H OR RCC_CFGR_PPRE1 H OR RCC_CFGR_PPRE2 H OR RCC_CFGR_SW H)) b2)"
  obtain b4 where b4: "poll D RCC_CFGR (\<lambda>cfgr. cfgr AND RCC_CFGR_SWS H = RCC_CFGR_SWS_HSI H) ?b3 = Some b4"
      "button_callback b4 = button_callback b2" "\<forall>r \<in> config_regs. v (dev b4) r = v (dev ?b3) r"
    using poll_storage[OF _ assms(2), of RCC_CFGR "\<lambda>cfgr. cfgr AND RCC_CFGR_SWS H = RCC_CFGR_SWS_HSI H" ?b3] assms(1)
    by (auto simp: oscillator_def)
  have "v (dev b4) r = v (dev b) r" if r: "r \<in> config_regs" for r
  proof -
    have "r \<noteq> RCC_CR" "r \<noteq> RCC_CFGR" using r by (auto simp: config_regs_def)
    then show ?thesis using b2(3) b4(3) r storage_ops(2,3)[OF assms(2) r] by simp
  qed
  then show ?thesis using b2(1,2) b4(1,2) by (simp add: board_clock_init_def)
qed


lemma l4s5_board_button_registers:
  fixes H :: l4s5_header and b :: "'d board" and callback :: u32
  assumes "plain_storage D config_regs v"
  defines "b' \<equiv> board_button_init H D callback b"
  defines "s \<equiv> v (dev b')" and "s0 \<equiv> v (dev b)"
  shows "button_callback b' = callback"
    "bit (s EXTI_IMR1) p \<longleftrightarrow> p = 13 \<or> bit (s0 EXTI_IMR1) p" "bit (s EXTI_RTSR1) p \<longleftrightarrow> p \<noteq> 13 \<and> bit (s0 EXTI_RTSR1) p"
    "bit (s EXTI_FTSR1) p \<longleftrightarrow> p = 13 \<or> bit (s0 EXTI_FTSR1) p"
    "p < 16 \<Longrightarrow> field 2 (s GPIOC_MODER) p = (if p = 13 then 0 else field 2 (s0 GPIOC_MODER) p)"
    "p < 16 \<Longrightarrow> field 2 (s GPIOC_PUPDR) p = (if p = 13 then 1 else field 2 (s0 GPIOC_PUPDR) p)"
    "p < 8 \<Longrightarrow> field 4 (s SYSCFG_EXTICR3) p = (if p = 1 then 2 else field 4 (s0 SYSCFG_EXTICR3) p)"
proof -
  note ops = storage_ops[OF assms(1)] and c = config_regs_def board_button_init_def Let_def BOARD_BUTTON_PIN_def BOARD_BUTTON_MASK_def
  show "button_callback b' = callback" by (simp add: b'_def c)
  have "s EXTI_IMR1 = (s0 EXTI_IMR1 AND NOT (push_bit 13 1)) OR push_bit 13 1" "s EXTI_RTSR1 = s0 EXTI_RTSR1 AND NOT (push_bit 13 1)"
      "s EXTI_FTSR1 = s0 EXTI_FTSR1 OR push_bit 13 1"
    by (simp_all add: s_def s0_def b'_def c ops)
  then show "bit (s EXTI_IMR1) p \<longleftrightarrow> p = 13 \<or> bit (s0 EXTI_IMR1) p" "bit (s EXTI_RTSR1) p \<longleftrightarrow> p \<noteq> 13 \<and> bit (s0 EXTI_RTSR1) p"
    "bit (s EXTI_FTSR1) p \<longleftrightarrow> p = 13 \<or> bit (s0 EXTI_FTSR1) p"
    using bit_set_iff[of 13] bit_clear_iff[of _ 13] by auto
  have m: "s GPIOC_MODER = (s0 GPIOC_MODER AND NOT (push_bit (2 * 13) (mask 2))) OR push_bit (2 * 13) 0"
    "s GPIOC_PUPDR = (s0 GPIOC_PUPDR AND NOT (push_bit (2 * 13) (mask 2))) OR push_bit (2 * 13) 1"
    "s SYSCFG_EXTICR3 = (s0 SYSCFG_EXTICR3 AND NOT (push_bit (4 * 1) (mask 4))) OR push_bit (4 * 1) 2"
    by (simp_all add: s_def s0_def b'_def c ops mask_eq_exp_minus_1)
  show "field 2 (s GPIOC_MODER) p = (if p = 13 then 0 else field 2 (s0 GPIOC_MODER) p)"
    "field 2 (s GPIOC_PUPDR) p = (if p = 13 then 1 else field 2 (s0 GPIOC_PUPDR) p)" if "p < 16"
    unfolding m using that by (subst field_update | simp)+
  show "field 4 (s SYSCFG_EXTICR3) p = (if p = 1 then 2 else field 4 (s0 SYSCFG_EXTICR3) p)" if "p < 8"
    unfolding m using that by (subst field_update | simp)+
qed

text \<open>The handler acknowledges the button before it calls back, and calls back only for the button.\<close>

lemma l4s5_button_handler:
  assumes "button_callback b = callback"
  shows "EXTI15_10_IRQHandler D call b =
    (let (pr, d) = rd D EXTI_PR1 (dev b); b' = b\<lparr>dev := wr D EXTI_PR1 (push_bit 13 1) d\<rparr>
     in if \<not> bit pr 13 then b\<lparr>dev := d\<rparr> else if callback = 0 then b' else call callback b')"
proof -
  have "w AND push_bit 13 1 = 0 \<longleftrightarrow> \<not> bit w 13" for w :: u32 using bit_test_iff[of 13 w] by auto
  then show ?thesis using assms
    by (simp add: EXTI15_10_IRQHandler_def BOARD_BUTTON_MASK_def BOARD_BUTTON_PIN_def reg_set_def Let_def split_beta)
qed

section \<open>Printing\<close>

lemma l4s5_write_char_sends:
  "transmitter D USART1_ISR USART1_TDR (USART_ISR_TXE_TXFNF H) sent \<Longrightarrow> sends (board_uart_write_char H D) (\<lambda>b. sent (dev b))"
  by (rule transmitter_sends) (simp_all add: board_uart_write_char_def)

end
