(* ===== verification/Boards.thy ===== *)
theory Boards
  imports Board_F446 Board_L4S5
begin

unbundle bit_operations_syntax

text \<open>What both boards do: the text on the serial line, and the button.\<close>

text \<open>
  \<^bold>\<open>C32.\<close> \<open>board_uart_write_uint\<close> on either board, with a serial line that accepts the next character sooner or later: it
  returns, it has stayed inside its buffer of ten characters, and it has sent the decimal digits of the number, from one to ten
  of them, without a leading zero except for the number zero itself; reading them back gives the number.
\<close>

theorem boards_print_decimal:
  assumes "transmitter D f446_reg.USART2_SR f446_reg.USART2_DR (f446_header.USART_SR_TXE H) sent"
    and "transmitter D' l4s5_reg.USART1_ISR l4s5_reg.USART1_TDR (l4s5_header.USART_ISR_TXE_TXFNF H') sent'"
    and "length scratch \<ge> 10"
  shows "(\<exists>b1 cs. Board_F446.board_uart_write_uint H D scratch v b = Some b1 \<and> sent (dev b1) = sent (dev b) @ cs \<and> prints v cs) \<and>
         (\<exists>b1 cs. Board_L4S5.board_uart_write_uint H' D' scratch v b' = Some b1 \<and> sent' (dev b1) = sent' (dev b') @ cs \<and> prints v cs)"
  using write_uint_sends[OF f446_write_char_sends[OF assms(1)] assms(3), of v b]
    write_uint_sends[OF l4s5_write_char_sends[OF assms(2)] assms(3), of v b'] prints_decimal[of v]
  unfolding Board_F446.board_uart_write_uint_def Board_L4S5.board_uart_write_uint_def by blast


end
