(* ===== verification/Demos.thy ===== *)
theory Demos
  imports System Boards
begin

unbundle bit_operations_syntax

text \<open>
  The demo applications (demos/): their \<open>main\<close> functions, which set the whole system up, over either board, and the button
  interrupt of the showcase. Kernel objects have the numbers of their kind in the
  order of the source; the addresses that the linker chooses are parameters.
\<close>

section \<open>Setting up a system\<close>

text \<open>Before the kernel starts: a reachable state with the lists \<open>C\<close>, the objects \<open>L\<close> and \<open>n\<close> tasks.\<close>

definition prepared :: "(u32 \<Rightarrow> u8) \<Rightarrow> 'z mutex_kernel_scheme \<Rightarrow> list_ref set \<Rightarrow> list_view \<Rightarrow> nat \<Rightarrow> bool" where
  "prepared clz s L C n \<longleftrightarrow> reachable clz s L \<and> minv s C \<and> objects_of C = L \<and> cur_task s = None \<and> unat (tsk_cnt s) = n"

lemma boot_prepared: "pool_bounded s \<Longrightarrow> prepared clz (artos_init s) {} boot_view 0"
  using boot_minv[of s] system_init_kinv[of s] reachable.boot[of s clz]
  by (auto simp: prepared_def artos_init_def objects_of_def boot_view_def split: list_ref.splits)

lemma semaphore_prepared:
  assumes p: "prepared clz s L C n" and k: "SemWaitL k \<notin> L"
  shows "\<exists>s'. artos_binary_semaphore_init (Some k) a s = (Some k, s') \<and> prepared clz s' (insert (SemWaitL k) L) (C(SemWaitL k \<mapsto> [])) n \<and>
           queues s' = queues s"
proof -
  let ?x = "(sems s k)\<lparr>sem_count := if a then 1 else 0, sem_max := 1\<rparr>"
  let ?s' = "s\<lparr>sems := (sems s)(k := ?x), lists := rtos_init_list (Some (SemWaitL k)) (lists s)\<rparr>"
  have p': "reachable clz s L" "minv s C" "objects_of C = L" "cur_task s = None" "unat (tsk_cnt s) = n" using p by (auto simp: prepared_def)
  have c: "C (SemWaitL k) = None" using k p'(3) by (auto simp: objects_of_def)
  have e: "artos_binary_semaphore_init (Some k) a s = (Some k, ?s')" by (simp add: artos_binary_semaphore_init_def upd_sem_def)
  have "reachable clz ?s' (insert (SemWaitL k) L)"
    by (rule reachable.event[OF p'(1), of "BinaryInit k a"]) (simp_all add: e k)
  moreover have "minv ?s' (C(SemWaitL k \<mapsto> []))" using c by (intro new_semaphore_minv[OF p'(2)]) simp_all
  ultimately have "prepared clz ?s' (insert (SemWaitL k) L) (C(SemWaitL k \<mapsto> [])) n"
    using p'(3-5) objects_new[of "SemWaitL k" C "[]"] by (simp add: prepared_def)
  then show ?thesis using e by auto
qed

lemma mutex_prepared:
  assumes p: "prepared clz s L C n" and k: "MutexLockL k \<notin> L"
  shows "\<exists>s'. artos_mutex_init (Some k) s = (Some k, s') \<and> prepared clz s' (insert (MutexLockL k) L) (C(MutexLockL k \<mapsto> [])) n"
proof -
  let ?s' = "(set_owner_of k None s)\<lparr>lists := rtos_init_list (Some (MutexLockL k)) (lists s)\<rparr>"
  have p': "reachable clz s L" "minv s C" "objects_of C = L" "cur_task s = None" "unat (tsk_cnt s) = n" using p by (auto simp: prepared_def)
  have c: "C (MutexLockL k) = None" using k p'(3) by (auto simp: objects_of_def)
  have e: "artos_mutex_init (Some k) s = (Some k, ?s')" by (simp add: artos_mutex_init_def)
  have "reachable clz ?s' (insert (MutexLockL k) L)"
    by (rule reachable.event[OF p'(1), of "MutexInit k"]) (simp_all add: e k)
  moreover have "minv ?s' (C(MutexLockL k \<mapsto> []))" using c by (intro minv_new_mutex[OF p'(2)]) simp
  ultimately have "prepared clz ?s' (insert (MutexLockL k) L) (C(MutexLockL k \<mapsto> [])) n"
    using p'(3-5) objects_new[of "MutexLockL k" C "[]"] by (simp add: prepared_def)
  then show ?thesis using e by auto
qed

lemma queue_prepared:
  assumes p: "prepared clz s L C n" and k: "QueueReadL k \<notin> L" "QueueWriteL k \<notin> L"
    and a: "storage \<noteq> 0" "capacity \<noteq> 0" "item_size \<noteq> 0" "\<not> SIZE_MAX div item_size < capacity"
    and d: "clear_of_queues storage (unat item_size * unat capacity) L s"
  shows "\<exists>s'. artos_queue_init (Some k) storage item_size capacity s = (Some k, s') \<and>
           prepared clz s' ({QueueReadL k, QueueWriteL k} \<union> L) (C(QueueReadL k \<mapsto> [], QueueWriteL k \<mapsto> [])) n \<and>
           queues s' = (queues s)(k := (queues s k)\<lparr>q_count := 0, q_item_size := item_size, q_capacity := capacity,
             q_read_index := 0, q_write_index := 0, q_storage := storage\<rparr>)"
proof -
  let ?q = "(queues s k)\<lparr>q_count := 0, q_item_size := item_size, q_capacity := capacity, q_read_index := 0,
      q_write_index := 0, q_storage := storage\<rparr>"
  let ?m = "rtos_init_list (Some (QueueWriteL k)) (rtos_init_list (Some (QueueReadL k)) (lists s))"
  let ?s' = "s\<lparr>queues := (queues s)(k := ?q), lists := ?m\<rparr>" and ?C = "C(QueueReadL k \<mapsto> [], QueueWriteL k \<mapsto> [])"
  have p': "reachable clz s L" "minv s C" "objects_of C = L" "cur_task s = None" "unat (tsk_cnt s) = n" using p by (auto simp: prepared_def)
  have c: "C (QueueReadL k) = None" "C (QueueWriteL k) = None" using k p'(3) by (auto simp: objects_of_def)
  have e: "artos_queue_init (Some k) storage item_size capacity s = (Some k, ?s')"
    using a by (simp add: artos_queue_init_def upd_queue_def)
  have "reachable clz ?s' ({QueueReadL k, QueueWriteL k} \<union> L)"
    by (rule reachable.event[OF p'(1), of "QueueInit k storage item_size capacity"]) (simp_all add: e k d)
  moreover have "minv ?s' ?C" using c a d created_live(2)[OF p'(3)]
    by (intro new_queue_minv[OF p'(2)]) (auto simp: clear_of_queues_def)
  moreover have "objects_of ?C = {QueueReadL k, QueueWriteL k} \<union> objects_of C"
    using objects_new[of "QueueReadL k" C "[]"] objects_new[of "QueueWriteL k" "C(QueueReadL k \<mapsto> [])" "[]"] by auto
  ultimately show ?thesis using e p'(3-5) by (simp add: prepared_def)
qed

lemma task_prepared:
  assumes p: "prepared clz s L C n" and n: "n < ARTOS_MAX_TASKS"
    and a: "stack \<noteq> 0" "entry \<noteq> 0" "unat prio < ARTOS_PRIORITY_COUNT" "(stack + 4 * words) AND 7 = 0" "ARTOS_MIN_STACK_WORDS \<le> words"
  shows "\<exists>s'. artos_task_create entry argument stack words prio s = Ret (ARTOS_OK, s') \<and>
           prepared clz s' L (append_to (ReadyL (unat prio)) (StateItem (Pool n)) C) (Suc n) \<and> touches {} s s'"
proof -
  have p': "reachable clz s L" "minv s C" "objects_of C = L" "cur_task s = None" "unat (tsk_cnt s) = n" using p by (auto simp: prepared_def)
  obtain s' where s': "artos_task_create entry argument stack words prio s = Ret (ARTOS_OK, s')"
      "minv s' (append_to (ReadyL (unat prio)) (StateItem (Pool n)) C)" "same_live C (append_to (ReadyL (unat prio)) (StateItem (Pool n)) C)"
      "cur_task s' = None" "tsk_cnt s' = tsk_cnt s + 1" "touches {} s s'"
    using create_new_task[OF p'(2) _ a, of argument "{}"] n p'(4,5) by auto
  have "reachable clz s' L"
    by (rule reachable.event[OF p'(1), of "Create entry argument stack words prio"]) (simp_all add: s'(1) with_objects_def)
  moreover have "unat (tsk_cnt s') = Suc n" using s'(5) p'(5) n unat_inc_small[of "tsk_cnt s"] by (simp add: ARTOS_MAX_TASKS_def)
  ultimately show ?thesis using s' p'(3) by (auto simp: prepared_def same_live_objects)
qed

lemma highest_ready_unique: "highest_ready C p t xs \<Longrightarrow> highest_ready C q u ys \<Longrightarrow> u = t"
  unfolding highest_ready_def by (metis insertCI insertE item_ref.inject(2) list.inject list.distinct(1) nat_neq_iff option.distinct(1) option.inject singletonD)

lemma start_prepared:
  assumes p: "prepared clz s L C n" and clz: "clz_spec clz" and r: "\<not> none_ready C"
  shows "\<exists>s' t C'. artos_start clz s = Ret (None, s') \<and> reachable clz s' L \<and> running s' t \<and> scheduled C t C' \<and> unat (tsk_cnt s') = n \<and>
           touches {} s s'"
proof -
  have p': "reachable clz s L" "minv s C" "cur_task s = None" "unat (tsk_cnt s) = n" using p by (auto simp: prepared_def)
  obtain t s' C' where s': "artos_start clz s = Ret (None, s')" "scheduled C t C'" "running s' t" "quiet s C s' C'" "kinv s' C'" "tick_ok s' C'"
    using start_runs[OF minvD(5,6)[OF p'(2)] clz p'(3)] r by auto
  have "touches {} s s'" by (rule minv_quiet(3)[OF p'(2) s'(5,6,4)])
  moreover have "reachable clz s' L" by (rule reachable.event[OF p'(1), of Start]) (simp_all add: s'(1) with_objects_def p'(3))
  ultimately show ?thesis using s' p'(4) by (auto simp: quiet_def)
qed

section \<open>The board, seen by an application\<close>

record 'b board_api =
  api_init :: "'b \<Rightarrow> 'b option"
  api_button_init :: "u32 \<Rightarrow> 'b \<Rightarrow> 'b"
  api_led_set :: "bool \<Rightarrow> 'b \<Rightarrow> 'b"
  api_write_char :: "u8 \<Rightarrow> 'b \<Rightarrow> 'b option"
  api_write_string :: "u8 list \<Rightarrow> 'b \<Rightarrow> 'b option"
  api_write_uint :: "u32 \<Rightarrow> 'b \<Rightarrow> 'b option"

definition f446_api :: "f446_header \<Rightarrow> (f446_reg, 'd) mmio \<Rightarrow> u8 list \<Rightarrow> 'd board board_api" where
  "f446_api H D scratch =
     \<lparr>api_init = (\<lambda>b. Some (Board_F446.board_init H D b)), api_button_init = Board_F446.board_button_init H D,
      api_led_set = Board_F446.board_led_set D, api_write_char = Board_F446.board_uart_write_char H D,
      api_write_string = Board_F446.board_uart_write_string H D, api_write_uint = Board_F446.board_uart_write_uint H D scratch\<rparr>"

definition l4s5_api :: "l4s5_header \<Rightarrow> (l4s5_reg, 'd) mmio \<Rightarrow> u8 list \<Rightarrow> 'd board board_api" where
  "l4s5_api H D scratch =
     \<lparr>api_init = Board_L4S5.board_init H D, api_button_init = Board_L4S5.board_button_init H D,
      api_led_set = Board_L4S5.board_led_set D, api_write_char = Board_L4S5.board_uart_write_char H D,
      api_write_string = Board_L4S5.board_uart_write_string H D, api_write_uint = Board_L4S5.board_uart_write_uint H D scratch\<rparr>"

text \<open>A call of the board from the application; one that does not return hangs it.\<close>

definition io :: "'b option \<Rightarrow> ('b \<Rightarrow> ('a, 's) res) \<Rightarrow> ('a, 's) res" where
  "io r k = (case r of None \<Rightarrow> Loops | Some b \<Rightarrow> k b)"

text \<open>A string literal.\<close>

definition cstr :: "string \<Rightarrow> u8 list" where
  "cstr cs = map of_char cs @ [0]"

text \<open>\<open>create_task_or_halt\<close>, also written out in the showcase: an error ends in \<open>for (;;) {}\<close>.\<close>

definition create_task_or_halt ::
    "u32 \<Rightarrow> u32 \<Rightarrow> u32 \<Rightarrow> u32 \<Rightarrow> u8 \<Rightarrow> 'z mutex_kernel_scheme \<Rightarrow> ('z mutex_kernel_scheme, 'z) mres" where
  "create_task_or_halt entry argument stack words prio s =
     res_bind (artos_task_create entry argument stack words prio s) (\<lambda>(status, s). if status \<noteq> ARTOS_OK then Loops else Ret s)"

text \<open>\<open>artos_start\<close> at the end of \<open>main\<close>; if it returns, \<open>main\<close> loops.\<close>

definition start_or_halt :: "(u32 \<Rightarrow> u8) \<Rightarrow> 'b \<Rightarrow> 'z mutex_kernel_scheme \<Rightarrow> ('z mutex_kernel_scheme \<times> 'b, 'z) mres" where
  "start_or_halt clz b s = res_bind (artos_start clz s) (\<lambda>(r, s). case r of Some _ \<Rightarrow> Loops | None \<Rightarrow> Ret (s, b))"

section \<open>The priority demo\<close>

text \<open>Where the linker put the functions, stacks and arguments.\<close>

record priority_image =
  p_worker_task :: u32
  p_high_task :: u32
  p_worker_a :: u32
  p_worker_b :: u32
  p_worker_a_stack :: u32
  p_worker_b_stack :: u32
  p_high_stack :: u32

definition TASK_STACK_WORDS :: u32 where "TASK_STACK_WORDS = 128"
definition LOW_PRIORITY :: u8 where "LOW_PRIORITY = 0"
definition HIGH_PRIORITY :: u8 where "HIGH_PRIORITY = 1"

definition priority_main ::
    "priority_image \<Rightarrow> 'b board_api \<Rightarrow> (u32 \<Rightarrow> u8) \<Rightarrow> 'b \<Rightarrow> 'z mutex_kernel_scheme \<Rightarrow> ('z mutex_kernel_scheme \<times> 'b, 'z) mres" where
  "priority_main I A clz b s =
     io (api_init A b) (\<lambda>b.
     let s = artos_init s;
         (uart_lock, s) = artos_binary_semaphore_init (Some 0) True s
     in if uart_lock = None then Loops else
     io (api_write_string A (cstr (''aRTOS priority demo'' @ [CHR 0x0A])) b) (\<lambda>b.
     io (api_write_string A (cstr (''Two priority-0 tasks round-robin; priority 1 preempts them every second.'' @ [CHR 0x0A])) b) (\<lambda>b.
     res_bind (create_task_or_halt (p_worker_task I) (p_worker_a I) (p_worker_a_stack I) TASK_STACK_WORDS LOW_PRIORITY s) (\<lambda>s.
     res_bind (create_task_or_halt (p_worker_task I) (p_worker_b I) (p_worker_b_stack I) TASK_STACK_WORDS LOW_PRIORITY s) (\<lambda>s.
     res_bind (create_task_or_halt (p_high_task I) 0 (p_high_stack I) TASK_STACK_WORDS HIGH_PRIORITY s)
       (start_or_halt clz b))))))"

text \<open>What the application relies on: the board returns; code is not at address 0, stacks are not either and are aligned to eight bytes.\<close>

definition api_ok :: "'b board_api \<Rightarrow> bool" where
  "api_ok A \<longleftrightarrow> (\<forall>b. (\<exists>b'. api_init A b = Some b') \<and> (\<forall>cs. 0 \<notin> set cs \<longrightarrow> (\<exists>b'. api_write_string A (cs @ [0]) b = Some b')))"

lemma f446_api_ok:
  assumes "transmitter D f446_reg.USART2_SR f446_reg.USART2_DR (f446_header.USART_SR_TXE H) sent"
  shows "api_ok (f446_api H D scratch)"
proof -
  have "\<exists>b'. Board_F446.board_uart_write_string H D (cs @ [0]) b = Some b'" if "0 \<notin> set cs" for cs b
    using write_string_sends[OF f446_write_char_sends[OF assms] that, of "[]" b] by (auto simp: Board_F446.board_uart_write_string_def)
  then show ?thesis by (simp add: api_ok_def f446_api_def)
qed

lemma l4s5_api_ok:
  assumes "transmitter D l4s5_reg.USART1_ISR l4s5_reg.USART1_TDR (l4s5_header.USART_ISR_TXE_TXFNF H) sent"
    and "oscillator H D" "plain_storage D Board_L4S5.config_regs v"
  shows "api_ok (l4s5_api H D scratch)"
proof -
  have "\<exists>b'. Board_L4S5.board_init H D b = Some b'" for b
    using clock_init_runs[OF assms(2,3), of b] by (auto simp: Board_L4S5.board_init_def Let_def)
  moreover have "\<exists>b'. Board_L4S5.board_uart_write_string H D (cs @ [0]) b = Some b'" if "0 \<notin> set cs" for cs b
    using write_string_sends[OF l4s5_write_char_sends[OF assms(1)] that, of "[]" b] by (auto simp: Board_L4S5.board_uart_write_string_def)
  ultimately show ?thesis by (simp add: api_ok_def l4s5_api_def)
qed

definition task_ok_at :: "u32 \<Rightarrow> u32 \<Rightarrow> bool" where
  "task_ok_at entry stack \<longleftrightarrow> entry \<noteq> 0 \<and> stack \<noteq> 0 \<and> stack AND 7 = 0"

lemma aligned_top:
  assumes "stack AND 7 = 0"
  shows "(stack + 4 * TASK_STACK_WORDS) AND 7 = 0"
proof -
  have m: "w AND 7 = 0 \<longleftrightarrow> unat w mod 8 = 0" for w :: u32
  proof -
    have "unat (w AND 7) = unat w mod 2 ^ 3" unfolding take_bit_eq_mod[symmetric] take_bit_eq_mask by (simp add: unsigned_and_eq mask_eq_exp_minus_1)
    then show ?thesis by (simp add: word_unat_eq_iff)
  qed
  have "unat (stack + 4 * TASK_STACK_WORDS) = (unat stack + 512) mod 2 ^ 32" by (simp add: unat_word_ariths(1) TASK_STACK_WORDS_def)
  moreover have "(unat stack + 512) mod 2 ^ 32 mod 8 = (unat stack + 512) mod 8" by (rule mod_mod_cancel) simp
  moreover have "(unat stack + 512) mod 8 = 0" if "unat stack mod 8 = 0" using that by presburger
  ultimately show ?thesis using assms unfolding m by simp
qed

lemma create_or_halt_prepared:
  assumes "prepared clz s L C n" "n < ARTOS_MAX_TASKS" "task_ok_at entry stack" "unat prio < ARTOS_PRIORITY_COUNT"
  shows "\<exists>s'. create_task_or_halt entry argument stack TASK_STACK_WORDS prio s = Ret s' \<and>
           prepared clz s' L (append_to (ReadyL (unat prio)) (StateItem (Pool n)) C) (Suc n) \<and> touches {} s s'"
proof -
  have "ARTOS_MIN_STACK_WORDS \<le> TASK_STACK_WORDS" by (simp add: ARTOS_MIN_STACK_WORDS_def TASK_STACK_WORDS_def)
  then show ?thesis
    using task_prepared[OF assms(1,2), of stack entry prio TASK_STACK_WORDS argument] assms(3,4) aligned_top[of stack]
    by (auto simp: create_task_or_halt_def task_ok_at_def)
qed

lemma start_or_halt_prepared:
  assumes "prepared clz s L C n" "clz_spec clz" "highest_ready C p t xs"
  shows "\<exists>s'. start_or_halt clz b s = Ret (s', b) \<and> reachable clz s' L \<and> running s' t \<and> unat (tsk_cnt s') = n \<and> touches {} s s'"
proof -
  have r: "\<not> none_ready C" using assms(3) by (auto simp: none_ready_def highest_ready_def intro!: exI[of _ p])
  obtain s' u C' where s': "artos_start clz s = Ret (None, s')" "reachable clz s' L" "running s' u" "scheduled C u C'" "unat (tsk_cnt s') = n" "touches {} s s'"
    using start_prepared[OF assms(1,2) r] by blast
  have "u = t" using s'(4) r assms(3) highest_ready_unique by (auto simp: scheduled_def)
  then show ?thesis using s' by (simp add: start_or_halt_def)
qed

lemma write_string_returns:
  assumes "api_ok A" "0 \<notin> set (map of_char cs :: u8 list)"
  shows "\<exists>b'. api_write_string A (cstr cs) b = Some b'"
  using assms by (simp add: api_ok_def cstr_def)

lemma priority_demo_runs:
  assumes "pool_bounded s" "clz_spec clz" "api_ok A"
    and "task_ok_at (p_worker_task I) (p_worker_a_stack I)" "task_ok_at (p_worker_task I) (p_worker_b_stack I)"
      "task_ok_at (p_high_task I) (p_high_stack I)"
  shows "\<exists>s' b'. priority_main I A clz b s = Ret (s', b') \<and> reachable clz s' {SemWaitL 0} \<and> running s' (Pool 2) \<and> unat (tsk_cnt s') = 3"
proof -
  obtain b1 where b1: "api_init A b = Some b1" using assms(3) by (auto simp: api_ok_def)
  obtain b2 where b2: "api_write_string A (cstr (''aRTOS priority demo'' @ [CHR 0x0A])) b1 = Some b2"
    using write_string_returns[OF assms(3)] by force
  obtain b3 where b3: "api_write_string A (cstr (''Two priority-0 tasks round-robin; priority 1 preempts them every second.'' @ [CHR 0x0A])) b2 = Some b3"
    using write_string_returns[OF assms(3)] by force
  note lim = ARTOS_MAX_TASKS_def ARTOS_PRIORITY_COUNT_def LOW_PRIORITY_def HIGH_PRIORITY_def
  obtain s1 where s1: "artos_binary_semaphore_init (Some 0) True (artos_init s) = (Some 0, s1)"
      "prepared clz s1 {SemWaitL 0} (boot_view(SemWaitL 0 \<mapsto> [])) 0"
    using semaphore_prepared[OF boot_prepared[OF assms(1), of clz], of 0 True] by auto
  let ?C1 = "append_to (ReadyL 0) (StateItem (Pool 0)) (boot_view(SemWaitL 0 \<mapsto> []))"
  let ?C2 = "append_to (ReadyL 0) (StateItem (Pool 1)) ?C1" let ?C3 = "append_to (ReadyL 1) (StateItem (Pool 2)) ?C2"
  obtain s2 where s2: "create_task_or_halt (p_worker_task I) (p_worker_a I) (p_worker_a_stack I) TASK_STACK_WORDS LOW_PRIORITY s1 = Ret s2"
      "prepared clz s2 {SemWaitL 0} ?C1 1"
    using create_or_halt_prepared[OF s1(2) _ assms(4), of LOW_PRIORITY] by (auto simp: lim)
  obtain s3 where s3: "create_task_or_halt (p_worker_task I) (p_worker_b I) (p_worker_b_stack I) TASK_STACK_WORDS LOW_PRIORITY s2 = Ret s3"
      "prepared clz s3 {SemWaitL 0} ?C2 2"
    using create_or_halt_prepared[OF s2(2) _ assms(5), of LOW_PRIORITY] by (auto simp: lim numeral_2_eq_2)
  obtain s4 where s4: "create_task_or_halt (p_high_task I) 0 (p_high_stack I) TASK_STACK_WORDS HIGH_PRIORITY s3 = Ret s4"
      "prepared clz s4 {SemWaitL 0} ?C3 3"
    using create_or_halt_prepared[OF s3(2) _ assms(6), of HIGH_PRIORITY] by (auto simp: lim numeral_3_eq_3)
  have "highest_ready ?C3 1 (Pool 2) []" by (auto simp: highest_ready_def append_to_def boot_view_def lim)
  from start_or_halt_prepared[OF s4(2) assms(2) this, of b3] show ?thesis
    using b1 b2 b3 s1(1) s2(1) s3(1) s4(1) by (auto simp: priority_main_def io_def)
qed

section \<open>The mutex demo\<close>

record mutex_image =
  m_low_task :: u32
  m_high_task :: u32
  m_low_stack :: u32
  m_high_stack :: u32

definition mutex_main ::
    "mutex_image \<Rightarrow> 'b board_api \<Rightarrow> (u32 \<Rightarrow> u8) \<Rightarrow> 'b \<Rightarrow> 'z mutex_kernel_scheme \<Rightarrow> ('z mutex_kernel_scheme \<times> 'b, 'z) mres" where
  "mutex_main I A clz b s =
     io (api_init A b) (\<lambda>b.
     let s = artos_init s;
         (mutex, s) = artos_mutex_init (Some 0) s
     in if mutex = None then Loops else
     io (api_write_string A (cstr (''aRTOS mutex priority-inheritance demo'' @ [CHR 0x0A])) b) (\<lambda>b.
     io (api_write_string A (cstr (''HIGH runs first, then sleeps so LOW can acquire the mutex.'' @ [CHR 0x0A])) b) (\<lambda>b.
     res_bind (create_task_or_halt (m_low_task I) 0 (m_low_stack I) TASK_STACK_WORDS LOW_PRIORITY s) (\<lambda>s.
     res_bind (create_task_or_halt (m_high_task I) 0 (m_high_stack I) TASK_STACK_WORDS HIGH_PRIORITY s)
       (start_or_halt clz b)))))"

lemma mutex_demo_runs:
  assumes "pool_bounded s" "clz_spec clz" "api_ok A"
    and "task_ok_at (m_low_task I) (m_low_stack I)" "task_ok_at (m_high_task I) (m_high_stack I)"
  shows "\<exists>s' b'. mutex_main I A clz b s = Ret (s', b') \<and> reachable clz s' {MutexLockL 0} \<and> running s' (Pool 1) \<and> unat (tsk_cnt s') = 2"
proof -
  obtain b1 where b1: "api_init A b = Some b1" using assms(3) by (auto simp: api_ok_def)
  obtain b2 where b2: "api_write_string A (cstr (''aRTOS mutex priority-inheritance demo'' @ [CHR 0x0A])) b1 = Some b2"
    using write_string_returns[OF assms(3)] by force
  obtain b3 where b3: "api_write_string A (cstr (''HIGH runs first, then sleeps so LOW can acquire the mutex.'' @ [CHR 0x0A])) b2 = Some b3"
    using write_string_returns[OF assms(3)] by force
  note lim = ARTOS_MAX_TASKS_def ARTOS_PRIORITY_COUNT_def LOW_PRIORITY_def HIGH_PRIORITY_def
  obtain s1 where s1: "artos_mutex_init (Some 0) (artos_init s) = (Some 0, s1)" "prepared clz s1 {MutexLockL 0} (boot_view(MutexLockL 0 \<mapsto> [])) 0"
    using mutex_prepared[OF boot_prepared[OF assms(1), of clz], of 0] by auto
  let ?C1 = "append_to (ReadyL 0) (StateItem (Pool 0)) (boot_view(MutexLockL 0 \<mapsto> []))"
  let ?C2 = "append_to (ReadyL 1) (StateItem (Pool 1)) ?C1"
  obtain s2 where s2: "create_task_or_halt (m_low_task I) 0 (m_low_stack I) TASK_STACK_WORDS LOW_PRIORITY s1 = Ret s2"
      "prepared clz s2 {MutexLockL 0} ?C1 1"
    using create_or_halt_prepared[OF s1(2) _ assms(4), of LOW_PRIORITY] by (auto simp: lim)
  obtain s3 where s3: "create_task_or_halt (m_high_task I) 0 (m_high_stack I) TASK_STACK_WORDS HIGH_PRIORITY s2 = Ret s3"
      "prepared clz s3 {MutexLockL 0} ?C2 2"
    using create_or_halt_prepared[OF s2(2) _ assms(5), of HIGH_PRIORITY] by (auto simp: lim numeral_2_eq_2)
  have "highest_ready ?C2 1 (Pool 1) []" by (auto simp: highest_ready_def append_to_def boot_view_def lim)
  from start_or_halt_prepared[OF s3(2) assms(2) this, of b3] show ?thesis
    using b1 b2 b3 s1(1) s2(1) s3(1) by (auto simp: mutex_main_def io_def)
qed

text \<open>
  The priority and the mutex demo start: on a board whose calls return, their \<open>main\<close> functions reach none of their error
  loops. They leave reachable states with their object and their tasks, in which the high-priority task runs.
\<close>

theorem small_demos_start:
  assumes "pool_bounded s" "clz_spec clz" "api_ok A"
    and "task_ok_at (p_worker_task I) (p_worker_a_stack I)" "task_ok_at (p_worker_task I) (p_worker_b_stack I)"
      "task_ok_at (p_high_task I) (p_high_stack I)"
    and "task_ok_at (m_low_task J) (m_low_stack J)" "task_ok_at (m_high_task J) (m_high_stack J)"
  shows "(\<exists>s' b'. priority_main I A clz b s = Ret (s', b') \<and> reachable clz s' {SemWaitL 0} \<and> running s' (Pool 2) \<and> unat (tsk_cnt s') = 3) \<and>
         (\<exists>s' b'. mutex_main J A clz b s = Ret (s', b') \<and> reachable clz s' {MutexLockL 0} \<and> running s' (Pool 1) \<and> unat (tsk_cnt s') = 2)"
  using priority_demo_runs[OF assms(1-6)] mutex_demo_runs[OF assms(1-3,7,8)] by blast

section \<open>The showcase\<close>

record showcase_image =
  s_led_task :: u32
  s_heartbeat_task :: u32
  s_logger_task :: u32
  s_button_logger_task :: u32
  s_load_task :: u32
  s_button_event_isr :: u32
  s_led_stack :: u32
  s_heartbeat_stack :: u32
  s_logger_stacks :: "nat \<Rightarrow> u32"
  s_button_logger_stack :: u32
  s_load_stack :: u32
  s_consumer_arguments :: "nat \<Rightarrow> u32"
  s_queue_items :: u32
  s_button_queue_items :: u32

definition DEFAULT_PRIORITY :: u8 where "DEFAULT_PRIORITY = 1"
definition CONSUMER_COUNT :: nat where "CONSUMER_COUNT = 3"
definition QUEUE_CAPACITY :: u32 where "QUEUE_CAPACITY = 8"
definition BUTTON_QUEUE_CAPACITY :: u32 where "BUTTON_QUEUE_CAPACITY = 4"
definition BUTTON_DEBOUNCE_MS :: u32 where "BUTTON_DEBOUNCE_MS = 50"

text \<open>\<open>sizeof(demo_message_t)\<close>: a tag, padded to a word, and two words.\<close>

definition message_size :: u32 where "message_size = 12"

fun create_loggers :: "showcase_image \<Rightarrow> nat list \<Rightarrow> 'z mutex_kernel_scheme \<Rightarrow> ('z mutex_kernel_scheme, 'z) mres" where
  "create_loggers I [] s = Ret s"
| "create_loggers I (i # is) s =
     res_bind (create_task_or_halt (s_logger_task I) (s_consumer_arguments I i) (s_logger_stacks I i) TASK_STACK_WORDS DEFAULT_PRIORITY s)
       (create_loggers I is)"

definition showcase_tasks :: "showcase_image \<Rightarrow> 'z mutex_kernel_scheme \<Rightarrow> ('z mutex_kernel_scheme, 'z) mres" where
  "showcase_tasks I s =
     res_bind (create_task_or_halt (s_led_task I) 0 (s_led_stack I) TASK_STACK_WORDS DEFAULT_PRIORITY s) (\<lambda>s.
     res_bind (create_task_or_halt (s_heartbeat_task I) 0 (s_heartbeat_stack I) TASK_STACK_WORDS DEFAULT_PRIORITY s) (\<lambda>s.
     res_bind (create_loggers I [0..<CONSUMER_COUNT] s) (\<lambda>s.
     res_bind (create_task_or_halt (s_button_logger_task I) 0 (s_button_logger_stack I) TASK_STACK_WORDS DEFAULT_PRIORITY s) (\<lambda>s.
     create_task_or_halt (s_load_task I) 0 (s_load_stack I) TASK_STACK_WORDS DEFAULT_PRIORITY s))))"

definition showcase_main ::
    "showcase_image \<Rightarrow> 'b board_api \<Rightarrow> (u32 \<Rightarrow> u8) \<Rightarrow> 'b \<Rightarrow> 'z mutex_kernel_scheme \<Rightarrow> ('z mutex_kernel_scheme \<times> 'b, 'z) mres" where
  "showcase_main I A clz b s =
     io (api_init A b) (\<lambda>b.
     let s = artos_init s;
         (uart_lock, s) = artos_binary_semaphore_init (Some 0) True s;
         (queue, s) = artos_queue_init (Some 0) (s_queue_items I) message_size QUEUE_CAPACITY s;
         (button_queue, s) = artos_queue_init (Some 1) (s_button_queue_items I) message_size BUTTON_QUEUE_CAPACITY s
     in if uart_lock = None \<or> queue = None \<or> button_queue = None then Loops else
     io (api_write_string A (cstr (''aRTOS showcase: 0.5 Hz heartbeat + button -> shared C1-C3 queue'' @ [CHR 0x0A])) b) (\<lambda>b.
     io (api_write_string A (cstr (''Button events are also copied to the immediate BUTTON-ONLY queue.'' @ [CHR 0x0A])) b) (\<lambda>b.
     io (api_write_string A (cstr (''TASK'' @ [CHR 0x09] @ ''EVENT'' @ [CHR 0x09, CHR 0x09] @ ''MSG'' @ [CHR 0x09] @ ''CREATED'' @
         [CHR 0x09] @ ''RECEIVED'' @ [CHR 0x09] @ ''DETAIL'' @ [CHR 0x0A])) b) (\<lambda>b.
     res_bind (showcase_tasks I s) (\<lambda>s.
     start_or_halt clz (api_button_init A (s_button_event_isr I) b) s)))))"

text \<open>Creating tasks of the default priority, one after the other.\<close>

fun add_tasks :: "nat \<Rightarrow> nat \<Rightarrow> list_view \<Rightarrow> list_view" where
  "add_tasks n 0 C = C"
| "add_tasks n (Suc k) C = append_to (ReadyL 1) (StateItem (Pool (n + k))) (add_tasks n k C)"

lemma add_tasks_ready: "C (ReadyL 1) = Some [] \<Longrightarrow> add_tasks n k C (ReadyL 1) = Some (map (\<lambda>i. StateItem (Pool (n + i))) [0..<k])"
  by (induction k) (simp_all add: append_to_def)

lemma add_tasks_other: "l \<noteq> ReadyL 1 \<Longrightarrow> add_tasks n k C l = C l"
  by (induction k) (simp_all add: append_to_def)

lemma default_prepared:
  assumes "prepared clz s L (add_tasks 0 n C) n" "n < ARTOS_MAX_TASKS" "task_ok_at entry stack"
  shows "\<exists>s'. create_task_or_halt entry argument stack TASK_STACK_WORDS DEFAULT_PRIORITY s = Ret s' \<and>
           prepared clz s' L (add_tasks 0 (Suc n) C) (Suc n) \<and> touches {} s s'"
  using create_or_halt_prepared[OF assms, of DEFAULT_PRIORITY argument] by (simp add: DEFAULT_PRIORITY_def ARTOS_PRIORITY_COUNT_def)

lemma loggers_prepared:
  assumes "prepared clz s L (add_tasks 0 n C) n" "n + length is \<le> ARTOS_MAX_TASKS" "\<forall>i \<in> set is. task_ok_at (s_logger_task I) (s_logger_stacks I i)"
  shows "\<exists>s'. create_loggers I is s = Ret s' \<and> prepared clz s' L (add_tasks 0 (n + length is) C) (n + length is) \<and> touches {} s s'"
  using assms
proof (induction "is" arbitrary: s n)
  case (Cons i js)
  obtain s1 where "create_task_or_halt (s_logger_task I) (s_consumer_arguments I i) (s_logger_stacks I i) TASK_STACK_WORDS DEFAULT_PRIORITY s = Ret s1"
      "prepared clz s1 L (add_tasks 0 (Suc n) C) (Suc n)" "touches {} s s1"
    using default_prepared[OF Cons.prems(1)] Cons.prems(2,3) by fastforce
  then show ?case using Cons.IH[of s1 "Suc n"] Cons.prems(2,3) touches_trans[of "{}" s s1] by auto
qed simp

definition showcase_ok :: "showcase_image \<Rightarrow> bool" where
  "showcase_ok I \<longleftrightarrow> task_ok_at (s_led_task I) (s_led_stack I) \<and> task_ok_at (s_heartbeat_task I) (s_heartbeat_stack I) \<and>
     (\<forall>i < 3. task_ok_at (s_logger_task I) (s_logger_stacks I i)) \<and> task_ok_at (s_button_logger_task I) (s_button_logger_stack I) \<and>
     task_ok_at (s_load_task I) (s_load_stack I) \<and> s_queue_items I \<noteq> 0 \<and> s_button_queue_items I \<noteq> 0 \<and>
     region (s_button_queue_items I) 48 \<inter> region (s_queue_items I) 96 = {}"

lemma showcase_tasks_prepared:
  assumes "showcase_ok I" "prepared clz s L C 0"
  shows "\<exists>s'. showcase_tasks I s = Ret s' \<and> prepared clz s' L (add_tasks 0 7 C) 7 \<and> touches {} s s'"
proof -
  have ok: "task_ok_at (s_led_task I) (s_led_stack I)" "task_ok_at (s_heartbeat_task I) (s_heartbeat_stack I)"
      "\<forall>i \<in> set [0..<CONSUMER_COUNT]. task_ok_at (s_logger_task I) (s_logger_stacks I i)"
      "task_ok_at (s_button_logger_task I) (s_button_logger_stack I)" "task_ok_at (s_load_task I) (s_load_stack I)"
    using assms(1) by (simp_all add: showcase_ok_def CONSUMER_COUNT_def)
  obtain s1 where s1: "create_task_or_halt (s_led_task I) 0 (s_led_stack I) TASK_STACK_WORDS DEFAULT_PRIORITY s = Ret s1"
      "prepared clz s1 L (add_tasks 0 1 C) 1" "touches {} s s1"
    using default_prepared[of clz s L 0 C, OF _ _ ok(1)] assms(2) by (auto simp: ARTOS_MAX_TASKS_def)
  obtain s2 where s2: "create_task_or_halt (s_heartbeat_task I) 0 (s_heartbeat_stack I) TASK_STACK_WORDS DEFAULT_PRIORITY s1 = Ret s2"
      "prepared clz s2 L (add_tasks 0 2 C) 2" "touches {} s1 s2"
    using default_prepared[OF s1(2) _ ok(2)] by (auto simp: ARTOS_MAX_TASKS_def numeral_2_eq_2)
  obtain s3 where s3: "create_loggers I [0..<CONSUMER_COUNT] s2 = Ret s3" "prepared clz s3 L (add_tasks 0 5 C) 5" "touches {} s2 s3"
    using loggers_prepared[OF s2(2) _ ok(3)] by (auto simp: ARTOS_MAX_TASKS_def CONSUMER_COUNT_def)
  obtain s4 where s4: "create_task_or_halt (s_button_logger_task I) 0 (s_button_logger_stack I) TASK_STACK_WORDS DEFAULT_PRIORITY s3 = Ret s4"
      "prepared clz s4 L (add_tasks 0 (Suc 5) C) (Suc 5)" "touches {} s3 s4"
    using default_prepared[OF s3(2) _ ok(4)] by (auto simp: ARTOS_MAX_TASKS_def simp del: add_tasks.simps)
  obtain s5 where s5: "create_task_or_halt (s_load_task I) 0 (s_load_stack I) TASK_STACK_WORDS DEFAULT_PRIORITY s4 = Ret s5"
      "prepared clz s5 L (add_tasks 0 (Suc (Suc 5)) C) (Suc (Suc 5))" "touches {} s4 s5"
    using default_prepared[OF s4(2) _ ok(5)] by (auto simp: ARTOS_MAX_TASKS_def simp del: add_tasks.simps)
  have "touches {} s s5" using touches_trans[OF touches_trans[OF touches_trans[OF touches_trans[OF s1(3) s2(3)] s3(3)] s4(3)] s5(3)] .
  moreover have "Suc (Suc 5) = 7" by simp
  ultimately show ?thesis using s1(1) s2(1) s3(1) s4(1) s5(1,2) unfolding showcase_tasks_def by auto
qed

text \<open>The storage of the two queues of the showcase.\<close>

definition showcase_queues_in :: "showcase_image \<Rightarrow> 'z queue_kernel_scheme \<Rightarrow> bool" where
  "showcase_queues_in I s \<longleftrightarrow> q_item_size (queues s 0) = message_size \<and> q_item_size (queues s 1) = message_size \<and>
     queue_region (queues s 0) = region (s_queue_items I) 96 \<and> queue_region (queues s 1) = region (s_button_queue_items I) 48"

lemma showcase_objects_prepared:
  assumes "showcase_ok I" "pool_bounded s"
  shows "\<exists>s1 s2 s3 L C. artos_binary_semaphore_init (Some 0) True (artos_init s) = (Some 0, s1) \<and>
    artos_queue_init (Some 0) (s_queue_items I) message_size QUEUE_CAPACITY s1 = (Some 0, s2) \<and>
    artos_queue_init (Some 1) (s_button_queue_items I) message_size BUTTON_QUEUE_CAPACITY s2 = (Some 1, s3) \<and>
    L = {SemWaitL 0, QueueReadL 0, QueueWriteL 0, QueueReadL 1, QueueWriteL 1} \<and> prepared clz s3 L C 0 \<and>
    C (ReadyL 1) = Some [] \<and> (\<forall>p > 1. C (ReadyL p) = None) \<and> showcase_queues_in I s3"
proof -
  let ?C1 = "boot_view(SemWaitL 0 \<mapsto> [])" and ?C2 = "boot_view(SemWaitL 0 \<mapsto> [], QueueReadL 0 \<mapsto> [], QueueWriteL 0 \<mapsto> [])"
  have ok: "s_queue_items I \<noteq> 0" "s_button_queue_items I \<noteq> 0" "region (s_button_queue_items I) 48 \<inter> region (s_queue_items I) 96 = {}"
    using assms(1) by (simp_all add: showcase_ok_def)
  obtain s1 where s1: "artos_binary_semaphore_init (Some 0) True (artos_init s) = (Some 0, s1)" "prepared clz s1 {SemWaitL 0} ?C1 0"
    using semaphore_prepared[OF boot_prepared[OF assms(2), of clz], of 0 True] by auto
  have "clear_of_queues (s_queue_items I) (unat message_size * unat QUEUE_CAPACITY) {SemWaitL 0} s1"
    by (simp add: clear_of_queues_def queue_created_def)
  from queue_prepared[OF s1(2) _ _ ok(1) _ _ _ this, of 0] obtain s2 where
    s2: "artos_queue_init (Some 0) (s_queue_items I) message_size QUEUE_CAPACITY s1 = (Some 0, s2)"
      "prepared clz s2 ({QueueReadL 0, QueueWriteL 0} \<union> {SemWaitL 0}) ?C2 0"
      "queues s2 0 = (queues s1 0)\<lparr>q_count := 0, q_item_size := message_size, q_capacity := QUEUE_CAPACITY, q_read_index := 0,
         q_write_index := 0, q_storage := s_queue_items I\<rparr>"
    by (auto simp: message_size_def QUEUE_CAPACITY_def SIZE_MAX_def)
  have "clear_of_queues (s_button_queue_items I) (unat message_size * unat BUTTON_QUEUE_CAPACITY) ({QueueReadL 0, QueueWriteL 0} \<union> {SemWaitL 0}) s2"
    using ok(3) s2(3) by (auto simp: clear_of_queues_def queue_created_def queue_region_def message_size_def QUEUE_CAPACITY_def BUTTON_QUEUE_CAPACITY_def)
  from queue_prepared[OF s2(2) _ _ ok(2) _ _ _ this, of 1] obtain s3 where
    s3: "artos_queue_init (Some 1) (s_button_queue_items I) message_size BUTTON_QUEUE_CAPACITY s2 = (Some 1, s3)"
      "prepared clz s3 ({QueueReadL 1, QueueWriteL 1} \<union> ({QueueReadL 0, QueueWriteL 0} \<union> {SemWaitL 0})) (?C2(QueueReadL 1 \<mapsto> [], QueueWriteL 1 \<mapsto> [])) 0"
      "queues s3 = (queues s2)(1 := (queues s2 1)\<lparr>q_count := 0, q_item_size := message_size, q_capacity := BUTTON_QUEUE_CAPACITY,
         q_read_index := 0, q_write_index := 0, q_storage := s_button_queue_items I\<rparr>)"
    by (auto simp: message_size_def BUTTON_QUEUE_CAPACITY_def SIZE_MAX_def)
  have "showcase_queues_in I s3" using s2(3) s3(3)
    by (simp add: showcase_queues_in_def queue_region_def message_size_def QUEUE_CAPACITY_def BUTTON_QUEUE_CAPACITY_def)
  moreover have "{QueueReadL 1, QueueWriteL 1} \<union> ({QueueReadL 0, QueueWriteL 0} \<union> {SemWaitL 0}) =
      {SemWaitL 0, QueueReadL 0, QueueWriteL 0, QueueReadL 1, QueueWriteL 1}" by auto
  ultimately show ?thesis using s1(1) s2(1) s3(1,2)
    by (intro exI[of _ s1] exI[of _ s2] exI[of _ s3] exI[of _ "{SemWaitL 0, QueueReadL 0, QueueWriteL 0, QueueReadL 1, QueueWriteL 1}"]
        exI[of _ "?C2(QueueReadL 1 \<mapsto> [], QueueWriteL 1 \<mapsto> [])"]) (simp add: boot_view_def ARTOS_PRIORITY_COUNT_def)
qed

lemma showcase_main_runs:
  assumes "pool_bounded s" "clz_spec clz" "api_ok A" "showcase_ok I"
  shows "\<exists>s' b'. showcase_main I A clz b s = Ret (s', api_button_init A (s_button_event_isr I) b') \<and>
    reachable clz s' {SemWaitL 0, QueueReadL 0, QueueWriteL 0, QueueReadL 1, QueueWriteL 1} \<and> running s' (Pool 0) \<and> unat (tsk_cnt s') = 7 \<and>
    showcase_queues_in I s'"
proof -
  let ?L = "{SemWaitL 0, QueueReadL 0, QueueWriteL 0, QueueReadL 1, QueueWriteL 1}"
  obtain s1 s2 s3 C where o: "artos_binary_semaphore_init (Some 0) True (artos_init s) = (Some 0, s1)"
      "artos_queue_init (Some 0) (s_queue_items I) message_size QUEUE_CAPACITY s1 = (Some 0, s2)"
      "artos_queue_init (Some 1) (s_button_queue_items I) message_size BUTTON_QUEUE_CAPACITY s2 = (Some 1, s3)"
      "prepared clz s3 ?L C 0" "C (ReadyL 1) = Some []" "\<forall>p > 1. C (ReadyL p) = None" "showcase_queues_in I s3"
    using showcase_objects_prepared[OF assms(4,1), of clz] by blast
  obtain s4 where s4: "showcase_tasks I s3 = Ret s4" "prepared clz s4 ?L (add_tasks 0 7 C) 7" "touches {} s3 s4"
    using showcase_tasks_prepared[OF assms(4) o(4)] by blast
  have r: "add_tasks 0 7 C (ReadyL 1) = Some (StateItem (Pool 0) # map (\<lambda>i. StateItem (Pool i)) [1..<7])"
    using add_tasks_ready[of C 0 7, OF o(5)] by (simp add: upt_conv_Cons)
  then have h: "highest_ready (add_tasks 0 7 C) 1 (Pool 0) (map (\<lambda>i. StateItem (Pool i)) [1..<7])"
    using o(6) add_tasks_other[of "ReadyL _" 0 7 C] by (simp add: highest_ready_def)
  obtain b1 where b1: "api_init A b = Some b1" using assms(3) by (auto simp: api_ok_def)
  obtain b2 where b2: "api_write_string A (cstr (''aRTOS showcase: 0.5 Hz heartbeat + button -> shared C1-C3 queue'' @ [CHR 0x0A])) b1 = Some b2"
    using write_string_returns[OF assms(3)] by force
  obtain b3 where b3: "api_write_string A (cstr (''Button events are also copied to the immediate BUTTON-ONLY queue.'' @ [CHR 0x0A])) b2 = Some b3"
    using write_string_returns[OF assms(3)] by force
  obtain b4 where b4: "api_write_string A (cstr (''TASK'' @ [CHR 0x09] @ ''EVENT'' @ [CHR 0x09, CHR 0x09] @ ''MSG'' @ [CHR 0x09] @ ''CREATED'' @
         [CHR 0x09] @ ''RECEIVED'' @ [CHR 0x09] @ ''DETAIL'' @ [CHR 0x0A])) b3 = Some b4"
    using write_string_returns[OF assms(3)] by force
  from start_or_halt_prepared[OF s4(2) assms(2) h, of "api_button_init A (s_button_event_isr I) b4"] obtain s' where
    s': "start_or_halt clz (api_button_init A (s_button_event_isr I) b4) s4 = Ret (s', api_button_init A (s_button_event_isr I) b4)"
      "reachable clz s' ?L" "running s' (Pool 0)" "unat (tsk_cnt s') = 7" "touches {} s4 s'" by blast
  have "showcase_queues_in I s'" using o(7) touches_trans[OF s4(3) s'(5)] by (simp add: showcase_queues_in_def touches_def)
  then show ?thesis using s'(1-4) b1 b2 b3 b4 o(1-3) s4(1) by (auto simp: showcase_main_def io_def)
qed


section \<open>The button of the showcase\<close>

datatype demo_event = DEMO_HEARTBEAT | DEMO_BUTTON

record demo_state =
  button_sequence :: u32
  last_button_tick :: u32
  button_seen :: bool

text \<open>A \<open>demo_message_t\<close> in memory: the tag, whose rest \<open>pad\<close> up to a word is left open, and two little-endian words.\<close>

definition le_bytes :: "u32 \<Rightarrow> u8 list" where
  "le_bytes w = [ucast w, ucast (drop_bit 8 w), ucast (drop_bit 16 w), ucast (drop_bit 24 w)]"

definition message_bytes :: "u8 list \<Rightarrow> demo_event \<Rightarrow> u32 \<Rightarrow> u32 \<Rightarrow> u8 list" where
  "message_bytes pad event sequence created_tick =
     (case event of DEMO_HEARTBEAT \<Rightarrow> 0 | DEMO_BUTTON \<Rightarrow> 1) # pad @ le_bytes sequence @ le_bytes created_tick"

definition store_bytes :: "u32 \<Rightarrow> u8 list \<Rightarrow> (u32 \<Rightarrow> u8) \<Rightarrow> u32 \<Rightarrow> u8" where
  "store_bytes a bs m x = (if unat (x - a) < length bs then bs ! unat (x - a) else m x)"

text \<open>\<open>message\<close> is the address of the local variable; queue 0 is \<open>queue\<close>, queue 1 is \<open>button_queue\<close>.\<close>

definition button_event_isr ::
    "u8 list \<Rightarrow> u32 \<Rightarrow> demo_state \<Rightarrow> 'z queue_kernel_scheme \<Rightarrow> (demo_state \<times> 'z queue_kernel_scheme, 'z) qres" where
  "button_event_isr pad message d s =
     (let now = artos_get_tick s
      in if button_seen d \<and> now - last_button_tick d < ARTOS_MS_TO_TICKS BUTTON_DEBOUNCE_MS then Ret (d, s)
      else let d = d\<lparr>button_seen := True\<rparr>;
               d = d\<lparr>last_button_tick := now\<rparr>;
               d = d\<lparr>button_sequence := button_sequence d + 1\<rparr>;
               s = s\<lparr>mem := store_bytes message (message_bytes pad DEMO_BUTTON (button_sequence d) now) (mem s)\<rparr>
        in res_bind (artos_queue_enqueue_from_isr (Some 1) message (Some False) s) (\<lambda>(_, task_woken, s).
           res_bind (artos_queue_enqueue_from_isr (Some 0) message task_woken s) (\<lambda>(_, task_woken, s).
           Ret (d, if task_woken = Some True then artos_yield_from_isr s else s))))"

lemma message_length: "length pad = 3 \<Longrightarrow> length (message_bytes pad e q t) = 12"
  by (simp add: message_bytes_def le_bytes_def)

lemma store_bytes_outside: "x \<notin> region a (length bs) \<Longrightarrow> store_bytes a bs m x = m x"
proof -
  assume x: "x \<notin> region a (length bs)"
  have "\<not> unat (x - a) < length bs"
  proof
    assume l: "unat (x - a) < length bs"
    have "x = a + of_nat (unat (x - a))" by simp
    then show False using l x unfolding region_def by blast
  qed
  then show ?thesis by (simp add: store_bytes_def)
qed

lemma store_bytes_buffer:
  assumes "length bs < 2 ^ 32"
  shows "buffer (store_bytes a bs m) a (length bs) = bs"
proof (rule nth_equalityI)
  fix i assume "i < length (buffer (store_bytes a bs m) a (length bs))"
  then have "i < length bs" by (simp add: buffer_def)
  then show "buffer (store_bytes a bs m) a (length bs) ! i = bs ! i"
    using assms unat_of_nat_u32[of i] by (simp add: buffer_def store_bytes_def)
qed (simp add: buffer_def)

lemma buffer_cong: "(\<And>x. x \<in> region a n \<Longrightarrow> m' x = m x) \<Longrightarrow> buffer m' a n = buffer m a n"
  by (auto simp: buffer_def region_def)

text \<open>Memory outside its storage is not touched by an enqueue.\<close>

lemma enqueue_isr_mem:
  assumes inv: "qinv s C" and n: "queue_live C n" and e: "artos_queue_enqueue_from_isr (Some n) data flag s = Ret (r, g, s')"
    and x: "x \<notin> queue_region (queues s n)"
  shows "mem s' x = mem s x"
proof (cases "data = 0 \<or> q_count (queues s n) = q_capacity (queues s n)")
  case True
  then show ?thesis using e assert_valid_state[of "Some n" "s\<lparr>primask := 1\<rparr>"]
    by (auto simp: artos_queue_enqueue_from_isr_def rtos_port_enter_critical_def rtos_port_exit_critical_def res_bind_eq_Ret split: if_splits)
next
  case False
  let ?s0 = "s\<lparr>primask := 1\<rparr>"
  have i0: "qinv ?s0 C" "q_count (queues ?s0 n) \<noteq> q_capacity (queues ?s0 n)" using inv False by simp_all
  note wf = qinvD(2)[OF inv n]
  have st: "qinv (queue_store n data ?s0) C" by (rule qinv_store(1)[OF i0(1) n i0(2)])
  obtain w s1 where w: "queue_wake (QueueReadL n) (queue_store n data ?s0) = Ret (w, s1)" "mem s1 = mem (queue_store n data ?s0)"
    using queue_wake_qinv[OF st, of "QueueReadL n" n] n by (auto simp: queue_live_def)
  have "rtos_queue_assert_valid (Some n) ?s0 = Ret ?s0" using wf by (intro assert_valid_ok) simp
  then have "mem s' = mem (queue_store n data ?s0)"
    using e False w by (auto simp: artos_queue_enqueue_from_isr_def rtos_port_enter_critical_def rtos_port_exit_critical_def)
  moreover have "region (q_storage (queues s n) + q_item_size (queues s n) * q_write_index (queues s n)) (unat (q_item_size (queues s n)))
      \<subseteq> queue_region (queues s n)"
    using slot_region[OF wf queue_write_below[OF wf]] by (simp add: slot_at_def)
  ultimately show ?thesis using x by (auto simp: queue_store_eq intro!: memcpy_outside)
qed

lemma qinv_mem [simp]: "qinv (s\<lparr>mem := m\<rparr>) C = qinv s C"
  by (simp add: qinv_def)

lemma items_other_memory:
  assumes "queue_wf q" "\<And>x. x \<in> queue_region q \<Longrightarrow> m' x = m x"
  shows "queue_items q m' = queue_items q m"
proof -
  have "0 < unat (q_capacity q)" using assms(1) by (simp add: queue_wf_def unat_gt_0)
  then have "buffer m' (slot_at q (k mod unat (q_capacity q))) (unat (q_item_size q)) =
      buffer m (slot_at q (k mod unat (q_capacity q))) (unat (q_item_size q))" for k
    using slot_region[OF assms(1), of "k mod unat (q_capacity q)"] assms(2) by (intro buffer_cong) auto
  then show ?thesis by (simp add: queue_items_def)
qed

text \<open>
  \<^bold>\<open>C36.\<close> The button interrupt of the showcase. A press less than 50 ticks after the last one that counted, also across the wrap of the
  tick counter, changes nothing. Any other press is counted, and its message, with the number of the press and the tick, is
  appended to each of the two queues that has room. The queues stay well-formed and the interrupt mask is
  restored.
\<close>

theorem button_isr_correct:
  assumes inv: "qinv s C" and q: "queue_live C 0" "queue_live C 1" "q_item_size (queues s 0) = 12" "q_item_size (queues s 1) = 12"
    and m: "message \<noteq> 0" "length pad = 3" "\<forall>k. queue_live C k \<longrightarrow> region message 12 \<inter> queue_region (queues s k) = {}"
  shows "if button_seen d \<and> ticks s - last_button_tick d < 50 then button_event_isr pad message d s = Ret (d, s)
    else \<exists>s' C'. button_event_isr pad message d s =
        Ret (d\<lparr>button_seen := True, last_button_tick := ticks s, button_sequence := button_sequence d + 1\<rparr>, s') \<and> qinv s' C' \<and>
      primask s' = primask s \<and>
      (\<forall>k \<in> {0, 1}. queue_abs s' C' k =
         snd (spec_put (message_bytes pad DEMO_BUTTON (button_sequence d + 1) (ticks s)) (queue_abs s C k)))"
proof -
  have ms: "ARTOS_MS_TO_TICKS BUTTON_DEBOUNCE_MS = 50" by (simp add: ARTOS_MS_TO_TICKS_def BUTTON_DEBOUNCE_MS_def ARTOS_TICK_HZ_def)
  note u = artos_get_tick_def rtos_current_tick_def ms
  show ?thesis
  proof (cases "button_seen d \<and> ticks s - last_button_tick d < 50")
    case True
    then show ?thesis by (simp add: button_event_isr_def u)
  next
    case False
    let ?x = "message_bytes pad DEMO_BUTTON (button_sequence d + 1) (ticks s)"
    let ?s0 = "s\<lparr>mem := store_bytes message ?x (mem s)\<rparr>"
    note len = message_length[OF m(2), of DEMO_BUTTON "button_sequence d + 1" "ticks s"]
    have i0: "qinv ?s0 C" using inv by simp
    have x0: "buffer (mem ?s0) message 12 = ?x" using store_bytes_buffer[of ?x message "mem s"] len by simp
    have a0: "queue_abs ?s0 C k = queue_abs s C k" if "queue_live C k" for k
      using items_other_memory[OF qinvD(2)[OF inv that], of "store_bytes message ?x (mem s)" "mem s"] m(3) that
        store_bytes_outside[of _ message ?x "mem s"] len by (auto simp: queue_abs_def)
    obtain r1 g1 s1 C1 where s1: "artos_queue_enqueue_from_isr (Some 1) message (Some False) ?s0 = Ret (r1, g1, s1)" "qinv s1 C1"
        "queue_abs s1 C1 1 = snd (spec_put ?x (queue_abs s C 1))" "queue_abs s1 C1 0 = queue_abs s C 0" "primask s1 = primask s"
        "same_shape ?s0 s1" "\<forall>k. queue_live C1 k = queue_live C k"
      using enqueue_runs[OF i0 q(2) m(1), of "Some False" undefined 0] x0 a0 q by fastforce
    have "mem s1 y = mem ?s0 y" if "y \<in> region message 12" for y
      using enqueue_isr_mem[OF i0 q(2) s1(1), of y] m(3) q(2) that by auto
    then have x1: "buffer (mem s1) message 12 = ?x" using buffer_cong[of message 12 "mem s1" "mem ?s0"] x0 by simp
    have q1: "queue_live C1 0" "queue_live C1 1" "unat (q_item_size (queues s1 0)) = 12" using s1(6,7) q by (simp_all add: same_shape_def)
    obtain r2 g2 s2 C2 where s2: "artos_queue_enqueue_from_isr (Some 0) message g1 s1 = Ret (r2, g2, s2)" "qinv s2 C2"
        "queue_abs s2 C2 0 = snd (spec_put ?x (queue_abs s1 C1 0))" "queue_abs s2 C2 1 = queue_abs s1 C1 1" "primask s2 = primask s1"
      using enqueue_runs[OF s1(2) q1(1) m(1), of g1 undefined 0] x1 q1 by fastforce
    let ?s' = "if g2 = Some True then artos_yield_from_isr s2 else s2"
    have "button_event_isr pad message d s =
        Ret (d\<lparr>button_seen := True, last_button_tick := ticks s, button_sequence := button_sequence d + 1\<rparr>, ?s')"
      using False s1(1) s2(1) by (auto simp: button_event_isr_def u Let_def simp del: One_nat_def)
    moreover have y: "artos_yield_from_isr s2 = rtos_port_request_context_switch s2"
      by (simp add: artos_yield_from_isr_def rtos_port_request_context_switch_from_isr_def rtos_port_request_context_switch_def)
    have "qinv ?s' C2" "primask ?s' = primask s" "queue_abs ?s' C2 k = queue_abs s2 C2 k" for k
      using s1(5) s2(2,5) unfolding y by (auto simp: queue_abs_def)
    ultimately show ?thesis using False s1(3,4) s2(3,4) by auto
  qed
qed

end
