(* ===== verification/App.thy ===== *)
theory App
  imports Timing Demos
begin

text \<open>
  A task of an application among the rest of the system. Between any two of its statements the task can be preempted, and
  while it is blocked the others run: they do what \<open>future\<close> holds, one list of steps for each time the task is off the processor.
  A step of the others is an event of the kernel, or anything they do to the board and to the program's variables. The lemmas
  show that the calls of the kernel never fail for such a task.
\<close>

section \<open>The others\<close>

text \<open>The board, to be extended with the variables of an application.\<close>

record 'b world =
  device :: 'b

datatype 'w env_step = Kernel event | Program "'w \<Rightarrow> 'w"

text \<open>The objects created so far, the world, and what the others will do.\<close>

record 'w app = mutex_kernel +
  made :: "list_ref set"
  world :: 'w
  future :: "'w env_step list list"

type_synonym ('a, 'w, 'z) ares = "('a, ('w, 'z) app_scheme) res"
type_synonym ('w, 'z) stmt = "('w, 'z) app_scheme \<Rightarrow> (('w, 'z) app_scheme, 'w, 'z) ares"

fun env_steps :: "(u32 \<Rightarrow> u8) \<Rightarrow> 'w env_step list \<Rightarrow> ('w, 'z) app_scheme \<Rightarrow> ('w, 'z) app_scheme option" where
  "env_steps clz [] a = Some a"
| "env_steps clz (Program f # es) a = env_steps clz es (a\<lparr>world := f (world a)\<rparr>)"
| "env_steps clz (Kernel e # es) a =
     (if enabled e a (made a)
      then (case exec clz e a (made a) of Ret (a, L) \<Rightarrow> env_steps clz es (a\<lparr>made := L\<rparr>) | _ \<Rightarrow> None)
      else None)"

text \<open>\<open>Loops\<close>: the task \<open>t\<close> never runs again.\<close>

definition others :: "(u32 \<Rightarrow> u8) \<Rightarrow> tcb_ref \<Rightarrow> ('w, 'z) stmt" where
  "others clz t a =
     (case future a of [] \<Rightarrow> Loops
      | es # rest \<Rightarrow> (case env_steps clz es (a\<lparr>future := rest\<rparr>) of None \<Rightarrow> Loops
                      | Some a' \<Rightarrow> if cur_task a' = Some t \<and> cont (lists a') (StateItem t) = None then Ret a' else Loops))"

section \<open>Statements\<close>

text \<open>Statements one after the other, each followed by a point where the others can run.\<close>

fun stmts :: "('s \<Rightarrow> ('s, 's) res) \<Rightarrow> ('s \<Rightarrow> ('s, 's) res) list \<Rightarrow> 's \<Rightarrow> ('s, 's) res" where
  "stmts run [] a = Ret a"
| "stmts run (f # fs) a = res_bind (f a) (\<lambda>a. res_bind (run a) (stmts run fs))"

text \<open>A call whose result is not used.\<close>

definition ignoring :: "('s \<Rightarrow> ('r \<times> 's, 's) res) \<Rightarrow> 's \<Rightarrow> ('s, 's) res" where
  "ignoring f a = res_bind (f a) (\<lambda>(_, a). Ret a)"

text \<open>The first \<open>k\<close> rounds of the endless loop of a task, with its local variables \<open>l\<close>.\<close>

fun rounds :: "nat \<Rightarrow> ('l \<Rightarrow> 's \<Rightarrow> ('l \<times> 's, 's) res) \<Rightarrow> 'l \<Rightarrow> 's \<Rightarrow> ('l \<times> 's, 's) res" where
  "rounds 0 f l a = Ret (l, a)"
| "rounds (Suc k) f l a = res_bind (f l a) (\<lambda>(l, a). rounds k f l a)"

text \<open>Calls of the board; one that does not return hangs the task.\<close>

definition on_board :: "('b \<Rightarrow> 'b option) \<Rightarrow> (('b, 'g) world_scheme, 'z) stmt" where
  "on_board f a = (case f (device (world a)) of None \<Rightarrow> Loops | Some b \<Rightarrow> Ret (a\<lparr>world := (world a)\<lparr>device := b\<rparr>\<rparr>))"

definition set_led :: "'b board_api \<Rightarrow> bool \<Rightarrow> (('b, 'g) world_scheme, 'z) stmt" where
  "set_led A on = on_board (\<lambda>b. Some (api_led_set A on b))"

definition put_char :: "'b board_api \<Rightarrow> char \<Rightarrow> (('b, 'g) world_scheme, 'z) stmt" where
  "put_char A c = on_board (api_write_char A (of_char c))"

definition put_string :: "'b board_api \<Rightarrow> string \<Rightarrow> (('b, 'g) world_scheme, 'z) stmt" where
  "put_string A cs = on_board (api_write_string A (cstr cs))"

definition put_uint :: "'b board_api \<Rightarrow> u32 \<Rightarrow> (('b, 'g) world_scheme, 'z) stmt" where
  "put_uint A v = on_board (api_write_uint A v)"

section \<open>Results that are not failures\<close>

definition meets :: "('a, 's) res \<Rightarrow> ('a \<Rightarrow> bool) \<Rightarrow> bool" where
  "meets r Q \<longleftrightarrow> (case r of Ret x \<Rightarrow> Q x | Halt c s \<Rightarrow> False | Loops \<Rightarrow> True)"

lemma meets_simps [simp]: "meets (Ret x) Q = Q x" "meets (Halt c s) Q = False" "meets Loops Q"
  by (simp_all add: meets_def)

lemma meets_bind: "meets r P \<Longrightarrow> (\<And>x. P x \<Longrightarrow> meets (f x) Q) \<Longrightarrow> meets (res_bind r f) Q"
  by (cases r) simp_all

lemma meets_call: "meets r (\<lambda>(x, a). P x a) \<Longrightarrow> (\<And>x a. P x a \<Longrightarrow> meets (f x a) Q) \<Longrightarrow> meets (res_bind r (\<lambda>(x, a). f x a)) Q"
  by (cases r) auto

lemma meets_mono: "meets r P \<Longrightarrow> (\<And>x. P x \<Longrightarrow> Q x) \<Longrightarrow> meets r Q"
  by (cases r) simp_all

lemma meets_no_halt: "meets r Q \<Longrightarrow> r \<noteq> Halt c s"
  by auto

lemma meets_stmts:
  assumes run: "\<And>a. P a \<Longrightarrow> meets (run a) W" and fs: "\<And>f a. f \<in> set fs \<Longrightarrow> W a \<Longrightarrow> meets (f a) P"
  shows "W a \<Longrightarrow> meets (stmts run fs a) W"
  using fs
proof (induction fs arbitrary: a)
  case (Cons f fs)
  have IH: "meets (stmts run fs b) W" if "W b" for b using Cons.IH[OF that] Cons.prems(2) by simp
  have "meets (f a) P" using Cons.prems by simp
  then show ?case using run IH by (auto intro: meets_bind[of "f a" P] meets_bind[of "run _" W])
qed simp

lemma meets_rounds_counted:
  assumes "\<And>i l a. W i l a \<Longrightarrow> meets (f l a) (\<lambda>(l, a). W (Suc i) l a)"
  shows "W i l a \<Longrightarrow> meets (rounds k f l a) (\<lambda>(l, a). W (i + k) l a)"
proof (induction k arbitrary: i l a)
  case (Suc k)
  have "meets (res_bind (f l a) (\<lambda>(l, a). rounds k f l a)) (\<lambda>(l, a). W (i + Suc k) l a)"
    by (rule meets_call[OF assms[OF Suc.prems]]) (use Suc.IH[of "Suc i"] in simp)
  then show ?case by simp
qed simp

lemma meets_rounds: "(\<And>l a. W a \<Longrightarrow> meets (f l a) (\<lambda>(l, a). W a)) \<Longrightarrow> W a \<Longrightarrow> meets (rounds k f l a) (\<lambda>(l, a). W a)"
  using meets_rounds_counted[of "\<lambda>i l. W" f 0 l a k] by blast

lemma meets_ignoring: "meets (f a) (\<lambda>(r, a). Q a) \<Longrightarrow> meets (ignoring f a) Q"
  by (auto simp: ignoring_def intro: meets_bind)

section \<open>What a task relies on\<close>

text \<open>
  The objects \<open>X\<close> have been created, the queues \<open>Q\<close> hold messages, the buffer of the task lies outside the storage of the
  queues, and the others create no more queues.
\<close>

fun inits_queue :: "event \<Rightarrow> bool" where
  "inits_queue (QueueInit n storage item_size capacity) \<longleftrightarrow> True"
| "inits_queue e \<longleftrightarrow> False"

fun creates_queue :: "'w env_step \<Rightarrow> bool" where
  "creates_queue (Kernel e) \<longleftrightarrow> inits_queue e"
| "creates_queue (Program f) \<longleftrightarrow> False"

definition fit :: "list_ref set \<Rightarrow> nat set \<Rightarrow> u32 \<Rightarrow> ('w, 'z) app_scheme \<Rightarrow> bool" where
  "fit X Q buf a \<longleftrightarrow> X \<subseteq> made a \<and> (\<forall>q \<in> Q. queue_created (made a) q \<and> q_item_size (queues a q) = message_size) \<and>
     clear_of_queues buf (unat message_size) (made a) a \<and> (\<forall>es \<in> set (future a). \<forall>e \<in> set es. \<not> creates_queue e)"

definition paused :: "(u32 \<Rightarrow> u8) \<Rightarrow> list_ref set \<Rightarrow> nat set \<Rightarrow> u32 \<Rightarrow> ('w, 'z) app_scheme \<Rightarrow> bool" where
  "paused clz X Q buf a \<longleftrightarrow> reachable clz a (made a) \<and> fit X Q buf a"

definition working :: "(u32 \<Rightarrow> u8) \<Rightarrow> tcb_ref \<Rightarrow> list_ref set \<Rightarrow> nat set \<Rightarrow> u32 \<Rightarrow> ('w, 'z) app_scheme \<Rightarrow> bool" where
  "working clz t X Q buf a \<longleftrightarrow> running a t \<and> paused clz X Q buf a"

lemma app_more: "mutex_kernel.more a' = mutex_kernel.more a \<Longrightarrow> made a' = made a \<and> world a' = world a \<and> future a' = future a"
  by (cases a; cases a'; simp)

lemma touches_app: "touches Y a a' \<Longrightarrow> made a' = made a \<and> world a' = world a \<and> future a' = future a"
  by (rule app_more) (simp add: touches_def)

lemma reachable_app:
  assumes "reachable clz a L"
  shows "reachable clz (a\<lparr>made := M\<rparr>) L" "reachable clz (a\<lparr>world := w\<rparr>) L" "reachable clz (a\<lparr>future := u\<rparr>) L"
proof -
  have e: "a\<lparr>made := M\<rparr> = mutex_kernel.more_update (\<lambda>_. mutex_kernel.more (a\<lparr>made := M\<rparr>)) a"
    "a\<lparr>world := w\<rparr> = mutex_kernel.more_update (\<lambda>_. mutex_kernel.more (a\<lparr>world := w\<rparr>)) a"
    "a\<lparr>future := u\<rparr> = mutex_kernel.more_update (\<lambda>_. mutex_kernel.more (a\<lparr>future := u\<rparr>)) a" by (cases a; simp)+
  show "reachable clz (a\<lparr>made := M\<rparr>) L" "reachable clz (a\<lparr>world := w\<rparr>) L" "reachable clz (a\<lparr>future := u\<rparr>) L"
    by (subst e, rule reachable.outside[OF assms])+
qed

lemma touched_shapes:
  assumes "touches Y a a'" "\<forall>k. QueueReadL k \<notin> Y"
  shows "q_item_size (queues a' k) = q_item_size (queues a k)" "queue_region (queues a' k) = queue_region (queues a k)"
  using assms by (simp_all add: touches_def)

lemma fit_touches:
  assumes "fit X Q buf a" "touches Y a a'" "\<forall>k. QueueReadL k \<notin> Y"
  shows "fit X Q buf a'"
  using assms(1) touches_app[OF assms(2)] touched_shapes[OF assms(2,3)] by (simp add: fit_def clear_of_queues_def)

text \<open>One event of the others.\<close>

lemma event_touches:
  assumes "clz_spec clz" "reachable clz s L" "enabled e s L"
  shows "\<exists>s' L'. exec clz e s L = Ret (s', L') \<and> reachable clz s' L' \<and> touches (concerns e s) s s'"
proof -
  obtain C where C: "minv s C" "objects_of C = L" "placed s" using reachable_ok[OF assms(2,1)] by (rule system_okE)
  from event_served_by[OF this assms(3,1)] show ?thesis using reachable.event[OF assms(2,3)] by (auto simp: served_by_def)
qed

lemma with_objects_Ret: "with_objects L r = Ret (s', L') \<Longrightarrow> L' = L"
  by (cases r) (auto simp: with_objects_def)

lemma exec_objects:
  assumes "exec clz e s L = Ret (s', L')" "\<not> inits_queue e"
  shows "L \<subseteq> L' \<and> (\<forall>k. queue_created L' k = queue_created L k)"
  using assms by (cases e) (auto simp: queue_created_def Let_def res_bind_eq_Ret dest!: with_objects_Ret split: prod.splits if_splits)

lemma concerns_queue: "\<not> inits_queue e \<Longrightarrow> QueueReadL k \<notin> concerns e s"
  by (cases e) auto

lemma env_steps_paused:
  assumes "clz_spec clz" "paused clz X Q buf a" "env_steps clz es a = Some a'" "\<forall>e \<in> set es. \<not> creates_queue e"
  shows "paused clz X Q buf a' \<and> future a' = future a"
  using assms(2-)
proof (induction es arbitrary: a)
  case (Cons e es)
  show ?case
  proof (cases e)
    case (Program f)
    have "paused clz X Q buf (a\<lparr>world := f (world a)\<rparr>)"
      using Cons.prems(1) reachable_app(2)[of clz a "made a"] by (simp add: paused_def fit_def clear_of_queues_def)
    then show ?thesis using Cons.IH[of "a\<lparr>world := f (world a)\<rparr>"] Cons.prems(2,3) Program by simp
  next
    case (Kernel e)
    have r: "reachable clz a (made a)" "fit X Q buf a" using Cons.prems(1) by (simp_all add: paused_def)
    have en: "enabled e a (made a)" using Cons.prems(2) Kernel by (simp split: if_splits)
    obtain a1 L1 where 1: "exec clz e a (made a) = Ret (a1, L1)" "reachable clz a1 L1" "touches (concerns e a) a a1"
      using event_touches[OF assms(1) r(1) en] by blast
    have nq: "\<not> inits_queue e" using Cons.prems(3) Kernel by simp
    note o = exec_objects[OF 1(1) nq] and ap = touches_app[OF 1(3)]
    have sh: "q_item_size (queues a1 k) = q_item_size (queues a k)" "queue_region (queues a1 k) = queue_region (queues a k)" for k
      by (simp_all add: touched_shapes[OF 1(3)] concerns_queue[OF nq])
    have "fit X Q buf (a1\<lparr>made := L1\<rparr>)" using r(2) o ap sh by (auto simp: fit_def clear_of_queues_def)
    then have "paused clz X Q buf (a1\<lparr>made := L1\<rparr>)" using reachable_app(1)[OF 1(2)] by (simp add: paused_def)
    moreover have "env_steps clz es (a1\<lparr>made := L1\<rparr>) = Some a'" using Cons.prems(2) Kernel en 1(1) by simp
    ultimately show ?thesis using Cons.IH[of "a1\<lparr>made := L1\<rparr>"] Cons.prems(3) ap by simp
  qed
qed simp

lemma running_reachable:
  assumes "clz_spec clz" "reachable clz s L" "cur_task s = Some t" "t \<noteq> IdleTask" "cont (lists s) (StateItem t) = None"
  shows "running s t"
proof -
  obtain C where "minv s C" using reachable_ok[OF assms(2,1)] by (auto simp: system_ok_def)
  then have "user_task s t" using minvD(5)[of s C] assms(3,4) by (auto simp: kinv_def cur_ok_def)
  then show ?thesis using assms(3,5) by (simp add: running_def)
qed

lemma others_work:
  assumes "clz_spec clz" "t \<noteq> IdleTask" "paused clz X Q buf a"
  shows "meets (others clz t a) (\<lambda>a'. working clz t X Q buf a' \<and> length (future a') < length (future a))"
proof (cases "future a")
  case Nil
  then show ?thesis by (simp add: others_def)
next
  case (Cons es rest)
  let ?a = "a\<lparr>future := rest\<rparr>"
  have p: "paused clz X Q buf ?a" using assms(3) Cons reachable_app(3)[of clz a "made a" rest] by (simp add: paused_def fit_def clear_of_queues_def)
  show ?thesis
  proof (cases "env_steps clz es ?a")
    case None
    then show ?thesis using Cons by (simp add: others_def)
  next
    case (Some a')
    have "\<forall>e \<in> set es. \<not> creates_queue e" using assms(3) Cons by (simp add: paused_def fit_def)
    from env_steps_paused[OF assms(1) p Some this] have "paused clz X Q buf a'" "future a' = rest" by simp_all
    then show ?thesis using Cons Some running_reachable[OF assms(1), of a' "made a'" t] assms(2)
      by (simp add: others_def working_def paused_def)
  qed
qed

section \<open>The calls of a task\<close>

lemma event_pauses:
  assumes "clz_spec clz" "paused clz X Q buf a" "enabled e a (made a)" "\<not> inits_queue e"
  shows "\<exists>a' L'. exec clz e a (made a) = Ret (a', L') \<and> (L' = made a \<longrightarrow> paused clz X Q buf a') \<and> future a' = future a"
proof -
  have r: "reachable clz a (made a)" "fit X Q buf a" using assms(2) by (simp_all add: paused_def)
  obtain a' L' where 1: "exec clz e a (made a) = Ret (a', L')" "reachable clz a' L'" "touches (concerns e a) a a'"
    using event_touches[OF assms(1) r(1) assms(3)] by blast
  then show ?thesis using touches_app[OF 1(3)] fit_touches[OF r(2) 1(3)] concerns_queue[OF assms(4)] by (auto simp: paused_def)
qed

lemma call_pauses:
  assumes "clz_spec clz" "paused clz X Q buf a" "enabled e a (made a)" "\<not> inits_queue e"
    and "exec clz e a (made a) = with_objects (made a) r"
  shows "meets r (\<lambda>(_, a'). paused clz X Q buf a' \<and> future a' = future a)"
proof -
  obtain a' L' where 1: "with_objects (made a) r = Ret (a', L')" "L' = made a \<longrightarrow> paused clz X Q buf a'" "future a' = future a"
    using event_pauses[OF assms(1-4)] unfolding assms(5) by blast
  have "L' = made a" using with_objects_Ret[OF 1(1)] .
  then show ?thesis using 1 by (cases r) (auto simp: with_objects_def)
qed

lemma proc_pauses:
  assumes "clz_spec clz" "paused clz X Q buf a" "enabled e a (made a)" "\<not> inits_queue e"
    and "exec clz e a (made a) = res_bind r (\<lambda>s. Ret (s, made a))"
  shows "meets r (paused clz X Q buf)"
  using event_pauses[OF assms(1-4)] unfolding assms(5) by (cases r) auto

lemma paused_has: "paused clz X Q buf a \<Longrightarrow> l \<in> X \<Longrightarrow> l \<in> made a"
  by (auto simp: paused_def fit_def)

lemma working_task: "working clz t X Q buf a \<Longrightarrow> paused clz X Q buf a \<and> in_task a"
  by (auto simp: working_def in_task_def)

lemma waits_pause:
  assumes "clz_spec clz" "working clz t X Q buf a"
  shows "meets (artos_wait n a) (paused clz X Q buf)" "meets (artos_wait_until w a) (paused clz X Q buf)"
    "paused clz X Q buf (artos_yield a)"
proof -
  note w = working_task[OF assms(2)]
  show "meets (artos_wait n a) (paused clz X Q buf)" "meets (artos_wait_until w a) (paused clz X Q buf)"
    using w by (auto intro: proc_pauses[OF assms(1), of _ _ _ _ "Wait n"] proc_pauses[OF assms(1), of _ _ _ _ "WaitUntil w"])
  show "paused clz X Q buf (artos_yield a)" using event_pauses[OF assms(1), of X Q buf a Yield] w by simp
qed

lemma take_pauses:
  assumes "clz_spec clz" "t \<noteq> IdleTask" "working clz t X Q buf a" "SemWaitL n \<in> X"
  shows "meets (artos_semaphore_take (others clz t) (Some n) timeout a) (\<lambda>(_, a'). paused clz X Q buf a')"
proof -
  note w = working_task[OF assms(3)]
  have enter: "meets (semaphore_take_enter n timeout a) (\<lambda>(_, a'). paused clz X Q buf a' \<and> future a' = future a)"
    using w assms(4) by (intro call_pauses[OF assms(1), of X Q buf a "SemTake n timeout"]) (auto dest: paused_has)
  have rest: "meets (case r of Some b \<Rightarrow> Ret (b, a') | None \<Rightarrow> res_bind (others clz t a') (\<lambda>s. Ret (semaphore_take_resume s)))
      (\<lambda>(_, a'). paused clz X Q buf a')" if p: "paused clz X Q buf a'" for r a'
  proof (cases r)
    case None
    have "meets (others clz t a') (working clz t X Q buf)" by (rule meets_mono[OF others_work[OF assms(1,2) p]]) simp
    moreover have "paused clz X Q buf (rtos_clear_current_wait_reason b)" if "working clz t X Q buf b" for b
      using event_pauses[OF assms(1), of X Q buf b ClearReason] working_task[OF that] by simp
    ultimately show ?thesis using None by (auto simp: semaphore_take_resume_def Let_def intro!: meets_bind[of "others clz t a'" "working clz t X Q buf"])
  qed (simp add: p)
  show ?thesis unfolding artos_semaphore_take_def option.case by (rule meets_call[OF enter]) (simp add: rest)
qed

lemma signal_pauses:
  assumes "clz_spec clz" "working clz t X Q buf a" "SemWaitL n \<in> X"
  shows "meets (artos_semaphore_signal (Some n) a) (\<lambda>(_, a'). paused clz X Q buf a')"
  using working_task[OF assms(2)] assms(3)
  by (intro meets_mono[OF call_pauses[OF assms(1), of X Q buf a "SemSignal n"]]) (auto dest: paused_has)

lemma lock_pauses:
  assumes "clz_spec clz" "t \<noteq> IdleTask" "working clz t X Q buf a" "MutexLockL n \<in> X"
  shows "meets (artos_mutex_lock (others clz t) (Some n) timeout a) (\<lambda>(_, a'). paused clz X Q buf a')"
proof -
  note w = working_task[OF assms(3)]
  have enter: "meets (mutex_lock_enter n timeout a) (\<lambda>(_, a'). paused clz X Q buf a' \<and> future a' = future a)"
    using w assms(4) by (intro call_pauses[OF assms(1), of X Q buf a "Lock n timeout"]) (auto dest: paused_has)
  have rest: "meets (case r of Some b \<Rightarrow> Ret (b, a') | None \<Rightarrow> res_bind (others clz t a') (mutex_lock_resume n))
      (\<lambda>(_, a'). paused clz X Q buf a')" if p: "paused clz X Q buf a'" for r a'
  proof (cases r)
    case None
    have "meets (others clz t a') (working clz t X Q buf)" by (rule meets_mono[OF others_work[OF assms(1,2) p]]) simp
    moreover have "meets (mutex_lock_resume n b) (\<lambda>(_, a'). paused clz X Q buf a')" if "working clz t X Q buf b" for b
      using working_task[OF that] assms(4)
      by (intro meets_mono[OF call_pauses[OF assms(1), of X Q buf b "LockResume n"]]) (auto dest: paused_has)
    ultimately show ?thesis using None by (auto intro: meets_bind[of "others clz t a'" "working clz t X Q buf"])
  qed (simp add: p)
  show ?thesis unfolding artos_mutex_lock_def option.case by (rule meets_call[OF enter]) (simp add: rest)
qed

lemma unlock_pauses:
  assumes "clz_spec clz" "working clz t X Q buf a" "MutexLockL n \<in> X"
  shows "meets (artos_mutex_unlock (Some n) a) (\<lambda>(_, a'). paused clz X Q buf a')"
  using working_task[OF assms(2)] assms(3)
  by (intro meets_mono[OF call_pauses[OF assms(1), of X Q buf a "Unlock n"]]) (auto dest: paused_has)

text \<open>The blocking queue calls: each pass after a block consumes a part of the future.\<close>

lemma resume_pauses:
  fixes a :: "('w, 'z) app_scheme"
  assumes "clz_spec clz" "t \<noteq> IdleTask"
    and step: "\<And>s. resume s = res_bind (again s) (\<lambda>(r, s'). case r of Some b \<Rightarrow> Ret (b, s') | None \<Rightarrow> res_bind (others clz t s') resume)"
    and again: "\<And>s. working clz t X Q buf s \<Longrightarrow> meets (again s) (\<lambda>(_, s'). paused clz X Q buf s' \<and> future s' = future s)"
  shows "paused clz X Q buf a \<Longrightarrow> meets (res_bind (others clz t a) resume) (\<lambda>(_, a'). paused clz X Q buf a')"
proof (induction "length (future a)" arbitrary: a rule: less_induct)
  case less
  show ?case
  proof (rule meets_bind[OF others_work[OF assms(1,2) less.prems]])
    fix s :: "('w, 'z) app_scheme" assume s: "working clz t X Q buf s \<and> length (future s) < length (future a)"
    have "meets (case r of Some b \<Rightarrow> Ret (b, s') | None \<Rightarrow> res_bind (others clz t s') resume) (\<lambda>(_, a'). paused clz X Q buf a')"
      if "paused clz X Q buf s' \<and> future s' = future s" for r and s' :: "('w, 'z) app_scheme"
      using less.hyps[of s'] that s by (cases r) simp_all
    then show "meets (resume s) (\<lambda>(_, a'). paused clz X Q buf a')" unfolding step[of s] using s by (intro meets_call[OF again]) simp_all
  qed
qed

lemma enqueue_pauses:
  fixes a :: "('w, 'z) app_scheme"
  assumes "clz_spec clz" "t \<noteq> IdleTask" "working clz t X Q buf a" "q \<in> Q"
  shows "meets (artos_queue_enqueue (others clz t) (Some q) data timeout a) (\<lambda>(_, a'). paused clz X Q buf a')"
proof -
  have made: "queue_created (made s) q" if "paused clz X Q buf s" for s :: "('w, 'z) app_scheme" using that assms(4) by (simp add: paused_def fit_def)
  let ?w = "wake_of timeout a" and ?f = "timeout = ARTOS_DELAY_INFINITY"
  have f: "?f \<longrightarrow> ?w = ARTOS_DELAY_INFINITY" by (rule wake_of_forever)
  have enter: "meets (enqueue_enter q data timeout a) (\<lambda>(_, a'). paused clz X Q buf a' \<and> future a' = future a)"
    using working_task[OF assms(3)] made by (intro call_pauses[OF assms(1), of X Q buf a "Enqueue q data timeout"]) auto
  have again: "meets (enqueue_again q data ?w ?f s) (\<lambda>(_, s'). paused clz X Q buf s' \<and> future s' = future s)" if "working clz t X Q buf s" for s :: "('w, 'z) app_scheme"
    using working_task[OF that] made f by (intro call_pauses[OF assms(1), of X Q buf s "EnqueueAgain q data ?w ?f"]) auto
  have step: "enqueue_resume (others clz t) q data ?w ?f s = res_bind (enqueue_again q data ?w ?f s) (\<lambda>(r, s').
      case r of Some b \<Rightarrow> Ret (b, s') | None \<Rightarrow> res_bind (others clz t s') (enqueue_resume (others clz t) q data ?w ?f))" for s :: "('w, 'z) app_scheme"
    unfolding enqueue_resume_def enqueue_again_def by (rule queue_resume_by_steps)
  have "meets (case r of Some b \<Rightarrow> Ret (b, s) | None \<Rightarrow> res_bind (others clz t s) (enqueue_resume (others clz t) q data ?w ?f))
      (\<lambda>(_, a'). paused clz X Q buf a')" if "paused clz X Q buf s" for r and s :: "('w, 'z) app_scheme"
    using resume_pauses[OF assms(1,2) step again that] that by (cases r) simp_all
  then show ?thesis unfolding enqueue_by_steps by (intro meets_call[OF enter]) simp
qed

lemma dequeue_pauses:
  fixes a :: "('w, 'z) app_scheme"
  assumes "clz_spec clz" "t \<noteq> IdleTask" "working clz t X Q buf a" "q \<in> Q"
  shows "meets (artos_queue_dequeue (others clz t) (Some q) buf timeout a) (\<lambda>(_, a'). paused clz X Q buf a')"
proof -
  have made: "queue_created (made s) q \<and> clear_of_queues buf (unat (q_item_size (queues s q))) (made s) s" if "paused clz X Q buf s" for s :: "('w, 'z) app_scheme"
    using that assms(4) by (simp add: paused_def fit_def)
  let ?w = "wake_of timeout a" and ?f = "timeout = ARTOS_DELAY_INFINITY"
  have f: "?f \<longrightarrow> ?w = ARTOS_DELAY_INFINITY" by (rule wake_of_forever)
  have enter: "meets (dequeue_enter q buf timeout a) (\<lambda>(_, a'). paused clz X Q buf a' \<and> future a' = future a)"
    using working_task[OF assms(3)] made by (intro call_pauses[OF assms(1), of X Q buf a "Dequeue q buf timeout"]) auto
  have again: "meets (dequeue_again q buf ?w ?f s) (\<lambda>(_, s'). paused clz X Q buf s' \<and> future s' = future s)" if "working clz t X Q buf s" for s :: "('w, 'z) app_scheme"
    using working_task[OF that] made f by (intro call_pauses[OF assms(1), of X Q buf s "DequeueAgain q buf ?w ?f"]) auto
  have step: "dequeue_resume (others clz t) q buf ?w ?f s = res_bind (dequeue_again q buf ?w ?f s) (\<lambda>(r, s').
      case r of Some b \<Rightarrow> Ret (b, s') | None \<Rightarrow> res_bind (others clz t s') (dequeue_resume (others clz t) q buf ?w ?f))" for s :: "('w, 'z) app_scheme"
    unfolding dequeue_resume_def dequeue_again_def by (rule queue_resume_by_steps)
  have "meets (case r of Some b \<Rightarrow> Ret (b, s) | None \<Rightarrow> res_bind (others clz t s) (dequeue_resume (others clz t) q buf ?w ?f))
      (\<lambda>(_, a'). paused clz X Q buf a')" if "paused clz X Q buf s" for r and s :: "('w, 'z) app_scheme"
    using resume_pauses[OF assms(1,2) step again that] that by (cases r) simp_all
  then show ?thesis unfolding dequeue_by_steps by (intro meets_call[OF enter]) simp
qed

lemma others_resume: "clz_spec clz \<Longrightarrow> t \<noteq> IdleTask \<Longrightarrow> paused clz X Q buf a \<Longrightarrow> meets (others clz t a) (working clz t X Q buf)"
  using others_work meets_mono[of "others clz t a" _ "working clz t X Q buf"] by blast

text \<open>What the task does to the world and to memory.\<close>

lemma world_pauses: "paused clz X Q buf a \<Longrightarrow> paused clz X Q buf (a\<lparr>world := w\<rparr>)"
  using reachable_app(2)[of clz a "made a" w] by (simp add: paused_def fit_def clear_of_queues_def)

lemma write_pauses:
  assumes "clz_spec clz" "paused clz X Q buf a"
  shows "paused clz X Q buf (a\<lparr>mem := (mem a)(x := v)\<rparr>)"
  using event_pauses[OF assms, of "WriteMem x v"] by simp

lemma store_bytes_snoc:
  assumes "length bs < 2 ^ 32"
  shows "store_bytes x (bs @ [b]) m = (store_bytes x bs m)(x + of_nat (length bs) := b)"
proof
  fix y :: u32
  have n: "unat (of_nat (length bs) :: u32) = length bs" using assms by (rule unat_of_nat_u32)
  have "y = x + of_nat (length bs) \<longleftrightarrow> y - x = of_nat (length bs)" by (auto simp: algebra_simps)
  also have "\<dots> \<longleftrightarrow> unat (y - x) = length bs" using n by (simp add: word_unat_eq_iff)
  finally show "store_bytes x (bs @ [b]) m y = ((store_bytes x bs m)(x + of_nat (length bs) := b)) y"
    by (auto simp: store_bytes_def nth_append less_Suc_eq)
qed

lemma store_pauses:
  assumes "clz_spec clz" "paused clz X Q buf a" "length bs \<le> 2 ^ 32"
  shows "paused clz X Q buf (a\<lparr>mem := store_bytes x bs (mem a)\<rparr>)"
  using assms(3)
proof (induction bs rule: rev_induct)
  case Nil
  have "store_bytes x [] (mem a) = mem a" by (simp add: store_bytes_def fun_eq_iff)
  then show ?case using assms(2) by simp
next
  case (snoc b bs)
  then have "length bs < 2 ^ 32" by simp
  then show ?case using write_pauses[OF assms(1) snoc.IH, of "x + of_nat (length bs)" b] snoc.prems by (simp add: store_bytes_snoc del: fun_upd_apply)
qed

lemma board_pauses:
  assumes "paused clz X Q buf a"
  shows "meets (on_board f a) (paused clz X Q buf)" "meets (set_led A on a) (paused clz X Q buf)"
    "meets (put_char A c a) (paused clz X Q buf)" "meets (put_string A cs a) (paused clz X Q buf)" "meets (put_uint A v a) (paused clz X Q buf)"
proof -
  have "meets (on_board f a) (paused clz X Q buf)" for f
    using world_pauses[OF assms] by (auto simp: on_board_def split: option.split)
  then show "meets (on_board f a) (paused clz X Q buf)" "meets (set_led A on a) (paused clz X Q buf)"
    "meets (put_char A c a) (paused clz X Q buf)" "meets (put_string A cs a) (paused clz X Q buf)" "meets (put_uint A v a) (paused clz X Q buf)"
    by (simp_all add: set_led_def put_char_def put_string_def put_uint_def)
qed

section \<open>Statements that pause the task\<close>

definition allowed :: "(u32 \<Rightarrow> u8) \<Rightarrow> tcb_ref \<Rightarrow> list_ref set \<Rightarrow> nat set \<Rightarrow> u32 \<Rightarrow> ('w, 'z) stmt \<Rightarrow> bool" where
  "allowed clz t X Q buf f \<longleftrightarrow> (\<forall>a. working clz t X Q buf a \<longrightarrow> meets (f a) (paused clz X Q buf))"

named_theorems allowed_rules

lemma working_paused: "working clz t X Q buf a \<Longrightarrow> paused clz X Q buf a"
  by (simp add: working_task)

lemma allowed_board [allowed_rules]:
  "allowed clz t X Q buf (set_led A on)" "allowed clz t X Q buf (put_char A c)" "allowed clz t X Q buf (put_string A cs)"
  "allowed clz t X Q buf (put_uint A v)" "allowed clz t X Q buf (\<lambda>a. put_char A (hc a) a)" "allowed clz t X Q buf (\<lambda>a. put_string A (hs a) a)"
  "allowed clz t X Q buf (\<lambda>a. put_uint A (hv a) a)"
  by (auto simp: allowed_def intro!: board_pauses working_paused)

lemma allowed_world [allowed_rules]: "allowed clz t X Q buf (\<lambda>a. Ret (a\<lparr>world := h a\<rparr>))"
  by (auto simp: allowed_def intro: world_pauses dest: working_paused)

lemma allowed_yield [allowed_rules]: "clz_spec clz \<Longrightarrow> allowed clz t X Q buf (\<lambda>a. Ret (artos_yield a))"
  using waits_pause(3) by (auto simp: allowed_def)

lemma allowed_wait [allowed_rules]:
  "clz_spec clz \<Longrightarrow> allowed clz t X Q buf (artos_wait n)" "clz_spec clz \<Longrightarrow> allowed clz t X Q buf (artos_wait_until w)"
  using waits_pause(1,2) by (auto simp: allowed_def)

lemma allowed_objects [allowed_rules]:
  "clz_spec clz \<Longrightarrow> t \<noteq> IdleTask \<Longrightarrow> SemWaitL n \<in> X \<Longrightarrow> allowed clz t X Q buf (ignoring (artos_semaphore_take (others clz t) (Some n) timeout))"
  "clz_spec clz \<Longrightarrow> SemWaitL n \<in> X \<Longrightarrow> allowed clz t X Q buf (ignoring (artos_semaphore_signal (Some n)))"
  "clz_spec clz \<Longrightarrow> MutexLockL n \<in> X \<Longrightarrow> allowed clz t X Q buf (ignoring (artos_mutex_unlock (Some n)))"
  unfolding allowed_def using take_pauses[of clz t X Q buf _ n timeout] signal_pauses[of clz t X Q buf _ n] unlock_pauses[of clz t X Q buf _ n]
  by (blast intro: meets_ignoring)+

lemma stmts_allowed:
  assumes "clz_spec clz" "t \<noteq> IdleTask" "list_all (allowed clz t X Q buf) fs"
  shows "working clz t X Q buf a \<Longrightarrow> meets (stmts (others clz t) fs a) (working clz t X Q buf)"
  using meets_stmts[of "paused clz X Q buf" "others clz t" "working clz t X Q buf" fs a] others_resume[OF assms(1,2)] assms(3)
  by (auto simp: allowed_def list_all_iff)

lemma stmts_then:
  assumes "clz_spec clz" "t \<noteq> IdleTask" "list_all (allowed clz t X Q buf) fs" "working clz t X Q buf a" "\<And>a. working clz t X Q buf a \<Longrightarrow> meets (g a) R"
  shows "meets (res_bind (stmts (others clz t) fs a) g) R"
  by (rule meets_bind[OF stmts_allowed[OF assms(1-4)] assms(5)])

lemma run_then:
  assumes "clz_spec clz" "t \<noteq> IdleTask" "paused clz X Q buf a" "\<And>a. working clz t X Q buf a \<Longrightarrow> meets (g a) R"
  shows "meets (res_bind (others clz t a) g) R"
  by (rule meets_bind[OF others_resume[OF assms(1-3)] assms(4)])

section \<open>Loops with a condition\<close>

partial_function (option) while_loop ::
    "('x \<Rightarrow> bool) \<Rightarrow> ('x \<Rightarrow> ('x, 's) res) \<Rightarrow> 'x \<Rightarrow> ('x, 's) res option" where
  "while_loop c f x =
     (if c x then (case f x of Ret y \<Rightarrow> while_loop c f y | Halt h s \<Rightarrow> Some (Halt h s) | Loops \<Rightarrow> Some Loops) else Some (Ret x))"

definition while_do :: "('x \<Rightarrow> bool) \<Rightarrow> ('x \<Rightarrow> ('x, 's) res) \<Rightarrow> 'x \<Rightarrow> ('x, 's) res" where
  "while_do c f x = loop_res (while_loop c f x)"

lemma while_do_step: "while_do c f x = (if c x then res_bind (f x) (while_do c f) else Ret x)"
  by (simp add: while_do_def while_loop.simps[of c f x] loop_res_def split: res.split)

lemma meets_while:
  assumes "\<And>x. W x \<Longrightarrow> c x \<Longrightarrow> meets (f x) W" "W x"
  shows "meets (while_do c f x) (\<lambda>x. W x \<and> \<not> c x)"
proof -
  have "W x \<longrightarrow> meets r (\<lambda>x. W x \<and> \<not> c x)" if "while_loop c f x = Some r" for r
    by (rule while_loop.raw_induct[where P = "\<lambda>c' f' x r. c' = c \<and> f' = f \<longrightarrow> W x \<longrightarrow> meets r (\<lambda>x. W x \<and> \<not> c x)"
          and xa = "((c, f), x)", simplified, OF _ that])
      (use assms(1) in \<open>fastforce split: if_splits res.splits\<close>)
  then show ?thesis using assms(2) by (cases "while_loop c f x") (auto simp: while_do_def loop_res_def)
qed

end
