(* ===== verification/Printing.thy ===== *)
theory Printing
  imports App
begin

text \<open>
  What the tasks of the demos print. A sequence of statements that print, with the others running between them, sends the
  concatenation of the texts of its statements when the others send nothing meanwhile.
\<close>

definition TAB :: string where "TAB = [CHR 0x09]"
definition NL :: char where "NL = CHR 0x0A"

definition chars :: "string \<Rightarrow> u8 list" where
  "chars cs = map of_char cs"

lemma chars_one [simp]: "chars [c] = [of_char c]"
  by (simp add: chars_def)

section \<open>What is printed\<close>

text \<open>The board sends what it is told to; \<open>out\<close> is all it has sent.\<close>

definition digits :: "u32 \<Rightarrow> u8 list" where
  "digits v = (if v = 0 then [48] else decimal (unat v))"

definition api_sends :: "'b board_api \<Rightarrow> ('b \<Rightarrow> u8 list) \<Rightarrow> bool" where
  "api_sends A out \<longleftrightarrow> sends (api_write_char A) out \<and>
     (\<forall>cs b. 0 \<notin> set cs \<longrightarrow> (\<exists>b'. api_write_string A (cs @ [0]) b = Some b' \<and> out b' = out b @ cs)) \<and>
     (\<forall>v b. \<exists>b'. api_write_uint A v b = Some b' \<and> out b' = out b @ digits v)"

lemma f446_api_sends:
  assumes "transmitter D f446_reg.USART2_SR f446_reg.USART2_DR (f446_header.USART_SR_TXE H) sent" "10 \<le> length scratch"
  shows "api_sends (f446_api H D scratch) (\<lambda>b. sent (dev b))"
  using f446_write_char_sends[OF assms(1)] write_string_sends[OF f446_write_char_sends[OF assms(1)], of _ "[]"]
    write_uint_sends[OF f446_write_char_sends[OF assms(1)] assms(2)]
  by (simp add: api_sends_def f446_api_def Board_F446.board_uart_write_string_def Board_F446.board_uart_write_uint_def digits_def)

lemma l4s5_api_sends:
  assumes "transmitter D l4s5_reg.USART1_ISR l4s5_reg.USART1_TDR (l4s5_header.USART_ISR_TXE_TXFNF H) sent" "10 \<le> length scratch"
  shows "api_sends (l4s5_api H D scratch) (\<lambda>b. sent (dev b))"
  using l4s5_write_char_sends[OF assms(1)] write_string_sends[OF l4s5_write_char_sends[OF assms(1)], of _ "[]"]
    write_uint_sends[OF l4s5_write_char_sends[OF assms(1)] assms(2)]
  by (simp add: api_sends_def l4s5_api_def Board_L4S5.board_uart_write_string_def Board_L4S5.board_uart_write_uint_def digits_def)

definition transcript :: "('b \<Rightarrow> u8 list) \<Rightarrow> (('b, 'g) world_scheme, 'z) app_scheme \<Rightarrow> u8 list" where
  "transcript out a = out (device (world a))"

text \<open>Statement \<open>f\<close> returns from a state with \<open>J\<close>, keeps \<open>J\<close> and sends a text in \<open>T\<close>.\<close>

definition emits ::
    "('b \<Rightarrow> u8 list) \<Rightarrow> ((('b, 'g) world_scheme, 'z) app_scheme \<Rightarrow> bool) \<Rightarrow> (('b, 'g) world_scheme, 'z) stmt \<Rightarrow> u8 list set \<Rightarrow> bool" where
  "emits out J f T \<longleftrightarrow> (\<forall>a. J a \<longrightarrow> (\<exists>a' x. f a = Ret a' \<and> J a' \<and> x \<in> T \<and> transcript out a' = transcript out a @ x))"

text \<open>The others send nothing and keep \<open>J\<close>.\<close>

definition leaves_line ::
    "('b \<Rightarrow> u8 list) \<Rightarrow> ((('b, 'g) world_scheme, 'z) app_scheme \<Rightarrow> bool) \<Rightarrow> (('b, 'g) world_scheme, 'z) stmt \<Rightarrow> bool" where
  "leaves_line out J run \<longleftrightarrow> (\<forall>a a'. J a \<and> run a = Ret a' \<longrightarrow> J a' \<and> transcript out a' = transcript out a)"

text \<open>\<open>J\<close> is not about the board.\<close>

definition off_board :: "((('b, 'g) world_scheme, 'z) app_scheme \<Rightarrow> bool) \<Rightarrow> bool" where
  "off_board J \<longleftrightarrow> (\<forall>a b. J a \<longrightarrow> J (a\<lparr>world := (world a)\<lparr>device := b\<rparr>\<rparr>))"

lemma emits_board:
  fixes f :: "'b \<Rightarrow> 'b option" and J :: "(('b, 'g) world_scheme, 'z) app_scheme \<Rightarrow> bool"
  assumes "off_board J" "\<And>b. \<exists>b'. f b = Some b' \<and> out b' = out b @ x"
  shows "emits out J (on_board f) {x}"
  unfolding emits_def
proof (intro allI impI)
  fix a :: "(('b, 'g) world_scheme, 'z) app_scheme" assume J: "J a"
  obtain b' where "f (device (world a)) = Some b'" "out b' = out (device (world a)) @ x" using assms(2) by blast
  then show "\<exists>a' y. on_board f a = Ret a' \<and> J a' \<and> y \<in> {x} \<and> transcript out a' = transcript out a @ y"
    using J assms(1) by (simp add: on_board_def transcript_def off_board_def)
qed

lemma emits_put:
  assumes "api_sends A out" "off_board J"
  shows "emits out J (put_char A c) {[of_char c]}" "0 \<notin> set (map of_char cs :: u8 list) \<Longrightarrow> emits out J (put_string A cs) {chars cs}"
    "emits out J (put_uint A v) {digits v}"
proof -
  note s = assms(1)[unfolded api_sends_def sends_def]
  show "emits out J (put_char A c) {[of_char c]}" unfolding put_char_def using s by (intro emits_board[OF assms(2)]) blast
  show "emits out J (put_string A cs) {chars cs}" if "0 \<notin> set (map of_char cs :: u8 list)"
    unfolding put_string_def cstr_def chars_def using s that by (intro emits_board[OF assms(2)]) blast
  show "emits out J (put_uint A v) {digits v}" unfolding put_uint_def using s by (intro emits_board[OF assms(2)]) blast
qed

text \<open>What is printed can depend on the state.\<close>

lemma emits_state:
  assumes "\<And>a. J a \<Longrightarrow> h a \<in> V" "\<And>v. v \<in> V \<Longrightarrow> emits out J (g v) T"
  shows "emits out J (\<lambda>a. g (h a) a) T"
  using assms unfolding emits_def by blast

lemma stmts_emit:
  assumes "list_all2 (emits out J) fs Ts" "leaves_line out J run" "J a"
  shows "stmts run fs a = Ret a' \<longrightarrow> J a' \<and> (\<exists>xs. list_all2 (\<in>) xs Ts \<and> transcript out a' = transcript out a @ concat xs)"
    "(\<forall>b. \<exists>b'. run b = Ret b') \<longrightarrow> (\<exists>a'. stmts run fs a = Ret a')"
proof -
  have "(stmts run fs a = Ret a' \<longrightarrow> J a' \<and> (\<exists>xs. list_all2 (\<in>) xs Ts \<and> transcript out a' = transcript out a @ concat xs)) \<and>
      ((\<forall>b. \<exists>b'. run b = Ret b') \<longrightarrow> (\<exists>a'. stmts run fs a = Ret a'))"
    using assms(1,3)
  proof (induction fs Ts arbitrary: a rule: list_all2_induct)
    case Nil
    then show ?case by (auto intro!: exI[of _ "[]"])
  next
    case (Cons f fs T Ts)
    obtain b x where b: "f a = Ret b" "J b" "x \<in> T" "transcript out b = transcript out a @ x"
      using Cons.hyps(1) Cons.prems by (auto simp: emits_def)
    have c: "J c \<and> transcript out c = transcript out b" if "run b = Ret c" for c
      using assms(2) that b(2) unfolding leaves_line_def by metis
    show ?case
    proof (intro conjI impI)
      assume "stmts run (f # fs) a = Ret a'"
      then obtain c where r: "run b = Ret c" "stmts run fs c = Ret a'" using b(1) by (auto simp: res_bind_eq_Ret)
      obtain xs where "list_all2 (\<in>) xs Ts" "transcript out a' = transcript out c @ concat xs" "J a'" using Cons.IH[of c] c[OF r(1)] r(2) by auto
      then show "\<exists>xs. list_all2 (\<in>) xs (T # Ts) \<and> transcript out a' = transcript out a @ concat xs" "J a'"
        using b c[OF r(1)] by (auto intro!: exI[of _ "x # xs"])
    next
      assume t: "\<forall>b. \<exists>b'. run b = Ret b'"
      then obtain c where "run b = Ret c" by blast
      then show "\<exists>a'. stmts run (f # fs) a = Ret a'" using b(1) Cons.IH[of c] c t by simp
    qed
  qed
  then show "stmts run fs a = Ret a' \<longrightarrow> J a' \<and> (\<exists>xs. list_all2 (\<in>) xs Ts \<and> transcript out a' = transcript out a @ concat xs)"
    "(\<forall>b. \<exists>b'. run b = Ret b') \<longrightarrow> (\<exists>a'. stmts run fs a = Ret a')" by simp_all
qed

end
