(* ===== verification/Showcase_Tasks.thy ===== *)
theory Showcase_Tasks
  imports Printing
begin

unbundle bit_operations_syntax

text \<open>
  The tasks of the showcase (demos/showcase/main.c), among the other tasks and the interrupts. \<open>run\<close> is what the others do at
  a point of preemption or while the task is blocked. Semaphore 0 is \<open>uart_lock\<close>, queue 0 is \<open>queue\<close> and queue 1 is
  \<open>button_queue\<close>; \<open>message\<close> is the address of the local variable of that name.
\<close>

section \<open>Printing under the lock\<close>

text \<open>A message in memory, read back.\<close>

definition load_word :: "(u32 \<Rightarrow> u8) \<Rightarrow> u32 \<Rightarrow> u32" where
  "load_word m a = ucast (m a) OR push_bit 8 (ucast (m (a + 1))) OR push_bit 16 (ucast (m (a + 2))) OR push_bit 24 (ucast (m (a + 3)))"

definition msg_event :: "u32 \<Rightarrow> ('w, 'z) app_scheme \<Rightarrow> demo_event" where
  "msg_event message a = (if mem a message = 0 then DEMO_HEARTBEAT else DEMO_BUTTON)"

definition msg_sequence :: "u32 \<Rightarrow> ('w, 'z) app_scheme \<Rightarrow> u32" where
  "msg_sequence message a = load_word (mem a) (message + 4)"

definition msg_created :: "u32 \<Rightarrow> ('w, 'z) app_scheme \<Rightarrow> u32" where
  "msg_created message a = load_word (mem a) (message + 8)"

definition locked :: "('w, 'z) stmt \<Rightarrow> ('w, 'z) stmt list \<Rightarrow> ('w, 'z) stmt list" where
  "locked run body =
     ignoring (artos_semaphore_take run (Some 0) ARTOS_DELAY_INFINITY) # body @ [ignoring (artos_semaphore_signal (Some 0))]"

section \<open>The tasks\<close>

definition led_round ::
    "'b board_api \<Rightarrow> (('b, 'g) world_scheme, 'z) stmt \<Rightarrow> u32 \<Rightarrow> (('b, 'g) world_scheme, 'z) app_scheme \<Rightarrow>
     (u32 \<times> (('b, 'g) world_scheme, 'z) app_scheme, ('b, 'g) world_scheme, 'z) ares" where
  "led_round A run next_run_tick a =
     (let next_run_tick = next_run_tick + ARTOS_MS_TO_TICKS 2000
      in res_bind (stmts run
        [set_led A True, artos_wait 500, set_led A False, artos_wait 100,
         set_led A True, artos_wait 100, set_led A False, artos_wait 100,
         set_led A True, artos_wait 100, set_led A False, artos_wait 100,
         set_led A True, artos_wait 100, set_led A False, artos_wait_until next_run_tick] a) (\<lambda>a.
        Ret (next_run_tick, a)))"

definition led_task where
  "led_task A run k a = rounds k (led_round A run) (artos_get_tick a) a"

definition HEARTBEAT_INTERVAL_MS :: u32 where "HEARTBEAT_INTERVAL_MS = 2000"
definition CONSUMER_TIMEOUT_MS :: u32 where "CONSUMER_TIMEOUT_MS = 1200"

definition heartbeat_round ::
    "u8 list \<Rightarrow> u32 \<Rightarrow> ('w, 'z) stmt \<Rightarrow> u32 \<times> u32 \<Rightarrow> ('w, 'z) app_scheme \<Rightarrow>
     ((u32 \<times> u32) \<times> ('w, 'z) app_scheme, 'w, 'z) ares" where
  "heartbeat_round pad message run = (\<lambda>(sequence, next_tick) a.
     let sequence = sequence + 1;
         a = a\<lparr>mem := store_bytes message (message_bytes pad DEMO_HEARTBEAT sequence (artos_get_tick a)) (mem a)\<rparr>
     in res_bind (run a) (\<lambda>a.
        res_bind (artos_queue_enqueue run (Some 0) message 0 a) (\<lambda>(_, a).
        let next_tick = next_tick + ARTOS_MS_TO_TICKS HEARTBEAT_INTERVAL_MS
        in res_bind (run a) (\<lambda>a.
           res_bind (stmts run [artos_wait_until next_tick] a) (\<lambda>a. Ret ((sequence, next_tick), a))))))"

definition heartbeat_task where
  "heartbeat_task pad message run k a = rounds k (heartbeat_round pad message run) (0, artos_get_tick a) a"

record consumer_argument =
  consumer_id :: u32
  delay_ms :: u32

definition consumer_arguments :: "consumer_argument list" where
  "consumer_arguments = [\<lparr>consumer_id = 1, delay_ms = 2500\<rparr>, \<lparr>consumer_id = 2, delay_ms = 3500\<rparr>, \<lparr>consumer_id = 3, delay_ms = 4500\<rparr>]"

definition timeout_line :: "'b board_api \<Rightarrow> consumer_argument \<Rightarrow> (('b, 'g) world_scheme, 'z) stmt list" where
  "timeout_line A consumer =
     [put_char A CHR ''C'',
      put_uint A (consumer_id consumer),
      put_string A (TAB @ ''NONE'' @ TAB @ TAB @ ''#NONE'' @ TAB @ ''@''),
      (\<lambda>a. put_uint A (artos_get_tick a) a),
      put_string A (TAB @ ''timeout=''),
      put_uint A (ARTOS_MS_TO_TICKS CONSUMER_TIMEOUT_MS),
      put_char A NL]"

definition times_of :: "'b board_api \<Rightarrow> u32 \<Rightarrow> u32 \<Rightarrow> (('b, 'g) world_scheme, 'z) stmt list" where
  "times_of A message received_tick =
     [(\<lambda>a. put_uint A (msg_sequence message a) a),
      put_string A (TAB @ ''created=@''),
      (\<lambda>a. put_uint A (msg_created message a) a),
      put_string A (TAB @ ''received=@''),
      put_uint A received_tick,
      put_string A (TAB @ ''age=''),
      (\<lambda>a. put_uint A (received_tick - msg_created message a) a),
      put_char A NL]"

definition message_line :: "'b board_api \<Rightarrow> consumer_argument \<Rightarrow> u32 \<Rightarrow> u32 \<Rightarrow> (('b, 'g) world_scheme, 'z) stmt list" where
  "message_line A consumer message received_tick =
     [put_char A CHR ''C'',
      put_uint A (consumer_id consumer),
      put_char A CHR 0x09,
      (\<lambda>a. put_string A (if msg_event message a = DEMO_HEARTBEAT then ''HEARTBEAT'' else ''BUTTON'') a),
      put_string A (TAB @ ''#'')] @ times_of A message received_tick"

definition logger_round ::
    "'b board_api \<Rightarrow> u32 \<Rightarrow> consumer_argument \<Rightarrow> (('b, 'g) world_scheme, 'z) stmt \<Rightarrow> unit \<Rightarrow> (('b, 'g) world_scheme, 'z) app_scheme \<Rightarrow>
     (unit \<times> (('b, 'g) world_scheme, 'z) app_scheme, ('b, 'g) world_scheme, 'z) ares" where
  "logger_round A message consumer run l a =
     res_bind (artos_queue_dequeue run (Some 0) message (ARTOS_MS_TO_TICKS CONSUMER_TIMEOUT_MS) a) (\<lambda>(received, a).
     res_bind (run a) (\<lambda>a.
       if \<not> received then res_bind (stmts run (locked run (timeout_line A consumer)) a) (\<lambda>a. Ret ((), a))
       else let received_tick = artos_get_tick a
            in res_bind (stmts run (locked run (message_line A consumer message received_tick) @
                   [artos_wait (ARTOS_MS_TO_TICKS (delay_ms consumer))]) a) (\<lambda>a. Ret ((), a))))"

definition logger_task where
  "logger_task A message consumer run k a = rounds k (logger_round A message consumer run) () a"

definition button_line :: "'b board_api \<Rightarrow> u32 \<Rightarrow> u32 \<Rightarrow> (('b, 'g) world_scheme, 'z) stmt list" where
  "button_line A message received_tick = put_string A (''BUTTON-ONLY'' @ TAB @ ''BUTTON'' @ TAB @ ''#'') # times_of A message received_tick"

definition button_logger_round ::
    "'b board_api \<Rightarrow> u32 \<Rightarrow> (('b, 'g) world_scheme, 'z) stmt \<Rightarrow> unit \<Rightarrow> (('b, 'g) world_scheme, 'z) app_scheme \<Rightarrow>
     (unit \<times> (('b, 'g) world_scheme, 'z) app_scheme, ('b, 'g) world_scheme, 'z) ares" where
  "button_logger_round A message run l a =
     res_bind (artos_queue_dequeue run (Some 1) message ARTOS_DELAY_INFINITY a) (\<lambda>(received, a).
     res_bind (run a) (\<lambda>a.
       if \<not> received then Ret ((), a)
       else let received_tick = artos_get_tick a
            in res_bind (stmts run (locked run (button_line A message received_tick)) a) (\<lambda>a. Ret ((), a))))"

definition button_logger_task where
  "button_logger_task A message run k a = rounds k (button_logger_round A message run) () a"

record 'b showcase_world = "'b world" +
  load_sink :: u32

definition burn :: "nat \<Rightarrow> u32 \<Rightarrow> u32" where
  "burn n value = ((\<lambda>v. v * 1664525 + 1013904223) ^^ n) value"

definition load_round ::
    "(('b, 'g) showcase_world_scheme, 'z) stmt \<Rightarrow> unit \<Rightarrow> (('b, 'g) showcase_world_scheme, 'z) app_scheme \<Rightarrow>
     (unit \<times> (('b, 'g) showcase_world_scheme, 'z) app_scheme, ('b, 'g) showcase_world_scheme, 'z) ares" where
  "load_round run l a =
     (let v = load_sink (world a)
      in res_bind (run a) (\<lambda>a.
         res_bind (stmts run
           [\<lambda>a. Ret (a\<lparr>world := (world a)\<lparr>load_sink := burn 50000 v\<rparr>\<rparr>), \<lambda>a. Ret (artos_yield a)] a) (\<lambda>a. Ret ((), a))))"

definition load_task where
  "load_task run k a = rounds k (load_round run) () a"

section \<open>No task ever fails\<close>

lemma lines_allowed:
  "list_all (allowed clz t X Q buf) (timeout_line A c)" "list_all (allowed clz t X Q buf) (message_line A c m v)"
  "list_all (allowed clz t X Q buf) (button_line A m v)"
  by (simp_all add: timeout_line_def message_line_def button_line_def times_of_def allowed_rules)

lemma locked_allowed:
  assumes "clz_spec clz" "t \<noteq> IdleTask" "SemWaitL 0 \<in> X" "list_all (allowed clz t X Q buf) body"
  shows "list_all (allowed clz t X Q buf) (locked (others clz t) body)"
  using assms by (simp add: locked_def allowed_rules)

lemma led_round_works:
  assumes "clz_spec clz" "t \<noteq> IdleTask" "working clz t X Q buf a"
  shows "meets (led_round A (others clz t) l a) (\<lambda>(l', a). l' = l + 2000 \<and> working clz t X Q buf a)"
  unfolding led_round_def Let_def by (rule stmts_then[OF assms(1,2) _ assms(3)]) (simp_all add: allowed_rules assms(1) ARTOS_MS_TO_TICKS_def ARTOS_TICK_HZ_def)

lemma heartbeat_round_works:
  fixes a :: "('w, 'z) app_scheme"
  assumes "clz_spec clz" "t \<noteq> IdleTask" "working clz t X Q buf a" "0 \<in> Q" "length pad = 3"
  shows "meets (heartbeat_round pad message (others clz t) l a) (\<lambda>(l', a). l' = (fst l + 1, snd l + 2000) \<and> working clz t X Q buf a)"
proof -
  obtain sequence next_tick where l: "l = (sequence, next_tick)" by fastforce
  have ms: "ARTOS_MS_TO_TICKS HEARTBEAT_INTERVAL_MS = 2000"
    by (simp add: HEARTBEAT_INTERVAL_MS_def ARTOS_MS_TO_TICKS_def ARTOS_TICK_HZ_def)
  let ?x = "message_bytes pad DEMO_HEARTBEAT (sequence + 1) (artos_get_tick a)"
  have s: "paused clz X Q buf (a\<lparr>mem := store_bytes message ?x (mem a)\<rparr>)"
    using store_pauses[OF assms(1) working_paused[OF assms(3)], of ?x message] message_length[OF assms(5)] by simp
  have w: "meets (res_bind (stmts (others clz t) [artos_wait_until n] b) (\<lambda>a. Ret (l, a))) (\<lambda>(l', a). l' = l \<and> working clz t X Q buf a)"
    if "working clz t X Q buf b" for n l and b :: "('w, 'z) app_scheme"
    by (rule stmts_then[OF assms(1,2) _ that]) (simp_all add: allowed_rules assms(1))
  show ?thesis unfolding heartbeat_round_def l prod.case Let_def ms fst_conv snd_conv
    by (intro run_then[OF assms(1,2) s] meets_call[OF enqueue_pauses[OF assms(1,2) _ assms(4)]] run_then[OF assms(1,2)] w)
qed

lemma logger_round_works:
  fixes a :: "(('b, 'g) world_scheme, 'z) app_scheme"
  assumes "clz_spec clz" "t \<noteq> IdleTask" "SemWaitL 0 \<in> X" "0 \<in> Q" "working clz t X Q message a"
  shows "meets (logger_round A message consumer (others clz t) l a) (\<lambda>(l, a). working clz t X Q message a)"
proof -
  have w: "meets (res_bind (stmts (others clz t) (locked (others clz t) (timeout_line A consumer)) b) (\<lambda>a. Ret ((), a))) (\<lambda>(l, a). working clz t X Q message a)"
    "meets (res_bind (stmts (others clz t) (locked (others clz t) (message_line A consumer message v) @ [artos_wait n]) b) (\<lambda>a. Ret ((), a)))
      (\<lambda>(l, a). working clz t X Q message a)"
    if "working clz t X Q message b" for v n and b :: "(('b, 'g) world_scheme, 'z) app_scheme"
    by (rule stmts_then[OF assms(1,2) _ that]; simp add: locked_allowed[OF assms(1-3)] lines_allowed allowed_rules assms(1))+
  show ?thesis unfolding logger_round_def
    by (rule meets_call[OF dequeue_pauses[OF assms(1,2,5,4)]], rule run_then[OF assms(1,2)]) (auto simp: Let_def intro: w)
qed

lemma button_logger_round_works:
  fixes a :: "(('b, 'g) world_scheme, 'z) app_scheme"
  assumes "clz_spec clz" "t \<noteq> IdleTask" "SemWaitL 0 \<in> X" "1 \<in> Q" "working clz t X Q message a"
  shows "meets (button_logger_round A message (others clz t) l a) (\<lambda>(l, a). working clz t X Q message a)"
proof -
  have w: "meets (res_bind (stmts (others clz t) (locked (others clz t) (button_line A message v)) b) (\<lambda>a. Ret ((), a))) (\<lambda>(l, a). working clz t X Q message a)"
    if "working clz t X Q message b" for v and b :: "(('b, 'g) world_scheme, 'z) app_scheme"
    by (rule stmts_then[OF assms(1,2) _ that]) (simp_all add: locked_allowed[OF assms(1-3)] lines_allowed)
  show ?thesis unfolding button_logger_round_def
    by (rule meets_call[OF dequeue_pauses[OF assms(1,2,5,4)]], rule run_then[OF assms(1,2)]) (auto simp: Let_def intro: w)
qed

lemma load_round_works:
  fixes a :: "(('b, 'g) showcase_world_scheme, 'z) app_scheme"
  assumes "clz_spec clz" "t \<noteq> IdleTask" "working clz t X Q buf a"
  shows "meets (load_round (others clz t) l a) (\<lambda>(l, a). working clz t X Q buf a)"
  unfolding load_round_def Let_def
  by (intro run_then[OF assms(1,2) working_paused[OF assms(3)]] stmts_then[OF assms(1,2)]) (simp_all add: allowed_rules assms(1))


section \<open>A message in memory\<close>

lemma bytes_of_word:
  "(ucast (ucast w :: u8) :: u32) OR push_bit 8 (ucast (ucast (drop_bit 8 w) :: u8)) OR push_bit 16 (ucast (ucast (drop_bit 16 w) :: u8)) OR
     push_bit 24 (ucast (ucast (drop_bit 24 w) :: u8)) = w"
proof (rule bit_word_eqI)
  fix n assume n: "n < LENGTH(32)"
  then have "n < 8 \<or> 8 \<le> n \<and> n < 16 \<or> 16 \<le> n \<and> n < 24 \<or> 24 \<le> n \<and> n < 32" by auto
  then show "bit ((ucast (ucast w :: u8) :: u32) OR push_bit 8 (ucast (ucast (drop_bit 8 w) :: u8)) OR push_bit 16 (ucast (ucast (drop_bit 16 w) :: u8)) OR
     push_bit 24 (ucast (ucast (drop_bit 24 w) :: u8))) n = bit w n"
    by (elim disjE) (auto simp: bit_simps)
qed

lemma load_le_bytes:
  assumes "buffer m a 4 = le_bytes w"
  shows "load_word m a = w"
proof -
  have u: "[0..<4] = [0, 1, 2, 3 :: nat]" by (simp add: upt_rec)
  have "m a = ucast w" "m (a + 1) = ucast (drop_bit 8 w)" "m (a + 2) = ucast (drop_bit 16 w)" "m (a + 3) = ucast (drop_bit 24 w)"
    using assms by (simp_all add: buffer_def u le_bytes_def)
  then show ?thesis unfolding load_word_def by (simp only: bytes_of_word)
qed

lemma buffer_split: "buffer m a (i + n) = buffer m a i @ buffer m (a + of_nat i) n"
proof -
  have "[0..<i + n] = [0..<i] @ [i..<i + n]" using upt_add_eq_append[of 0 i n] by simp
  moreover have "[i..<i + n] = map (\<lambda>j. j + i) [0..<n]" by (simp add: map_add_upt add.commute)
  ultimately show ?thesis by (simp add: buffer_def comp_def ac_simps)
qed

lemma append_parts: "xs @ ys = us @ vs \<Longrightarrow> length xs = length us \<Longrightarrow> xs = us \<and> ys = vs"
  by simp

lemma message_fields:
  assumes "buffer m msg 12 = message_bytes pad e sequence created" "length pad = 3"
  shows "m msg = (case e of DEMO_HEARTBEAT \<Rightarrow> 0 | DEMO_BUTTON \<Rightarrow> 1)" "load_word m (msg + 4) = sequence" "load_word m (msg + 8) = created"
proof -
  have s: "buffer m msg 12 = buffer m msg 1 @ buffer m (msg + 1) 3 @ buffer m (msg + 4) 4 @ buffer m (msg + 8) 4"
    using buffer_split[of m msg 1 11] buffer_split[of m "msg + 1" 3 8] buffer_split[of m "msg + 4" 4 4] by (simp add: add.assoc)
  have l: "length (buffer m x n) = n" for x n by (simp add: buffer_def)
  have "buffer m msg 1 = [case e of DEMO_HEARTBEAT \<Rightarrow> 0 | DEMO_BUTTON \<Rightarrow> 1] \<and> buffer m (msg + 1) 3 = pad \<and>
      buffer m (msg + 4) 4 = le_bytes sequence \<and> buffer m (msg + 8) 4 = le_bytes created"
  proof -
    let ?x = "(case e of DEMO_HEARTBEAT \<Rightarrow> 0 | DEMO_BUTTON \<Rightarrow> 1) :: u8"
    have le: "length (le_bytes w) = 4" for w by (simp add: le_bytes_def)
    have "buffer m msg 1 @ buffer m (msg + 1) 3 @ buffer m (msg + 4) 4 @ buffer m (msg + 8) 4 = [?x] @ pad @ le_bytes sequence @ le_bytes created"
      using assms(1) unfolding s message_bytes_def by simp
    then have 1: "buffer m msg 1 = [?x]" "buffer m (msg + 1) 3 @ buffer m (msg + 4) 4 @ buffer m (msg + 8) 4 = pad @ le_bytes sequence @ le_bytes created"
      by (auto dest!: append_parts simp: l simp del: append_Cons One_nat_def)
    from 1(2) have 2: "buffer m (msg + 1) 3 = pad" "buffer m (msg + 4) 4 @ buffer m (msg + 8) 4 = le_bytes sequence @ le_bytes created"
      using assms(2) by (auto dest!: append_parts simp: l)
    then show ?thesis using 1(1) le by (auto dest!: append_parts simp: l)
  qed
  then show "m msg = (case e of DEMO_HEARTBEAT \<Rightarrow> 0 | DEMO_BUTTON \<Rightarrow> 1)" "load_word m (msg + 4) = sequence" "load_word m (msg + 8) = created"
    using load_le_bytes by (simp_all add: buffer_def)
qed

section \<open>What is printed\<close>

definition times_text :: "u32 \<Rightarrow> u32 \<Rightarrow> u32 \<Rightarrow> u8 list" where
  "times_text sequence created received =
     digits sequence @ chars (TAB @ ''created=@'') @ digits created @ chars (TAB @ ''received=@'') @ digits received @
     chars (TAB @ ''age='') @ digits (received - created) @ [10]"

definition event_name :: "demo_event \<Rightarrow> string" where
  "event_name e = (case e of DEMO_HEARTBEAT \<Rightarrow> ''HEARTBEAT'' | DEMO_BUTTON \<Rightarrow> ''BUTTON'')"

text \<open>The task's message, as it came out of the queue.\<close>

definition holds_message :: "u32 \<Rightarrow> u8 list \<Rightarrow> demo_event \<Rightarrow> u32 \<Rightarrow> u32 \<Rightarrow> ('w, 'z) app_scheme \<Rightarrow> bool" where
  "holds_message message pad e sequence created a \<longleftrightarrow> length pad = 3 \<and> buffer (mem a) message 12 = message_bytes pad e sequence created"

lemma holds_message_off_board [simp]: "off_board (holds_message message pad e sequence created)"
  by (simp add: off_board_def holds_message_def)

lemma holds_message_fields:
  assumes "holds_message message pad e sequence created a"
  shows "msg_event message a = e" "msg_sequence message a = sequence" "msg_created message a = created"
  using message_fields[of "mem a" message pad e sequence created] assms
  by (cases e; simp add: holds_message_def msg_event_def msg_sequence_def msg_created_def)+

lemma emits_times:
  fixes A :: "'b board_api"
  assumes A: "api_sends A out"
  shows "list_all2 (emits out (holds_message message pad e sequence created)) (times_of A message v :: (('b, 'g) world_scheme, 'z) stmt list)
    [{digits sequence}, {chars (TAB @ ''created=@'')}, {digits created}, {chars (TAB @ ''received=@'')}, {digits v}, {chars (TAB @ ''age='')},
     {digits (v - created)}, {[10]}]"
proof -
  let ?J = "holds_message message pad e sequence created :: (('b, 'g) world_scheme, 'z) app_scheme \<Rightarrow> bool"
  note put = emits_put[OF A, of ?J, simplified]
  have n: "emits out ?J (\<lambda>a. put_uint A (h a) a) {digits w}" if "\<And>a. ?J a \<Longrightarrow> h a = w"
    for w and h :: "(('b, 'g) world_scheme, 'z) app_scheme \<Rightarrow> u32"
    by (rule emits_state[where V = "{w}"]) (use that put(3) in auto)
  have c: "(of_char NL :: u8) = 10" by (simp add: NL_def)
  show ?thesis unfolding times_of_def
    using put(1)[of NL] put(2)[of "TAB @ ''created=@''"] put(2)[of "TAB @ ''received=@''"] put(2)[of "TAB @ ''age=''"] put(3)[of v]
      n[of "msg_sequence message" sequence] n[of "msg_created message" created] n[of "\<lambda>a. v - msg_created message a" "v - created"]
    by (simp add: c TAB_def holds_message_fields)
qed

definition message_text :: "u32 \<Rightarrow> demo_event \<Rightarrow> u32 \<Rightarrow> u32 \<Rightarrow> u32 \<Rightarrow> u8 list" where
  "message_text consumer e sequence created received =
     chars ''C'' @ digits consumer @ chars TAB @ chars (event_name e) @ chars (TAB @ ''#'') @ times_text sequence created received"

definition button_text :: "u32 \<Rightarrow> u32 \<Rightarrow> u32 \<Rightarrow> u8 list" where
  "button_text sequence created received =
     chars (''BUTTON-ONLY'' @ TAB @ ''BUTTON'' @ TAB @ ''#'') @ times_text sequence created received"

definition timeout_text :: "u32 \<Rightarrow> u32 \<Rightarrow> u8 list" where
  "timeout_text consumer tick =
     chars ''C'' @ digits consumer @ chars (TAB @ ''NONE'' @ TAB @ TAB @ ''#NONE'' @ TAB @ ''@'') @ digits tick @
     chars (TAB @ ''timeout='') @ digits 1200 @ [10]"

lemma emits_lines:
  fixes A :: "'b board_api"
  assumes A: "api_sends A out"
  shows "list_all2 (emits out (holds_message message pad e sequence created)) (message_line A consumer message v :: (('b, 'g) world_scheme, 'z) stmt list)
      ([{chars ''C''}, {digits (consumer_id consumer)}, {chars TAB}, {chars (event_name e)}, {chars (TAB @ ''#'')}] @
       [{digits sequence}, {chars (TAB @ ''created=@'')}, {digits created}, {chars (TAB @ ''received=@'')}, {digits v}, {chars (TAB @ ''age='')},
        {digits (v - created)}, {[10]}])"
    "list_all2 (emits out (holds_message message pad e sequence created)) (button_line A message v :: (('b, 'g) world_scheme, 'z) stmt list)
      ({chars (''BUTTON-ONLY'' @ TAB @ ''BUTTON'' @ TAB @ ''#'')} #
       [{digits sequence}, {chars (TAB @ ''created=@'')}, {digits created}, {chars (TAB @ ''received=@'')}, {digits v}, {chars (TAB @ ''age='')},
        {digits (v - created)}, {[10]}])"
    "list_all2 (emits out (holds_message message pad e sequence created)) (timeout_line A consumer :: (('b, 'g) world_scheme, 'z) stmt list)
      [{chars ''C''}, {digits (consumer_id consumer)}, {chars (TAB @ ''NONE'' @ TAB @ TAB @ ''#NONE'' @ TAB @ ''@'')}, range digits,
       {chars (TAB @ ''timeout='')}, {digits 1200}, {[10]}]"
proof -
  let ?J = "holds_message message pad e sequence created :: (('b, 'g) world_scheme, 'z) app_scheme \<Rightarrow> bool"
  note put = emits_put[OF A, of ?J, simplified]
  have name: "(0 :: u8) \<notin> of_char ` set (event_name d)" for d by (cases d) (simp_all add: event_name_def)
  have n: "emits out ?J (\<lambda>a :: (('b, 'g) world_scheme, 'z) app_scheme. put_string A (event_name (msg_event message a)) a) {chars (event_name e)}"
    by (rule emits_state[where V = "{event_name e}"]) (use put(2)[OF name] in \<open>auto simp: holds_message_fields(1)\<close>)
  have i: "(if msg_event message a = DEMO_HEARTBEAT then ''HEARTBEAT'' else ''BUTTON'') = event_name (msg_event message a)"
    for a :: "(('b, 'g) world_scheme, 'z) app_scheme" by (cases "msg_event message a") (simp_all add: event_name_def)
  have tick: "emits out ?J (\<lambda>a :: (('b, 'g) world_scheme, 'z) app_scheme. put_uint A (artos_get_tick a) a) (range digits)"
  proof (rule emits_state[where V = UNIV and g = "put_uint A" and h = artos_get_tick])
    show "emits out ?J (put_uint A w :: (('b, 'g) world_scheme, 'z) stmt) (range digits)" for w using put(3)[of w] unfolding emits_def by blast
  qed simp
  have c: "(of_char NL :: u8) = 10" by (simp add: NL_def)
  note times = emits_times[OF A, of message pad e sequence created v]
  have "list_all2 (emits out ?J)
      [put_char A CHR ''C'', put_uint A (consumer_id consumer), put_char A CHR 0x09,
       (\<lambda>a :: (('b, 'g) world_scheme, 'z) app_scheme. put_string A (if msg_event message a = DEMO_HEARTBEAT then ''HEARTBEAT'' else ''BUTTON'') a),
       put_string A (TAB @ ''#'')]
      [{chars ''C''}, {digits (consumer_id consumer)}, {chars TAB}, {chars (event_name e)}, {chars (TAB @ ''#'')}]"
    unfolding i using n put(1)[of "CHR ''C''"] put(1)[of "CHR 0x09"] put(2)[of "TAB @ ''#''"] put(3)[of "consumer_id consumer"]
    by (simp add: TAB_def)
  then show "list_all2 (emits out ?J) (message_line A consumer message v :: (('b, 'g) world_scheme, 'z) stmt list)
      ([{chars ''C''}, {digits (consumer_id consumer)}, {chars TAB}, {chars (event_name e)}, {chars (TAB @ ''#'')}] @
       [{digits sequence}, {chars (TAB @ ''created=@'')}, {digits created}, {chars (TAB @ ''received=@'')}, {digits v}, {chars (TAB @ ''age='')},
        {digits (v - created)}, {[10]}])"
    unfolding message_line_def using times by (rule list_all2_appendI)
  show "list_all2 (emits out ?J) (button_line A message v :: (('b, 'g) world_scheme, 'z) stmt list)
      ({chars (''BUTTON-ONLY'' @ TAB @ ''BUTTON'' @ TAB @ ''#'')} #
       [{digits sequence}, {chars (TAB @ ''created=@'')}, {digits created}, {chars (TAB @ ''received=@'')}, {digits v}, {chars (TAB @ ''age='')},
        {digits (v - created)}, {[10]}])"
    unfolding button_line_def list_all2_Cons using times put(2)[of "''BUTTON-ONLY'' @ TAB @ ''BUTTON'' @ TAB @ ''#''"]
    by (intro conjI) (simp_all add: TAB_def)
  show "list_all2 (emits out ?J) (timeout_line A consumer :: (('b, 'g) world_scheme, 'z) stmt list)
      [{chars ''C''}, {digits (consumer_id consumer)}, {chars (TAB @ ''NONE'' @ TAB @ TAB @ ''#NONE'' @ TAB @ ''@'')}, range digits,
       {chars (TAB @ ''timeout='')}, {digits 1200}, {[10]}]"
    using put(1)[of "CHR ''C''"] put(1)[of NL] put(2)[of "TAB @ ''NONE'' @ TAB @ TAB @ ''#NONE'' @ TAB @ ''@''"] put(2)[of "TAB @ ''timeout=''"]
      put(3)[of "consumer_id consumer"] put(3)[of 1200] tick
    by (simp add: timeout_line_def TAB_def c CONSUMER_TIMEOUT_MS_def ARTOS_MS_TO_TICKS_def ARTOS_TICK_HZ_def)
qed


end
