(* ===== verification/Priority_Tasks.thy ===== *)
theory Priority_Tasks
  imports Printing
begin

text \<open>
  The tasks of the priority demo (demos/priority/main.c), among each other and the interrupts. Semaphore 0 is
  \<open>uart_lock\<close>. The two workers share \<open>work_sink\<close>; each has a structure of its own.
\<close>

section \<open>The tasks\<close>

record worker_argument =
  worker_name :: char
  reports :: u32

datatype worker_ref = Worker_A | Worker_B

record 'b priority_world = "'b world" +
  worker_a :: worker_argument
  worker_b :: worker_argument
  work_sink :: u32

fun worker_at :: "worker_ref \<Rightarrow> ('b, 'g) priority_world_scheme \<Rightarrow> worker_argument" where
  "worker_at Worker_A w = worker_a w"
| "worker_at Worker_B w = worker_b w"

fun set_worker :: "worker_ref \<Rightarrow> worker_argument \<Rightarrow> ('b, 'g) priority_world_scheme \<Rightarrow> ('b, 'g) priority_world_scheme" where
  "set_worker Worker_A x w = w\<lparr>worker_a := x\<rparr>"
| "set_worker Worker_B x w = w\<lparr>worker_b := x\<rparr>"

definition uart_lock_take :: "('w, 'z) stmt \<Rightarrow> ('w, 'z) stmt" where
  "uart_lock_take run = ignoring (artos_semaphore_take run (Some 0) ARTOS_DELAY_INFINITY)"

definition high_line :: "'b board_api \<Rightarrow> u32 \<Rightarrow> (('b, 'g) world_scheme, 'z) stmt list" where
  "high_line A sequence =
     [put_string A ''HIGH preempted low tasks at tick '',
      (\<lambda>a. put_uint A (artos_get_tick a) a),
      put_string A '', sequence '',
      put_uint A sequence,
      put_char A NL]"

definition high_round ::
    "'b board_api \<Rightarrow> (('b, 'g) world_scheme, 'z) stmt \<Rightarrow> u32 \<times> u32 \<Rightarrow> (('b, 'g) world_scheme, 'z) app_scheme \<Rightarrow>
     ((u32 \<times> u32) \<times> (('b, 'g) world_scheme, 'z) app_scheme, ('b, 'g) world_scheme, 'z) ares" where
  "high_round A run = (\<lambda>(release_tick, sequence) a.
     let release_tick = release_tick + ARTOS_MS_TO_TICKS 1000
     in res_bind (stmts run ([set_led A True, uart_lock_take run] @ high_line A (sequence + 1) @
          [ignoring (artos_semaphore_signal (Some 0)), artos_wait (ARTOS_MS_TO_TICKS 100), set_led A False,
           artos_wait_until release_tick]) a) (\<lambda>a.
        Ret ((release_tick, sequence + 1), a)))"

definition high_task where
  "high_task A run k a = rounds k (high_round A run) (artos_get_tick a, 0) a"

definition worker_line :: "'b board_api \<Rightarrow> worker_ref \<Rightarrow> (('b, 'g) priority_world_scheme, 'z) stmt list" where
  "worker_line A worker =
     [put_string A ''LOW '',
      (\<lambda>a. put_char A (worker_name (worker_at worker (world a))) a),
      put_string A '' ran, report '',
      (\<lambda>a. let x = worker_at worker (world a);
               x = x\<lparr>reports := reports x + 1\<rparr>
           in put_uint A (reports x) (a\<lparr>world := set_worker worker x (world a)\<rparr>)),
      put_char A NL]"

definition crunch :: "nat \<Rightarrow> u32 \<Rightarrow> u32" where
  "crunch n value = ((\<lambda>v. v * 1664525 + 1013904223) ^^ n) value"

definition worker_round ::
    "'b board_api \<Rightarrow> worker_ref \<Rightarrow> (('b, 'g) priority_world_scheme, 'z) stmt \<Rightarrow> u32 \<Rightarrow> (('b, 'g) priority_world_scheme, 'z) app_scheme \<Rightarrow>
     (u32 \<times> (('b, 'g) priority_world_scheme, 'z) app_scheme, ('b, 'g) priority_world_scheme, 'z) ares" where
  "worker_round A worker run passes a =
     (let v = work_sink (world a)
      in res_bind (run a) (\<lambda>a.
         res_bind (stmts run [\<lambda>a. Ret (a\<lparr>world := (world a)\<lparr>work_sink := crunch 2000 v\<rparr>\<rparr>)] a) (\<lambda>a.
         let passes = passes + 1
         in if passes = 100
            then res_bind (stmts run (uart_lock_take run # worker_line A worker @
                   [ignoring (artos_semaphore_signal (Some 0)), \<lambda>a. Ret (artos_yield a)]) a) (\<lambda>a. Ret (0, a))
            else res_bind (stmts run [\<lambda>a. Ret (artos_yield a)] a) (\<lambda>a. Ret (passes, a)))))"

definition worker_task where
  "worker_task A worker run k a = rounds k (worker_round A worker run) 0 a"

section \<open>No task ever fails\<close>

lemma priority_lines_allowed:
  "list_all (allowed clz t X Q buf) (high_line A n)" "list_all (allowed clz t X Q buf) (worker_line A worker)"
proof -
  have "allowed clz t X Q buf (\<lambda>a. put_uint A (h a) (a\<lparr>world := g a\<rparr>))" for h g
    by (auto simp: allowed_def intro!: board_pauses intro: world_pauses dest: working_paused)
  then show "list_all (allowed clz t X Q buf) (high_line A n)" "list_all (allowed clz t X Q buf) (worker_line A worker)"
    by (simp_all add: high_line_def worker_line_def Let_def allowed_rules)
qed

lemma high_round_works:
  assumes "clz_spec clz" "t \<noteq> IdleTask" "SemWaitL 0 \<in> X" "working clz t X Q buf a"
  shows "meets (high_round A (others clz t) l a) (\<lambda>(l', a). l' = (fst l + 1000, snd l + 1) \<and> working clz t X Q buf a)"
  unfolding high_round_def Let_def uart_lock_take_def case_prod_beta
  by (rule stmts_then[OF assms(1,2) _ assms(4)])
    (simp_all add: allowed_rules priority_lines_allowed assms(1-3) ARTOS_MS_TO_TICKS_def ARTOS_TICK_HZ_def)

lemma worker_round_works:
  fixes a :: "(('b, 'g) priority_world_scheme, 'z) app_scheme"
  assumes "clz_spec clz" "t \<noteq> IdleTask" "SemWaitL 0 \<in> X" "working clz t X Q buf a"
  shows "meets (worker_round A worker (others clz t) l a) (\<lambda>(l', a). l' = (if l + 1 = 100 then 0 else l + 1) \<and> working clz t X Q buf a)"
proof -
  have w: "meets (res_bind (stmts (others clz t) fs b) (\<lambda>a. Ret (v, a))) (\<lambda>(l', a). l' = v \<and> working clz t X Q buf a)"
    if "list_all (allowed clz t X Q buf) fs" "working clz t X Q buf b" for fs v and b :: "(('b, 'g) priority_world_scheme, 'z) app_scheme"
    by (rule stmts_then[OF assms(1,2) that]) simp
  show ?thesis unfolding worker_round_def Let_def uart_lock_take_def
    by (rule run_then[OF assms(1,2) working_paused[OF assms(4)]], rule stmts_then[OF assms(1,2)])
      (auto simp: allowed_rules priority_lines_allowed assms(1-3) simp del: stmts.simps intro!: meets_mono[OF w])
qed


section \<open>What is printed\<close>

definition high_text :: "u32 \<Rightarrow> u32 \<Rightarrow> u8 list" where
  "high_text tick sequence = chars ''HIGH preempted low tasks at tick '' @ digits tick @ chars '', sequence '' @ digits sequence @ [10]"

definition worker_text :: "char \<Rightarrow> u32 \<Rightarrow> u8 list" where
  "worker_text name report = chars ''LOW '' @ chars [name] @ chars '' ran, report '' @ digits report @ [10]"

lemma emits_high_line:
  fixes A :: "'b board_api"
  assumes A: "api_sends A out"
  shows "list_all2 (emits out (\<lambda>_. True)) (high_line A sequence :: (('b, 'g) world_scheme, 'z) stmt list)
    [{chars ''HIGH preempted low tasks at tick ''}, range digits, {chars '', sequence ''}, {digits sequence}, {[10]}]"
proof -
  let ?J = "(\<lambda>_. True) :: (('b, 'g) world_scheme, 'z) app_scheme \<Rightarrow> bool"
  have J: "off_board ?J" by (simp add: off_board_def)
  note put = emits_put[OF A J, simplified]
  have tick: "emits out ?J (\<lambda>a. put_uint A (artos_get_tick a) a) (range digits)"
  proof (rule emits_state[where V = UNIV and g = "put_uint A" and h = artos_get_tick])
    show "emits out ?J (put_uint A w) (range digits)" for w using put(3)[of w] unfolding emits_def by blast
  qed simp
  have c: "(of_char NL :: u8) = 10" by (simp add: NL_def)
  show ?thesis unfolding high_line_def
    using tick put(2)[of "''HIGH preempted low tasks at tick ''"] put(2)[of "'', sequence ''"] put(3)[of sequence] put(1)[of NL] by (simp add: c)
qed

lemma worker_at_set [simp]: "worker_at w (set_worker w x v) = x"
  by (cases w) simp_all

definition at_worker :: "worker_ref \<Rightarrow> worker_argument \<Rightarrow> (('b, 'g) priority_world_scheme, 'z) app_scheme \<Rightarrow> bool" where
  "at_worker worker x a \<longleftrightarrow> worker_at worker (world a) = x"

lemma at_worker_off_board [simp]: "off_board (at_worker worker x)"
  by (cases worker) (simp_all add: off_board_def at_worker_def)

lemma device_set_worker [simp]: "device (set_worker worker x v) = device v"
  by (cases worker) simp_all

lemma stmts_append: "stmts run (fs @ gs) = (\<lambda>a. res_bind (stmts run fs a) (stmts run gs))"
proof (induction fs)
  case (Cons f fs)
  show ?case
  proof
    show "stmts run ((f # fs) @ gs) a = res_bind (stmts run (f # fs) a) (stmts run gs)" for a by (simp add: Cons.IH)
  qed
qed simp

lemma worker_line_emits:
  fixes a :: "(('b, 'g) priority_world_scheme, 'z) app_scheme"
  assumes A: "api_sends A out" and x: "at_worker worker x a" and run: "\<And>x. leaves_line out (at_worker worker x) run"
  defines "x' \<equiv> x\<lparr>reports := reports x + 1\<rparr>"
  shows "stmts run (worker_line A worker) a = Ret a' \<longrightarrow>
      at_worker worker x' a' \<and> transcript out a' = transcript out a @ worker_text (worker_name x) (reports x + 1)"
    "(\<forall>b. \<exists>b'. run b = Ret b') \<longrightarrow> (\<exists>a'. stmts run (worker_line A worker) a = Ret a')"
proof -
  let ?J = "at_worker worker :: _ \<Rightarrow> (('b, 'g) priority_world_scheme, 'z) app_scheme \<Rightarrow> bool"
  let ?before = "[put_string A ''LOW '', (\<lambda>a. put_char A (worker_name (worker_at worker (world a))) a), put_string A '' ran, report '']
    :: (('b, 'g) priority_world_scheme, 'z) stmt list"
  let ?bump = "(\<lambda>a. let x = worker_at worker (world a); x = x\<lparr>reports := reports x + 1\<rparr>
      in put_uint A (reports x) (a\<lparr>world := set_worker worker x (world a)\<rparr>)) :: (('b, 'g) priority_world_scheme, 'z) stmt"
  note put = emits_put[OF A, of "?J y" for y, simplified]
  have c: "(of_char NL :: u8) = 10" by (simp add: NL_def)
  have name: "emits out (?J x) (\<lambda>a. put_char A (worker_name (worker_at worker (world a))) a) {chars [worker_name x]}"
    by (rule emits_state[where V = "{worker_name x}" and g = "put_char A"]) (use put(1) in \<open>auto simp: at_worker_def\<close>)
  have e1: "list_all2 (emits out (?J x)) ?before [{chars ''LOW ''}, {chars [worker_name x]}, {chars '' ran, report ''}]"
    using name put(2)[of "''LOW ''" x] put(2)[of "'' ran, report ''" x] by simp
  have e2: "list_all2 (emits out (?J x')) [put_char A NL] [{[10]}]" using put(1)[of x' NL] by (simp add: c)
  have bump: "\<exists>c. ?bump b = Ret c \<and> ?J x' c \<and> transcript out c = transcript out b @ digits (reports x + 1)" if "?J x b" for b
  proof -
    let ?b = "b\<lparr>world := set_worker worker x' (world b)\<rparr>"
    have "?J x' ?b" by (simp add: at_worker_def)
    then obtain c where "put_uint A (reports x') ?b = Ret c" "?J x' c" "transcript out c = transcript out ?b @ digits (reports x')"
      using put(3)[of x' "reports x'"] by (auto simp: emits_def)
    then show ?thesis using that by (simp add: at_worker_def x'_def transcript_def Let_def)
  qed
  have split: "stmts run (worker_line A worker) a = res_bind (stmts run ?before a) (\<lambda>b.
      res_bind (?bump b) (\<lambda>c. res_bind (run c) (stmts run [put_char A NL])))"
    unfolding worker_line_def using stmts_append[of run ?before "?bump # [put_char A NL]"] by simp
  note b = stmts_emit[OF e1 run x]
  note n = stmts_emit[OF e2 run]
  have keep: "?J x' d \<and> transcript out d = transcript out c" if "run c = Ret d" "?J x' c" for c d
    using run that by (auto simp: leaves_line_def)
  show "stmts run (worker_line A worker) a = Ret a' \<longrightarrow>
      at_worker worker x' a' \<and> transcript out a' = transcript out a @ worker_text (worker_name x) (reports x + 1)"
  proof
    assume "stmts run (worker_line A worker) a = Ret a'"
    then obtain b1 c d where 1: "stmts run ?before a = Ret b1" "?bump b1 = Ret c" "run c = Ret d" "stmts run [put_char A NL] d = Ret a'"
      unfolding split res_bind_eq_Ret by blast
    from b(1) 1(1) have b1: "?J x b1" "transcript out b1 = transcript out a @ chars ''LOW '' @ chars [worker_name x] @ chars '' ran, report ''"
      by (auto simp: list_all2_Cons2)
    from bump[OF b1(1)] 1(2) have c1: "?J x' c" "transcript out c = transcript out b1 @ digits (reports x + 1)" by auto
    from keep[OF 1(3) c1(1)] have d: "?J x' d" "transcript out d = transcript out c" by auto
    from n(1)[OF d(1)] 1(4) show "at_worker worker x' a' \<and> transcript out a' = transcript out a @ worker_text (worker_name x) (reports x + 1)"
      using b1(2) c1(2) d(2) by (auto simp: list_all2_Cons2 worker_text_def)
  qed
  show "(\<forall>b. \<exists>b'. run b = Ret b') \<longrightarrow> (\<exists>a'. stmts run (worker_line A worker) a = Ret a')"
  proof
    assume t: "\<forall>b. \<exists>b'. run b = Ret b'"
    then obtain b1 where 1: "stmts run ?before a = Ret b1" using b(2) by blast
    then have "?J x b1" using b(1) by blast
    from bump[OF this] obtain c where 2: "?bump b1 = Ret c" "?J x' c" by blast
    obtain d where 3: "run c = Ret d" using t by blast
    then have "?J x' d" using keep 2(2) by blast
    then obtain a' where "stmts run [put_char A NL] d = Ret a'" using n(2) t by blast
    then have "res_bind (?bump b1) (\<lambda>c. res_bind (run c) (stmts run [put_char A NL])) = Ret a'" unfolding 2(1) using 3 by simp
    then show "\<exists>a'. stmts run (worker_line A worker) a = Ret a'" unfolding split 1 by simp
  qed
qed

text \<open>
  The reports of the priority demo. If the others send nothing while a task prints under the lock, exactly one line appears: the
  high-priority task reports the tick and its number, a worker its name and a number that is one more than that of its last report. Printing
  ends whenever the others give the processor back.
\<close>

theorem priority_prints_lines:
  assumes "api_sends A out" "\<And>x. leaves_line out (at_worker worker x) run"
  shows "(stmts run (high_line A sequence) a = Ret a' \<longrightarrow> (\<exists>tick. transcript out a' = transcript out a @ high_text tick sequence)) \<and>
    (stmts run (worker_line A worker) a = Ret a' \<longrightarrow>
       (let x = worker_at worker (world a) in
          worker_at worker (world a') = x\<lparr>reports := reports x + 1\<rparr> \<and>
          transcript out a' = transcript out a @ worker_text (worker_name x) (reports x + 1))) \<and>
    ((\<forall>b. \<exists>b'. run b = Ret b') \<longrightarrow>
       (\<exists>a'. stmts run (high_line A sequence) a = Ret a') \<and> (\<exists>a'. stmts run (worker_line A worker) a = Ret a'))"
proof -
  have run: "leaves_line out (\<lambda>_. True) run" unfolding leaves_line_def
  proof (intro allI impI)
    fix b b' assume "True \<and> run b = Ret b'"
    then show "True \<and> transcript out b' = transcript out b"
      using assms(2)[of "worker_at worker (world b)"] unfolding leaves_line_def at_worker_def by blast
  qed
  note h = stmts_emit[OF emits_high_line[OF assms(1), of sequence] run TrueI]
  have x: "at_worker worker (worker_at worker (world a)) a" by (simp add: at_worker_def)
  note w = worker_line_emits[OF assms(1) x assms(2)]
  have 1: "stmts run (high_line A sequence) a = Ret a' \<longrightarrow> (\<exists>tick. transcript out a' = transcript out a @ high_text tick sequence)"
    using h(1)[of a a'] by (auto simp: list_all2_Cons2 high_text_def)
  have 2: "stmts run (worker_line A worker) a = Ret a' \<longrightarrow> (let x = worker_at worker (world a) in
      worker_at worker (world a') = x\<lparr>reports := reports x + 1\<rparr> \<and> transcript out a' = transcript out a @ worker_text (worker_name x) (reports x + 1))"
    using w(1)[of a'] unfolding at_worker_def Let_def .
  show ?thesis
  proof (intro conjI impI)
    assume "\<forall>b. \<exists>b'. run b = Ret b'"
    then show "\<exists>a'. stmts run (high_line A sequence) a = Ret a'" "\<exists>a'. stmts run (worker_line A worker) a = Ret a'"
      using h(2)[of a] w(2) by - (erule mp, assumption)+
  qed (rule 1[rule_format] 2[rule_format], assumption)+
qed

end
