(* ===== verification/Mutex_Tasks.thy ===== *)
theory Mutex_Tasks
  imports Printing
begin

text \<open>
  The tasks of the mutex demo (demos/mutex/main.c), among each other and the interrupts. Mutex 0 is \<open>mutex\<close>;
  \<open>info\<close> is what the uninitialised local variable of that name holds.
\<close>

section \<open>The tasks\<close>

definition LOW_TASK_INDEX :: u32 where "LOW_TASK_INDEX = 0"

definition blink_with_delay :: "'b board_api \<Rightarrow> (('b, 'g) world_scheme, 'z) stmt \<Rightarrow> u32 \<Rightarrow> u32 \<Rightarrow> (('b, 'g) world_scheme, 'z) stmt" where
  "blink_with_delay A run duration_ms interval_ms a =
     (let start_tick = artos_get_tick a
      in res_bind (while_do (\<lambda>(led_enabled, a). artos_get_tick a - start_tick < ARTOS_MS_TO_TICKS duration_ms)
           (\<lambda>(led_enabled, a).
              let led_enabled = \<not> led_enabled
              in res_bind (stmts run [set_led A led_enabled, artos_wait (ARTOS_MS_TO_TICKS interval_ms)] a) (\<lambda>a.
                 Ret (led_enabled, a)))
           (False, a)) (\<lambda>(_, a).
         stmts run [set_led A False] a))"

definition high_priority_busy_blink :: "'b board_api \<Rightarrow> (('b, 'g) world_scheme, 'z) stmt \<Rightarrow> (('b, 'g) world_scheme, 'z) stmt" where
  "high_priority_busy_blink A run a =
     (let start_tick = artos_get_tick a;
          next_toggle = start_tick + ARTOS_MS_TO_TICKS 500
      in res_bind (while_do (\<lambda>((led_enabled, next_toggle), a). artos_get_tick a - start_tick < ARTOS_MS_TO_TICKS 3000)
           (\<lambda>((led_enabled, next_toggle), a). res_bind (run a) (\<lambda>a.
              if artos_get_tick a \<ge> next_toggle then
                let led_enabled = \<not> led_enabled
                in res_bind (stmts run [set_led A led_enabled] a) (\<lambda>a. Ret ((led_enabled, next_toggle + ARTOS_MS_TO_TICKS 500), a))
              else res_bind (run a) (\<lambda>a. Ret ((led_enabled, next_toggle), a))))
           ((False, next_toggle), a)) (\<lambda>(_, a).
         stmts run [set_led A False] a))"

text \<open>The endless loop at the end of both tasks, \<open>k\<close> times.\<close>

definition sleep_forever :: "nat \<Rightarrow> ('w, 'z) stmt \<Rightarrow> ('w, 'z) stmt" where
  "sleep_forever k run a =
     res_bind (rounds k (\<lambda>_ a. res_bind (stmts run [artos_wait ARTOS_DELAY_INFINITY] a) (\<lambda>a. Ret ((), a))) () a) (\<lambda>(_, a). Ret a)"

definition inheritance_line :: "'b board_api \<Rightarrow> artos_task_info \<Rightarrow> (('b, 'g) world_scheme, 'z) stmt list" where
  "inheritance_line A info =
     [put_string A ''LOW while HIGH waits: base='',
      put_uint A (ucast (info_base_priority info)),
      put_string A '', effective='',
      put_uint A (ucast (info_effective_priority info)),
      put_char A NL]"

definition low_turn ::
    "'b board_api \<Rightarrow> artos_task_info \<Rightarrow> (('b, 'g) world_scheme, 'z) stmt \<Rightarrow> u32 \<Rightarrow> (bool \<times> bool) \<times> (('b, 'g) world_scheme, 'z) app_scheme \<Rightarrow>
     ((bool \<times> bool) \<times> (('b, 'g) world_scheme, 'z) app_scheme, ('b, 'g) world_scheme, 'z) ares" where
  "low_turn A info run start_tick = (\<lambda>((inheritance_reported, led_enabled), a).
     let led_enabled = \<not> led_enabled
     in res_bind (stmts run [set_led A led_enabled, artos_wait (ARTOS_MS_TO_TICKS 100)] a) (\<lambda>a.
        if \<not> inheritance_reported \<and> artos_get_tick a - start_tick \<ge> ARTOS_MS_TO_TICKS 1500 then
          let (found, info, a) = artos_task_get_info LOW_TASK_INDEX (Some info) a
          in res_bind (run a) (\<lambda>a.
             res_bind (if found then stmts run (inheritance_line A (the info)) a else Ret a) (\<lambda>a.
             Ret ((True, led_enabled), a)))
        else Ret ((inheritance_reported, led_enabled), a)))"

definition low_task :: "'b board_api \<Rightarrow> artos_task_info \<Rightarrow> (('b, 'g) world_scheme, 'z) stmt \<Rightarrow> nat \<Rightarrow> (('b, 'g) world_scheme, 'z) stmt" where
  "low_task A info run k a =
     res_bind (artos_mutex_lock run (Some 0) ARTOS_DELAY_INFINITY a) (\<lambda>(locked, a).
     if \<not> locked then Loops else
     res_bind (run a) (\<lambda>a.
     res_bind (stmts run [put_string A (''LOW acquired mutex and will fast-blink for five seconds'' @ [NL])] a) (\<lambda>a.
     let start_tick = artos_get_tick a
     in res_bind (while_do (\<lambda>(_, a). artos_get_tick a - start_tick < ARTOS_MS_TO_TICKS 5000) (low_turn A info run start_tick)
          ((False, False), a)) (\<lambda>(_, a).
        res_bind (stmts run
          [set_led A False,
           put_string A (''LOW releasing mutex; inherited priority restored'' @ [NL]),
           ignoring (artos_mutex_unlock (Some 0))] a)
        (sleep_forever k run)))))"

definition high_task :: "'b board_api \<Rightarrow> (('b, 'g) world_scheme, 'z) stmt \<Rightarrow> nat \<Rightarrow> (('b, 'g) world_scheme, 'z) stmt" where
  "high_task A run k a =
     res_bind (stmts run [put_string A (''HIGH slow-blinking for three seconds'' @ [NL])] a) (\<lambda>a.
     res_bind (high_priority_busy_blink A run a) (\<lambda>a.
     res_bind (stmts run
       [put_string A (''HIGH sleeping so LOW can acquire the mutex'' @ [NL]),
        artos_wait (ARTOS_MS_TO_TICKS 1000),
        put_string A (''HIGH waiting for mutex at priority 1'' @ [NL])] a) (\<lambda>a.
     res_bind (artos_mutex_lock run (Some 0) ARTOS_DELAY_INFINITY a) (\<lambda>(locked, a).
     if \<not> locked then Loops else
     res_bind (run a) (\<lambda>a.
     res_bind (stmts run
       [put_string A (''HIGH received mutex directly from LOW'' @ [NL]),
        put_string A (''HIGH slow-blinking for three seconds with mutex'' @ [NL])] a) (\<lambda>a.
     res_bind (blink_with_delay A run 3000 500 a) (\<lambda>a.
     res_bind (stmts run
       [ignoring (artos_mutex_unlock (Some 0)),
        put_string A (''Mutex demo complete'' @ [NL])] a)
     (sleep_forever k run))))))))"

section \<open>No task ever fails\<close>

lemma task_get_info_state_same: "snd (snd (artos_task_get_info i buf s)) = s"
  by (auto simp: artos_task_get_info_def rtos_port_enter_critical_def rtos_port_exit_critical_def Let_def)

lemma sleeps_works:
  assumes "clz_spec clz" "t \<noteq> IdleTask" "working clz t X Q buf a"
  shows "meets (sleep_forever k (others clz t) a) (working clz t X Q buf)"
  unfolding sleep_forever_def
proof (rule meets_call[where P = "\<lambda>_. working clz t X Q buf"])
  show "meets (rounds k (\<lambda>_ a. res_bind (stmts (others clz t) [artos_wait ARTOS_DELAY_INFINITY] a) (\<lambda>a. Ret ((), a))) () a)
      (\<lambda>(_, a). working clz t X Q buf a)"
    by (rule meets_rounds[where W = "working clz t X Q buf", OF _ assms(3)], rule stmts_then[OF assms(1,2)]) (simp_all add: allowed_rules assms(1))
qed simp

lemma blink_works:
  fixes a :: "(('b, 'g) world_scheme, 'z) app_scheme"
  assumes "clz_spec clz" "t \<noteq> IdleTask" "working clz t X Q buf a"
  shows "meets (blink_with_delay A (others clz t) d i a) (working clz t X Q buf)"
    "meets (high_priority_busy_blink A (others clz t) a) (working clz t X Q buf)"
proof -
  let ?W = "\<lambda>(l, b). working clz t X Q buf b" and ?run = "others clz t"
  note st = stmts_then[OF assms(1,2)] and rn = run_then[OF assms(1,2) working_paused]
  have off: "meets (stmts ?run [set_led A False] b) (working clz t X Q buf)" if "working clz t X Q buf b"
    for b :: "(('b, 'g) world_scheme, 'z) app_scheme"
    by (rule stmts_allowed[OF assms(1,2) _ that]) (simp add: allowed_rules)
  show "meets (blink_with_delay A ?run d i a) (working clz t X Q buf)" unfolding blink_with_delay_def Let_def
    by (rule meets_bind[OF meets_while[where W = ?W]])
      (use assms(3) off in \<open>auto simp: allowed_rules assms(1) simp del: stmts.simps intro!: st\<close>)
  show "meets (high_priority_busy_blink A ?run a) (working clz t X Q buf)" unfolding high_priority_busy_blink_def Let_def
    by (rule meets_bind[OF meets_while[where W = ?W]])
      (use assms(3) off in \<open>auto simp: allowed_rules assms(1) simp del: stmts.simps intro!: st rn\<close>)
qed

lemma low_turn_works:
  fixes x :: "(bool \<times> bool) \<times> (('b, 'g) world_scheme, 'z) app_scheme"
  assumes "clz_spec clz" "t \<noteq> IdleTask" "working clz t X Q buf (snd x)"
  shows "meets (low_turn A info (others clz t) start x) (\<lambda>(_, b). working clz t X Q buf b)"
proof -
  obtain reported led a where x: "x = ((reported, led), a)" by (metis surj_pair)
  have line: "meets (if found then stmts (others clz t) (inheritance_line A i) b else Ret b) (working clz t X Q buf)"
    if "working clz t X Q buf b" for found i and b :: "(('b, 'g) world_scheme, 'z) app_scheme"
    using stmts_allowed[OF assms(1,2) _ that, of "inheritance_line A i"] that by (simp add: inheritance_line_def allowed_rules)
  have info: "meets (let (found, info, b) = artos_task_get_info LOW_TASK_INDEX (Some info) b
          in res_bind (others clz t b) (\<lambda>a.
             res_bind (if found then stmts (others clz t) (inheritance_line A (the info)) a else Ret a) (\<lambda>a.
             Ret ((True, l), a)))) (\<lambda>(_, b). working clz t X Q buf b)"
    if "working clz t X Q buf b" for l and b :: "(('b, 'g) world_scheme, 'z) app_scheme"
    unfolding case_prod_beta Let_def task_get_info_state_same
    by (intro run_then[OF assms(1,2) working_paused[OF that]] meets_bind[OF line]) simp_all
  show ?thesis unfolding low_turn_def x prod.case Let_def
    by (rule stmts_then[OF assms(1,2)])
      (use assms(3) info in \<open>auto simp: x allowed_rules assms(1) Let_def simp del: stmts.simps\<close>)
qed

lemma lock_then:
  assumes "clz_spec clz" "t \<noteq> IdleTask" "MutexLockL n \<in> X" "working clz t X Q buf a"
    and "\<And>a. working clz t X Q buf a \<Longrightarrow> meets (g a) R"
  shows "meets (res_bind (artos_mutex_lock (others clz t) (Some n) timeout a) (\<lambda>(locked, a).
    if \<not> locked then Loops else res_bind (others clz t a) g)) R"
  by (rule meets_call[OF lock_pauses[OF assms(1,2,4,3)]]) (simp add: run_then[OF assms(1,2) _ assms(5)])


end
