(* ===== verification/Samples_Board.thy ===== *)
theory Samples_Board
  imports Boards
begin

unbundle bit_operations_syntax

text \<open>
  Concrete peripherals for the hypotheses of the boards' properties: status registers that always show ready, a serial line
  that records what is sent, and storage for everything else.
\<close>

definition sim_dev :: "('r \<Rightarrow> u32 option) \<Rightarrow> 'r \<Rightarrow> ('r, ('r \<Rightarrow> u32) \<times> u8 list) mmio" where
  "sim_dev status line =
     \<lparr>rd = (\<lambda>r d. (case status r of Some x \<Rightarrow> x | None \<Rightarrow> fst d r, d)),
      wr = (\<lambda>r x d. if r = line then (fst d, snd d @ [ucast x]) else ((fst d)(r := x), snd d)),
      NVIC_ClearPendingIRQ = (\<lambda>_ d. d), NVIC_SetPriority = (\<lambda>_ _ d. d), NVIC_EnableIRQ = (\<lambda>_ d. d)\<rparr>"

definition sim_board :: "(('r \<Rightarrow> u32) \<times> u8 list) board" where
  "sim_board = \<lparr>button_callback = 0, SystemCoreClock = 4000000, dev = (\<lambda>_. 0, [])\<rparr>"

lemma sim_becomes: "status r = Some x \<Longrightarrow> ready x \<Longrightarrow> becomes (sim_dev status line) r ready d"
  unfolding becomes_def by (rule exI[of _ 0]) (simp add: sim_dev_def)

lemma sim_transmitter: "status r = Some x \<Longrightarrow> x AND txe \<noteq> 0 \<Longrightarrow> transmitter (sim_dev status line) r line txe snd"
  using sim_becomes[of status r x "\<lambda>x. x AND txe \<noteq> 0" line] by (simp add: transmitter_def) (simp add: sim_dev_def)

lemma sim_storage: "line \<notin> R \<Longrightarrow> \<forall>r \<in> R. status r = None \<Longrightarrow> plain_storage (sim_dev status line) R fst"
  by (auto simp: plain_storage_def sim_dev_def)

definition f446_masks :: f446_header where
  "f446_masks = \<lparr>RCC_AHB1ENR_GPIOAEN = 1, RCC_AHB1ENR_GPIOCEN = 4, RCC_APB1ENR_USART2EN = 0x20000, RCC_APB2ENR_SYSCFGEN = 0x4000,
     USART_CR1_TE = 8, USART_CR1_UE = 0x2000, USART_SR_TXE = 0x80, EXTI15_10_IRQn = 40\<rparr>"

definition l4s5_masks :: l4s5_header where
  "l4s5_masks = \<lparr>RCC_CR_HSION = 0x100, RCC_CR_HSIRDY = 0x400, RCC_CFGR_HPRE = 0xF0, RCC_CFGR_PPRE1 = 0x700, RCC_CFGR_PPRE2 = 0x3800,
     RCC_CFGR_SW = 3, RCC_CFGR_SW_HSI = 1, RCC_CFGR_SWS = 0xC, RCC_CFGR_SWS_HSI = 4, RCC_AHB2ENR_GPIOAEN = 1,
     RCC_AHB2ENR_GPIOBEN = 2, RCC_AHB2ENR_GPIOCEN = 4, RCC_APB2ENR_USART1EN = 0x4000, RCC_APB2ENR_SYSCFGEN = 1,
     USART_CR1_TE = 8, USART_CR1_UE = 1, USART_ISR_TXE_TXFNF = 0x80, EXTI15_10_IRQn = 40\<rparr>"

definition f446_dev :: "(f446_reg, (f446_reg \<Rightarrow> u32) \<times> u8 list) mmio" where
  "f446_dev = sim_dev [f446_reg.USART2_SR \<mapsto> 0x80] f446_reg.USART2_DR"

definition l4s5_dev :: "(l4s5_reg, (l4s5_reg \<Rightarrow> u32) \<times> u8 list) mmio" where
  "l4s5_dev = sim_dev [l4s5_reg.USART1_ISR \<mapsto> 0x80, l4s5_reg.RCC_CR \<mapsto> 0x400, l4s5_reg.RCC_CFGR \<mapsto> 4] l4s5_reg.USART1_TDR"

lemma f446_dev_ok: "plain_storage f446_dev Board_F446.config_regs fst"
  "transmitter f446_dev f446_reg.USART2_SR f446_reg.USART2_DR (USART_SR_TXE f446_masks) snd"
  unfolding f446_dev_def
  by ((rule sim_storage; simp add: Board_F446.config_regs_def)+)
     (rule sim_transmitter[of _ _ "0x80"]; simp add: f446_masks_def)

lemma l4s5_dev_ok: "plain_storage l4s5_dev Board_L4S5.config_regs fst"
  "transmitter l4s5_dev l4s5_reg.USART1_ISR l4s5_reg.USART1_TDR (USART_ISR_TXE_TXFNF l4s5_masks) snd"
  "oscillator l4s5_masks l4s5_dev"
proof -
  show "plain_storage l4s5_dev Board_L4S5.config_regs fst"
    unfolding l4s5_dev_def by (rule sim_storage; simp add: Board_L4S5.config_regs_def)
  show "transmitter l4s5_dev l4s5_reg.USART1_ISR l4s5_reg.USART1_TDR (USART_ISR_TXE_TXFNF l4s5_masks) snd"
    unfolding l4s5_dev_def by (rule sim_transmitter[of _ _ "0x80"]; simp add: l4s5_masks_def)
  show "oscillator l4s5_masks l4s5_dev"
    unfolding oscillator_def l4s5_dev_def
    by (intro allI conjI sim_becomes[of _ l4s5_reg.RCC_CR "0x400"] sim_becomes[of _ l4s5_reg.RCC_CFGR 4]) (simp_all add: l4s5_masks_def)
qed

theorem boards_print_decimal_witness:
  "\<exists>b1 cs. Board_F446.board_uart_write_uint f446_masks f446_dev (replicate 10 0) 1024 sim_board = Some b1 \<and>
     snd (dev b1) = cs \<and> prints 1024 cs"
  using boards_print_decimal[OF f446_dev_ok(2) l4s5_dev_ok(2), of "replicate 10 0" 1024 sim_board sim_board]
  by (auto simp: sim_board_def)

theorem f446_init_configures_witness:
  "field 2 (fst (dev (Board_F446.board_init f446_masks f446_dev sim_board)) f446_reg.GPIOA_MODER) 5 = 1"
  using f446_init_configures[OF f446_dev_ok(1), of f446_masks sim_board] by (simp add: Let_def)



end
