(* ===== verification/Samples.thy ===== *)
theory Samples
  imports Kernel_API Tasks_Prio Context_Switch
begin

unbundle bit_operations_syntax

text \<open>
  A concrete run of the scheduler, from start-up over two task creations to a running and
  then a delayed task. It shows that the hypotheses of the scheduler's properties can hold together.
\<close>

section \<open>The run\<close>

definition ret_state :: "('a \<times> 's, 's) res \<Rightarrow> 's" where
  "ret_state r = (case r of Ret (_, s) \<Rightarrow> s | Halt _ s \<Rightarrow> s | Loops \<Rightarrow> undefined)"

definition reset_state :: "'z \<Rightarrow> 'z kernel_scheme" where
  "reset_state z = \<lparr>primask = 0, pendsv = False, scb_shpr3 = 0, scb_cpacr = 0, scb_cfsr = 0, scb_hfsr = 0,
     scb_mmfar = 0, scb_bfar = 0, fpu_fpccr = 0, systick_load = 0, systick_val = 0, systick_ctrl = 0, psp = 0,
     fault_info = \<lparr>fault_r0 = 0, fault_r1 = 0, fault_r2 = 0, fault_r3 = 0, fault_r12 = 0, fault_lr = 0, fault_pc = 0,
       fault_xpsr = 0, fault_exc_return = 0, fault_cfsr = 0, fault_hfsr = 0, fault_mmfar = 0, fault_bfar = 0\<rparr>,
     stack_mem = (\<lambda>_. 0), task_return_trap_addr = 0x08000400, idle_task_addr = 0x08000500,
     lists = zero_list_mem, tcbs = (\<lambda>_. zero_tcb), tsk_cnt = 0, cur_task = None, ticks = 0,
     ready_bitmap = 0, cur_delayed = DelayedL, next_delayed = DelayedOverflowL, idle_task_stack_addr = 0x20000100, \<dots> = z\<rparr>"

text \<open>After \<open>artos_init\<close>; then two tasks, of priority 0 and 1; then the scheduler has started.\<close>

definition run0 :: "'z \<Rightarrow> 'z kernel_scheme" where "run0 z = rtos_system_init (reset_state z)"
definition run1 :: "'z \<Rightarrow> 'z kernel_scheme" where "run1 z = ret_state (artos_task_create 0x08000601 7 0x20001000 64 0 (run0 z))"
definition run2 :: "'z \<Rightarrow> 'z kernel_scheme" where "run2 z = ret_state (artos_task_create 0x08000701 9 0x20002000 64 1 (run1 z))"
definition run3 :: "'z \<Rightarrow> 'z kernel_scheme" where "run3 z = ret_state (rtos_scheduler_start clz_count (run2 z))"

definition view1 :: list_view where "view1 = append_to (ReadyL 0) (StateItem (Pool 0)) boot_view"
definition view2 :: list_view where "view2 = append_to (ReadyL 1) (StateItem (Pool 1)) view1"
definition view3 :: list_view where "view3 = view2(ReadyL 1 \<mapsto> [])"

lemma reset_pool_bounded: "pool_bounded (reset_state z)"
  by (simp add: pool_bounded_def unlisted_def reset_state_def zero_list_mem_def zero_item_def)

lemma run0_inv: "kinv (run0 z) boot_view" "tick_ok (run0 z) boot_view" "tsk_cnt (run0 z) = 0" "cur_task (run0 z) = None" "ticks (run0 z) = 0"
  using system_init_kinv[OF reset_pool_bounded[of z]] by (auto simp: run0_def)

lemma run1_inv: "kinv (run1 z) view1" "tick_ok (run1 z) view1" "tsk_cnt (run1 z) = 1" "cur_task (run1 z) = None" "ticks (run1 z) = 0"
    "tcbs (run1 z) (Pool 0) = fresh_tcb 0x08000601 7 0x20001000 64 0"
    "artos_task_create 0x08000601 7 0x20001000 64 0 (run0 z) = Ret (ARTOS_OK, run1 z)"
proof -
  obtain s' where "artos_task_create 0x08000601 7 0x20001000 64 0 (run0 z) = Ret (ARTOS_OK, s')" "kinv s' view1" "tick_ok s' view1"
    "tsk_cnt s' = 1" "cur_task s' = None" "ticks s' = 0" "tcbs s' (Pool 0) = fresh_tcb 0x08000601 7 0x20001000 64 0"
    using task_create_ok[OF run0_inv(1)[of z] run0_inv(2)[of z], where entry = "0x08000601" and argument = 7 and stack = "0x20001000" and words = 64 and prio = 0] run0_inv(3-)[of z]
    by (auto simp: ARTOS_MAX_TASKS_def ARTOS_PRIORITY_COUNT_def ARTOS_MIN_STACK_WORDS_def view1_def)
  then show "kinv (run1 z) view1" "tick_ok (run1 z) view1" "tsk_cnt (run1 z) = 1" "cur_task (run1 z) = None" "ticks (run1 z) = 0"
    "tcbs (run1 z) (Pool 0) = fresh_tcb 0x08000601 7 0x20001000 64 0"
    "artos_task_create 0x08000601 7 0x20001000 64 0 (run0 z) = Ret (ARTOS_OK, run1 z)"
    by (simp_all add: run1_def ret_state_def)
qed

lemma run2_inv: "kinv (run2 z) view2" "tick_ok (run2 z) view2" "tsk_cnt (run2 z) = 2" "cur_task (run2 z) = None" "ticks (run2 z) = 0"
    "tcbs (run2 z) (Pool 0) = fresh_tcb 0x08000601 7 0x20001000 64 0" "tcbs (run2 z) (Pool 1) = fresh_tcb 0x08000701 9 0x20002000 64 1"
    "stack_mem (run2 z) = stack_mem (rtos_init_tcb (Pool 1) 0x08000701 9 0x20002000 64 1 ((run1 z)\<lparr>primask := 1\<rparr>))"
    "artos_task_create 0x08000701 9 0x20002000 64 1 (run1 z) = Ret (ARTOS_OK, run2 z)"
proof -
  obtain s' where "artos_task_create 0x08000701 9 0x20002000 64 1 (run1 z) = Ret (ARTOS_OK, s')" "kinv s' view2" "tick_ok s' view2"
    "tsk_cnt s' = 2" "cur_task s' = None" "ticks s' = 0" "tcbs s' (Pool 0) = tcbs (run1 z) (Pool 0)"
    "tcbs s' (Pool 1) = fresh_tcb 0x08000701 9 0x20002000 64 1"
    "stack_mem s' = stack_mem (rtos_init_tcb (Pool 1) 0x08000701 9 0x20002000 64 1 ((run1 z)\<lparr>primask := 1\<rparr>))"
    using task_create_ok[OF run1_inv(1)[of z] run1_inv(2)[of z], where entry = "0x08000701" and argument = 9 and stack = "0x20002000" and words = 64 and prio = 1] run1_inv(3-)[of z]
    by (auto simp: ARTOS_MAX_TASKS_def ARTOS_PRIORITY_COUNT_def ARTOS_MIN_STACK_WORDS_def view2_def)
  then show "kinv (run2 z) view2" "tick_ok (run2 z) view2" "tsk_cnt (run2 z) = 2" "cur_task (run2 z) = None" "ticks (run2 z) = 0"
    "tcbs (run2 z) (Pool 0) = fresh_tcb 0x08000601 7 0x20001000 64 0" "tcbs (run2 z) (Pool 1) = fresh_tcb 0x08000701 9 0x20002000 64 1"
    "stack_mem (run2 z) = stack_mem (rtos_init_tcb (Pool 1) 0x08000701 9 0x20002000 64 1 ((run1 z)\<lparr>primask := 1\<rparr>))"
    "artos_task_create 0x08000701 9 0x20002000 64 1 (run1 z) = Ret (ARTOS_OK, run2 z)"
    using run1_inv(6)[of z] by (simp_all add: run2_def ret_state_def)
qed

lemma view2_ready [simp]: "view2 (ReadyL 0) = Some [StateItem (Pool 0)]" "view2 (ReadyL (Suc 0)) = Some [StateItem (Pool 1)]"
  "p > 1 \<Longrightarrow> view2 (ReadyL p) = None"
  by (simp_all add: view2_def view1_def append_to_def boot_view_def ARTOS_PRIORITY_COUNT_def)

lemma view2_busy: "\<not> none_ready view2"
proof -
  have "view2 (ReadyL 0) \<notin> {None, Some []}" by simp
  then show ?thesis unfolding none_ready_def by blast
qed

lemma scheduled_view2: assumes "scheduled view2 n C'" shows "n = Pool 1 \<and> C' = view3"
proof -
  obtain p xs where p: "view2 (ReadyL p) = Some (StateItem n # xs)" "\<forall>q > p. view2 (ReadyL q) \<in> {None, Some []}"
      "C' = view2(ReadyL p \<mapsto> xs)"
    using assms view2_busy by (auto simp: scheduled_def highest_ready_def)
  have "p \<noteq> 0" using p(2)[rule_format, of 1] by auto
  moreover have "\<not> p > 1" using p(1) view2_ready(3)[of p] by auto
  ultimately have "p = 1" by simp
  then show ?thesis using p(1,3) by (simp add: view3_def)
qed

lemma run3_inv: "kinv (run3 z) view3" "tick_ok (run3 z) view3" "cur_task (run3 z) = Some (Pool 1)" "ticks (run3 z) = 0" "tcbs (run3 z) = tcbs (run2 z)"
    "tsk_cnt (run3 z) = 2" "cont (lists (run3 z)) (StateItem (Pool 1)) = None" "stack_mem (run3 z) = stack_mem (run2 z)"
    "rtos_scheduler_start clz_count (run2 z) = Ret (Some (Pool 1), run3 z)"
proof -
  obtain n s' C' where "rtos_scheduler_start clz_count (run2 z) = Ret (Some n, s')" "kinv s' C'" "tick_ok s' C'"
      "cur_task s' = Some n" "cont (lists s') (StateItem n) = None" "tcbs s' = tcbs (run2 z)" "ticks s' = ticks (run2 z)"
      "tsk_cnt s' = tsk_cnt (run2 z)" "scheduled view2 n C'" "stack_mem s' = stack_mem (run2 z)"
    using scheduler_start_runs[OF run2_inv(1)[of z] run2_inv(2)[of z] clz_count_spec run2_inv(4)[of z] view2_busy] by blast
  moreover from this(9) have "n = Pool 1" "C' = view3" using scheduled_view2 by auto
  ultimately show "kinv (run3 z) view3" "tick_ok (run3 z) view3" "cur_task (run3 z) = Some (Pool 1)" "ticks (run3 z) = 0" "tcbs (run3 z) = tcbs (run2 z)"
    "tsk_cnt (run3 z) = 2" "cont (lists (run3 z)) (StateItem (Pool 1)) = None" "stack_mem (run3 z) = stack_mem (run2 z)"
    "rtos_scheduler_start clz_count (run2 z) = Ret (Some (Pool 1), run3 z)"
    using run2_inv(3)[of z] run2_inv(5)[of z] by (simp_all add: run3_def ret_state_def)
qed

lemma run3_user: "user_task (run3 z) (Pool 0)" "user_task (run3 z) (Pool 1)"
  using run3_inv(6)[of z] by (simp_all add: user_task_def)

lemma run3_stack_valid:
  "artos_task_stack_valid (tcbs (run3 z) (Pool 1)) (stack_pointer (tcbs (run3 z) (Pool 1))) (run3 z)"
proof -
  let ?s = "rtos_init_tcb (Pool 1) 0x08000701 9 0x20002000 64 1 ((run1 z)\<lparr>primask := 1\<rparr>)"
  have "artos_task_stack_valid (tcbs ?s (Pool 1)) (stack_pointer (tcbs ?s (Pool 1))) ?s"
    by (rule init_tcb_stack[THEN conjunct1]) simp_all
  moreover have "tcbs ?s (Pool 1) = tcbs (run3 z) (Pool 1)"
    using init_tcb_eq[of "Pool 1" "0x08000701" 9 "0x20002000" 64 1 "(run1 z)\<lparr>primask := 1\<rparr>"] run2_inv(7)[of z] run3_inv(5)[of z] by auto
  moreover have "stack_mem ?s = stack_mem (run3 z)" using run2_inv(8)[of z] run3_inv(8)[of z] by simp
  ultimately show ?thesis by (simp add: artos_task_stack_valid_def)
qed

text \<open>The running task delays itself for one tick.\<close>

definition run4 :: "'z \<Rightarrow> 'z kernel_scheme" where
  "run4 z = (case rtos_block_current_task 1 None False (run3 z) of Ret s \<Rightarrow> s | Halt _ s \<Rightarrow> s | Loops \<Rightarrow> undefined)"

lemma run4_inv: "\<exists>C. kinv (run4 z) C \<and> tick_ok (run4 z) C" "due (run4 z) (Pool 1)" "cur_task (run4 z) = Some (Pool 1)" "user_task (run4 z) (Pool 1)"
proof -
  have w: "waitable None view3" by (simp add: waitable_def)
  obtain m C' where b: "rtos_block_current_task 1 None False (run3 z) = Ret ((run3 z)\<lparr>lists := m\<rparr>)"
      "blocks_to (Pool 1) 1 None False (run3 z) view3 m C'"
    using block_runs[OF run3_inv(1)[of z] run3_inv(3)[of z] run3_user(2)[of z] run3_inv(7)[of z] w] by blast
  have r: "(run4 z) = (run3 z)\<lparr>lists := m\<rparr>" using b(1) by (simp add: run4_def)
  have "kinv (run4 z) C'" unfolding r by (rule blocks_to_kinv[OF run3_inv(1)[of z] run3_user(2)[of z] run3_inv(7)[of z] w b(2)])
  moreover have "tick_ok (run4 z) C'" unfolding r
    by (rule blocks_to_tick_ok[OF run3_inv(1)[of z] run3_inv(2)[of z] run3_inv(7)[of z] w b(2)]) (simp add: run3_inv(4)[of z])
  ultimately show "\<exists>C. kinv (run4 z) C \<and> tick_ok (run4 z) C" by blast
  have "block_target 1 False (run3 z) = cur_delayed (run3 z)" by (simp add: block_target_def run3_inv(4)[of z])
  then show "due (run4 z) (Pool 1)"
    using b(2) run3_inv(1)[of z] run3_inv(4)[of z] by (auto simp: due_def r blocks_to_def kinv_def delayed_ptrs_ok_def)
  show "cur_task (run4 z) = Some (Pool 1)" "user_task (run4 z) (Pool 1)"
    using run3_inv(3)[of z] run3_user(2)[of z] by (simp_all add: r user_task_def)
qed



section \<open>Witnesses\<close>

lemmas r0_inv = run0_inv[of "()"] and r1_inv = run1_inv[of "()"] and r2_inv = run2_inv[of "()"]
  and r3_inv = run3_inv[of "()"] and r4_inv = run4_inv[of "()"] and r3_user = run3_user[of "()"]

lemma run_priorities [simp]:
  "effective_priority (tcbs (run3 z) (Pool 0)) = 0" "effective_priority (tcbs (run3 z) (Pool (Suc 0))) = 1"
  "priority (tcbs (run3 z) (Pool 0)) = 0" "priority (tcbs (run3 z) (Pool (Suc 0))) = 1"
  "mutexes_held (tcbs (run3 z) (Pool 0)) = 0" "tcb_entry (tcbs (run3 z) (Pool 0)) = 0x08000601"
  using run2_inv(6)[of z] run2_inv(7)[of z] run3_inv(5)[of z] by (simp_all add: fresh_tcb_def)

lemma run3_ready: "cont (lists (run3 z)) (StateItem (Pool 0)) = Some (ReadyL 0)" "cont (lists (run3 z)) (EventItem (Pool 0)) = None"
proof -
  have v: "view3 (ReadyL 0) = Some [StateItem (Pool 0)]" by (simp add: view3_def)
  show c: "cont (lists (run3 z)) (StateItem (Pool 0)) = Some (ReadyL 0)"
    using lists_wf_container[OF kinv_wf[OF run3_inv(1)[of z]] v] by simp
  then show "cont (lists (run3 z)) (EventItem (Pool 0)) = None"
    using kinv_task[OF run3_inv(1)[of z] run3_user(1)[of z]]
    by (cases "cont (lists (run3 z)) (EventItem (Pool 0))") (auto simp: task_ok_def blocked_list_def)
qed

lemma run4_priority: "effective_priority (tcbs (run4 z) (Pool 1)) = 1" "tcbs (run4 z) = tcbs (run3 z)"
proof -
  have w: "waitable None view3" by (simp add: waitable_def)
  obtain m C' where "rtos_block_current_task 1 None False (run3 z) = Ret ((run3 z)\<lparr>lists := m\<rparr>)"
    using block_runs[OF run3_inv(1)[of z] run3_inv(3)[of z] run3_user(2)[of z] run3_inv(7)[of z] w] by blast
  then show "tcbs (run4 z) = tcbs (run3 z)" by (simp add: run4_def)
  then show "effective_priority (tcbs (run4 z) (Pool 1)) = 1" by simp
qed

theorem tick_handler_correct_witness:
  "\<exists>C s'. kinv (run4 ()) C \<and> tick_ok (run4 ()) C \<and> due (run4 ()) (Pool 1) \<and> rtos_tick_handler (run4 ()) = Ret s' \<and> ticks s' = ticks (run4 ()) + 1 \<and>
     cont (lists s') (StateItem (Pool 1)) = Some (ReadyL 1) \<and> wait_reason (tcbs s' (Pool 1)) = WAIT_TIMED_OUT"
proof -
  obtain C where C: "kinv (run4 ()) C" "tick_ok (run4 ()) C" using r4_inv(1) by blast
  obtain s' C' where s': "rtos_tick_handler (run4 ()) = Ret s'" "ticks s' = ticks (run4 ()) + 1"
     "if due (run4 ()) (Pool 1)
      then cont (lists s') (StateItem (Pool 1)) = Some (ReadyL (unat (effective_priority (tcbs (run4 ()) (Pool 1))))) \<and>
           cont (lists s') (EventItem (Pool 1)) = None \<and> tcbs s' (Pool 1) = (tcbs (run4 ()) (Pool 1))\<lparr>wait_reason := WAIT_TIMED_OUT\<rparr>
      else cont (lists s') (StateItem (Pool 1)) = cont (lists (run4 ())) (StateItem (Pool 1)) \<and>
           cont (lists s') (EventItem (Pool 1)) = cont (lists (run4 ())) (EventItem (Pool 1)) \<and> tcbs s' (Pool 1) = tcbs (run4 ()) (Pool 1)"
    using tick_handler_correct[OF C] by blast
  then show ?thesis using C r4_inv(2) run4_priority(1)[of "()"] by (intro exI[of _ C] exI[of _ s']) simp
qed

theorem block_current_task_correct_witness:
  "\<exists>m C'. kinv (run3 ()) view3 \<and> tick_ok (run3 ()) view3 \<and> waitable None view3 \<and>
     rtos_block_current_task 5 None False (run3 ()) = Ret ((run3 ())\<lparr>lists := m\<rparr>) \<and> kinv ((run3 ())\<lparr>lists := m\<rparr>) C' \<and>
     val m (StateItem (Pool 1)) = 5 \<and> cont m (StateItem (Pool 1)) = Some (block_target 5 False (run3 ()))"
proof -
  have w: "waitable None view3" "False \<or> (5 :: u32) \<noteq> ticks (run3 ())" by (simp_all add: waitable_def r3_inv(4))
  show ?thesis
    using block_current_task_correct[OF r3_inv(1,2,3) r3_user(2) r3_inv(7) w] w(1) r3_inv(1,2) by blast
qed

theorem switch_context_correct_witness:
  "\<exists>n s' C'. kinv (run3 ()) view3 \<and> clz_spec clz_count \<and>
     rtos_scheduler_switch_context clz_count (stack_pointer (tcbs (run3 ()) (Pool 1))) (run3 ()) = Ret (stack_pointer (tcbs s' n), s') \<and>
     kinv s' C' \<and> cur_task s' = Some n \<and> scheduled (requeued (Pool 1) (run3 ()) view3) n C'"
proof -
  have sp: "stack_pointer (tcbs (run3 ()) (Pool 1)) \<noteq> 0" using r2_inv(7) r3_inv(5) by (simp add: fresh_tcb_def)
  show ?thesis
    using switch_context_correct[OF r3_inv(1,2) clz_count_spec r3_inv(3) sp run3_stack_valid[of "()"]]
      r3_inv(1) clz_count_spec by blast
qed

theorem stack_overflow_detected_witness:
  "\<exists>s'. rtos_scheduler_switch_context clz_count 0x20002004 (run3 ()) =
          Halt (Failure ARTOS_FAILURE_STACK_OVERFLOW (Some TASKS_C) 204) s' \<and> lists s' = lists (run3 ())"
proof -
  have "stack_buffer (tcbs (run3 ()) (Pool 1)) = 0x20002000" using r2_inv(7) r3_inv(5) by (simp add: fresh_tcb_def)
  then have "(0x20002004 :: u32) < stack_buffer (tcbs (run3 ()) (Pool 1)) + 16" by simp
  then show ?thesis using stack_overflow_detected[OF r3_inv(3), of "0x20002004" clz_count] by auto
qed

theorem scheduler_start_correct_witness:
  "\<not> none_ready view2 \<and> (\<exists>n s' C'. rtos_scheduler_start clz_count (run2 ()) = Ret (Some n, s') \<and> kinv s' C' \<and> cur_task s' = Some n)"
  using scheduler_start_correct[OF r2_inv(1,2) clz_count_spec r2_inv(4)] view2_busy by auto

theorem task_create_correct_witness:
  "artos_task_create 0 0 0x20001000 64 0 (run0 ()) = Ret (ARTOS_ERROR_INVALID_ARGUMENT, (run0 ())) \<and>
   (\<exists>s'. artos_task_create 0x08000601 7 0x20001000 64 0 (run0 ()) = Ret (ARTOS_OK, s') \<and> kinv s' view1 \<and> tsk_cnt s' = 1)"
  using task_create_correct[OF r0_inv(1,2), of "0x20001000" 0 0 64 0]
    task_create_correct[OF r0_inv(1,2), of "0x20001000" "0x08000601" 0 64 7]
  by (auto simp: ARTOS_PRIORITY_COUNT_def ARTOS_MIN_STACK_WORDS_def ARTOS_MAX_TASKS_def r0_inv(3) view1_def Let_def)

theorem task_create_stack_witness:
  "artos_task_stack_valid (tcbs (rtos_init_tcb (Pool 0) 0x08000601 7 0x20001000 64 0 (reset_state ())) (Pool 0))
     (stack_pointer (tcbs (rtos_init_tcb (Pool 0) 0x08000601 7 0x20001000 64 0 (reset_state ())) (Pool 0)))
     (rtos_init_tcb (Pool 0) 0x08000601 7 0x20001000 64 0 (reset_state ()))"
  using task_create_stack[of "0x20001000" 64 "Pool 0" "0x08000601" 7 0 "reset_state ()"] by simp

theorem system_init_establishes_inv_witness:
  "pool_bounded (reset_state ()) \<and> kinv (rtos_system_init (reset_state ())) boot_view"
  using system_init_establishes_inv[OF reset_pool_bounded[of "()"]] reset_pool_bounded[of "()"] by blast


theorem priority_inherit_max_witness:
  "\<exists>s' C'. rtos_priority_inherit (Some (Pool 0)) 1 (run3 ()) = Ret s' \<and> kinv s' C' \<and> only_priority (Pool 0) 1 (run3 ()) s'"
  using priority_inherit_max[OF r3_inv(1,2) r3_user(1), of 1] by (auto simp: ARTOS_PRIORITY_COUNT_def)

theorem disinherit_after_timeout_min_max_witness:
  "\<exists>s' C'. rtos_priority_disinherit_after_timeout (Some (Pool 0)) 1 (run3 ()) = Ret (False, s') \<and> kinv s' C'"
  using disinherit_after_timeout_min_max[OF r3_inv(1,2) r3_user(1), of 1] by (auto simp: ARTOS_PRIORITY_COUNT_def)

theorem relinquish_after_unlock_base_witness:
  "\<exists>s' C'. rtos_priority_relinquish_after_unlock (Some (Pool 0)) (run3 ()) = Ret (False, s') \<and> kinv s' C'"
  using relinquish_after_unlock_base[OF r3_inv(1,2) r3_user(1)] by auto

theorem unblock_task_correct_witness:
  "\<exists>s' C'. rtos_unblock_task (Some (StateItem (Pool 1))) WAIT_SIGNALED (run4 ()) = Ret s' \<and> kinv s' C' \<and>
     wait_reason (tcbs s' (Pool 1)) = WAIT_SIGNALED"
proof -
  obtain C where C: "kinv (run4 ()) C" "tick_ok (run4 ()) C" using r4_inv(1) by blast
  have b: "blocked_list (cont (lists (run4 ())) (StateItem (Pool 1)))" using r4_inv(2) by (auto simp: due_def blocked_list_def)
  obtain s' C' where "rtos_unblock_task (Some (StateItem (Pool 1))) WAIT_SIGNALED (run4 ()) = Ret s'" "kinv s' C'"
      "tcbs s' = (tcbs (run4 ()))(Pool 1 := (tcbs (run4 ()) (Pool 1))\<lparr>wait_reason := WAIT_SIGNALED\<rparr>)"
    using unblock_task_correct[OF C r4_inv(4) b, of "StateItem (Pool 1)"] by blast
  then show ?thesis by (intro exI[of _ s'] exI[of _ C']) simp
qed

theorem task_get_info_state_witness:
  "\<exists>i. artos_task_get_info 0 (Some (undefined :: artos_task_info)) (run3 ()) = (True, Some i, (run3 ())) \<and>
     info_state i = ARTOS_TASK_STATE_READY \<and> info_entry i = 0x08000601"
  using task_get_info_state[OF r3_inv(1), of 0] run3_ready(1)[of "()"] r3_inv(6) by auto

theorem initialize_stack_frame_witness:
  "\<exists>s'. rtos_port_initialize_stack 0x20001100 0x08000601 7 (reset_state ()) = (0x20001100 - 68, s') \<and>
     map (\<lambda>i. frame_word (0x20001100 - 68) i s') [0..<17] =
       replicate 8 0 @ [ARTOS_PORT_INITIAL_EXC_RETURN] @
       [7, 0, 0, 0, 0, task_return_trap_addr (reset_state ()), 0x08000601 AND NOT 1, ARTOS_PORT_INITIAL_XPSR]"
  using initialize_stack_frame[of "0x20001100" "0x08000601" 7 "reset_state ()"] by blast

lemma run3_running: "running (run3 z) (Pool 1)"
  using run3_inv(3,7)[of z] run3_user(2)[of z] by (simp add: running_def)


theorem wait_correct_witness:
  "\<exists>s' C'. running (run3 ()) (Pool 1) \<and> artos_wait 5 (run3 ()) = Ret s' \<and> kinv s' C' \<and> sleeping s' (Pool 1) 5 None"
  using wait_correct[OF r3_inv(1,2) run3_running, of 5] run3_running[of "()"] r3_inv(4)
  by (auto simp: ARTOS_DELAY_INFINITY_def)

theorem wait_until_correct_witness:
  "\<exists>s' C'. artos_wait_until 7 (run3 ()) = Ret s' \<and> kinv s' C' \<and> sleeping s' (Pool 1) 7 None"
  using wait_until_correct[OF r3_inv(1,2) run3_running, of 7] r3_inv(4) by auto

theorem wait_wakes_exactly_witness:
  "\<exists>s1 s'. artos_wait 3 (run3 ()) = Ret s1 \<and> ticks_run 3 s1 = Ret s' \<and> ticks s' = 3 \<and>
     cont (lists s') (StateItem (Pool 1)) = Some (ReadyL 1) \<and> wait_reason (tcbs s' (Pool 1)) = WAIT_TIMED_OUT"
  using wait_wakes_exactly[OF r3_inv(1,2) run3_running, of 3 3] r3_inv(4) by (auto simp: ARTOS_DELAY_INFINITY_def)

theorem start_correct_witness:
  "artos_start clz_count (run0 ()) = Ret (Some ARTOS_ERROR_NO_TASKS, run0 ()) \<and>
   (\<exists>n s'. artos_start clz_count (run2 ()) = Ret (None, s') \<and> running s' n \<and> primask s' = 0)"
proof -
  have "none_ready boot_view" by (auto simp: none_ready_def boot_view_def)
  then show ?thesis using view2_busy
      start_correct[OF r0_inv(1,2) clz_count_spec r0_inv(4)] start_correct[OF r2_inv(1,2) clz_count_spec r2_inv(4)]
    by auto
qed

text \<open>A register file without floating-point state, and a point inside the second task where PendSV strikes.\<close>

definition cpu0 :: cpu where
  "cpu0 = \<lparr>reg = of_nat, lr = 0xFFFFFFFD, msp = 0x20000800, sreg = (\<lambda>_. 0)\<rparr>"

definition run3_psp :: "unit kernel_scheme" where "run3_psp = (run3 ())\<lparr>psp := 0x200020DC\<rparr>"

lemma run3_saved:
  assumes "pendsv_save cpu0 run3_psp = (sp, s0)"
  shows "sp = 0x200020B8" "artos_task_stack_valid (tcbs s0 (Pool 1)) sp s0"
proof -
  have w: "context_words (lr cpu0) = 9" by (simp add: context_words_def cpu0_def)
  note f = save_frame[OF assms, unfolded w]
  show sp: "sp = 0x200020B8" using f(1) by (simp add: run3_psp_def)
  obtain m where s0: "s0 = run3_psp\<lparr>stack_mem := m\<rparr>" using f(2) by blast
  have t: "tcbs (run3 ()) (Pool 1) = fresh_tcb 0x08000701 9 0x20002000 64 1" using run2_inv(7)[of "()"] run3_inv(5)[of "()"] by simp
  have "m (0x20002000 + 4 * of_nat i) = stack_mem (run3 ()) (0x20002000 + 4 * of_nat i)" if "i < 4" for i
  proof -
    have "(0x20002000 :: u32) + 4 * of_nat i \<noteq> 0x200020B8 + 4 * of_nat j" if "j < 9" for j
    proof -
      have "i \<in> {0, 1, 2, 3}" "j \<in> {0, 1, 2, 3, 4, 5, 6, 7, 8}" using that \<open>i < 4\<close> by auto
      then show ?thesis by fastforce
    qed
    then show ?thesis using f(4) by (simp add: s0 sp run3_psp_def)
  qed
  then show "artos_task_stack_valid (tcbs s0 (Pool 1)) sp s0"
    using run3_stack_valid[of "()"] unfolding sp
    by (auto simp: artos_task_stack_valid_def s0 run3_psp_def t fresh_tcb_def ARTOS_STACK_GUARD_WORDS_def list_all_iff Let_def simp del: One_nat_def)
qed

theorem pendsv_switch_correct_witness:
  "\<exists>n c' s'. PendSV_Handler clz_count id cpu0 run3_psp = Ret (c', s') \<and> cur_task s' = Some n \<and>
     parked cpu0 (Pool 1) s' \<and> stack_pointer (tcbs s' (Pool 1)) = 0x200020B8"
proof -
  obtain sp s0 where sv: "pendsv_save cpu0 run3_psp = (sp, s0)" by fastforce
  note v = run3_saved[OF sv]
  have k: "kinv run3_psp view3" "tick_ok run3_psp view3" "cur_task run3_psp = Some (Pool 1)"
    using run3_inv(1-3)[of "()"] by (simp_all add: run3_psp_def)
  have "sp \<noteq> 0" using v(1) by simp
  from pendsv_switch_correct[OF k(1,2) clz_count_spec k(3) sv this v(2), of id]
  show ?thesis by (auto simp: run3_psp_def context_words_def cpu0_def)
qed

theorem svc_starts_task_witness:
  "\<exists>s0 c'. rtos_port_initialize_stack 0x20001100 0x08000601 7 (reset_state ()) = (0x200010BC, s0) \<and>
     SVC_Handler cpu0 (s0\<lparr>psp := 0x200010BC\<rparr>) = (c', s0\<lparr>psp := 0x200010E0\<rparr>) \<and>
     lr c' = ARTOS_PORT_INITIAL_EXC_RETURN \<and> reg c' 4 = 0 \<and> reg c' 0 = 0"
proof -
  obtain s0 where i: "rtos_port_initialize_stack 0x20001100 0x08000601 7 (reset_state ()) = (0x200010BC, s0)"
    using initial_frame[of "0x20001100" "0x08000601" 7 "reset_state ()"] by auto
  then show ?thesis using svc_starts_task[OF i, of "s0\<lparr>psp := 0x200010BC\<rparr>" cpu0]
    by (auto simp: frame_word_def regs_def cpu0_def)
qed

end
