(* ===== verification/Samples_Sync.thy ===== *)
theory Samples_Sync
  imports Samples Mutex_Correct
begin

text \<open>
  Concrete synchronisation objects in the started system of \<open>Samples\<close>, for the hypotheses of their properties.
\<close>

section \<open>Semaphores\<close>

text \<open>A counting semaphore with one of three tokens, made by the running task.\<close>

definition sem_boot :: sem_kernel where
  "sem_boot = run3 (sem_kernel.fields (\<lambda>_. \<lparr>sem_count = 0, sem_max = 0\<rparr>))"

definition sem_run :: "u32 \<Rightarrow> sem_kernel" where
  "sem_run c = snd (artos_counting_semaphore_init (Some 0) 3 c sem_boot)"

definition sem_view :: list_view where "sem_view = view3(SemWaitL 0 \<mapsto> [])"

lemma boot_no_wait_list [simp]: "is_wait_list l \<Longrightarrow> view3 l = None"
  by (cases l) (simp_all add: view3_def view2_def view1_def append_to_def boot_view_def)

lemma sem_boot_sinv: "sinv sem_boot view3"
  using run3_inv(1,2)[of "sem_kernel.fields (\<lambda>_. \<lparr>sem_count = 0, sem_max = 0\<rparr>)"] by (simp add: sinv_def sem_boot_def)

lemma sem_view_live: "sem_view (SemWaitL 0) \<noteq> None" "waiters sem_view (SemWaitL 0) = []"
  by (simp_all add: sem_view_def waiters_def)

lemma sem_run_inv:
  assumes "c \<le> 3"
  shows "sinv (sem_run c) sem_view" "sem_abs (sem_run c) sem_view 0 = \<lparr>tokens = unat c, limit = 3, queue = []\<rparr>"
    "running (sem_run c) (Pool 1)" "ticks (sem_run c) = 0"
proof -
  let ?x = "(sems sem_boot 0)\<lparr>sem_count := c, sem_max := 3\<rparr>"
  have e: "sem_run c = sem_boot\<lparr>sems := (sems sem_boot)(0 := ?x), lists := rtos_init_list (Some (SemWaitL 0)) (lists sem_boot)\<rparr>"
  proof -
    have "\<not> 3 < c" using assms by (simp only: not_less not_False_eq_True)
    then show ?thesis unfolding sem_run_def artos_counting_semaphore_init_def upd_sem_def by simp
  qed
  show "sinv (sem_run c) sem_view" unfolding e sem_view_def
    by (rule sinv_new_semaphore[OF sem_boot_sinv]) (simp_all add: assms)
  show "sem_abs (sem_run c) sem_view 0 = \<lparr>tokens = unat c, limit = 3, queue = []\<rparr>"
    unfolding e by (simp add: sem_abs_def sem_view_live)
  show "running (sem_run c) (Pool 1)" "ticks (sem_run c) = 0"
    using run3_running[of "sem_kernel.fields (\<lambda>_. \<lparr>sem_count = 0, sem_max = 0\<rparr>)"]
      run3_inv(4)[of "sem_kernel.fields (\<lambda>_. \<lparr>sem_count = 0, sem_max = 0\<rparr>)"]
    unfolding e sem_boot_def by (simp_all add: running_def user_task_def init_list_fields)
qed

lemmas one_token = sem_run_inv[of 1, simplified] and no_token = sem_run_inv[of 0, simplified]

theorem semaphore_signal_refines_witness:
  "\<exists>s' C'. artos_semaphore_signal (Some 0) (sem_run 1) = Ret (True, s') \<and> sinv s' C' \<and> tokens (sem_abs s' C' 0) = 2"
proof -
  have "spec_signal (sem_abs (sem_run 1) sem_view 0) = (True, \<lparr>tokens = 2, limit = 3, queue = []\<rparr>)"
    using one_token(2) by (simp add: spec_signal_def)
  then show ?thesis using semaphore_signal_refines[OF one_token(1) sem_view_live(1)] by fastforce
qed

theorem semaphore_signal_isr_equiv_witness:
  "\<exists>b s'. artos_semaphore_signal_isr (Some 0) (Some False) (sem_run 1) = Ret (b, Some False, s') \<and>
     artos_semaphore_signal (Some 0) (sem_run 1) = Ret (b, s')"
proof -
  have "sem_count (sems (sem_run 1) 0) \<noteq> 0" using one_token(2) by (auto simp: sem_abs_def)
  then have "\<not> wakes_higher (sem_run 1) sem_view 0" by (simp add: wakes_higher_def)
  then show ?thesis using semaphore_signal_isr_equiv[OF one_token(1) sem_view_live(1), of "Some False"] by auto
qed

theorem semaphore_take_refines_witness:
  "(\<exists>s'. artos_semaphore_take Ret (Some 0) 5 (sem_run 1) = Ret (True, s')) \<and>
   (\<exists>s'. artos_semaphore_take Ret (Some 0) 5 (sem_run 0) = Ret (semaphore_take_resume s') \<and>
      take_blocked (sem_run 0) (Pool 1) 0 5 s')"
  using semaphore_take_refines[OF one_token(1,3) sem_view_live(1), of Ret 5] one_token(2)
    semaphore_take_refines[OF no_token(1,3) sem_view_live(1), of Ret 5] no_token(2)
  by (auto simp: spec_take_def)

theorem semaphore_init_correct_witness:
  "\<exists>s'. artos_counting_semaphore_init (Some 0) 3 1 sem_boot = (Some 0, s') \<and> sinv s' (view3(SemWaitL 0 \<mapsto> []))"
  using semaphore_init_correct[OF sem_boot_sinv, of 0 3 1 True] by auto

section \<open>Queues and mutexes\<close>

text \<open>The started system with room for all objects; then a queue with storage at \<open>0x20004000\<close> for items of four bytes.\<close>

definition objects where
  "objects = sem_kernel.sem_kernel_ext (\<lambda>_. \<lparr>sem_count = 0, sem_max = 0\<rparr>)
     (queue_kernel.queue_kernel_ext (\<lambda>_. \<lparr>q_count = 0, q_capacity = 0, q_read_index = 0, q_write_index = 0, q_item_size = 0, q_storage = 0\<rparr>)
        (\<lambda>a. ucast a) (mutex_kernel.fields (\<lambda>_. \<lparr>mutex_owner = None\<rparr>)))"

definition sys_boot :: mutex_kernel where "sys_boot = run3 objects"

definition queue_run :: "u32 \<Rightarrow> mutex_kernel" where
  "queue_run capacity = snd (artos_queue_init (Some 0) 0x20004000 4 capacity sys_boot)"

definition queue_view :: list_view where "queue_view = view3(QueueReadL 0 \<mapsto> [], QueueWriteL 0 \<mapsto> [])"

lemma no_queue_live [simp]: "\<not> queue_live view3 n" "\<not> mutex_live view3 n" "queue_live queue_view n \<longleftrightarrow> n = 0"
  by (simp_all add: queue_live_def mutex_live_def queue_view_def)

lemma sys_boot_tasks: "tcbs sys_boot (Pool 0) = fresh_tcb 0x08000601 7 0x20001000 64 0"
  "tcbs sys_boot (Pool 1) = fresh_tcb 0x08000701 9 0x20002000 64 1" "tsk_cnt sys_boot = 2"
  using run2_inv(6,7)[of objects] run3_inv(5,6)[of objects] by (simp_all add: sys_boot_def)

lemma sys_boot_inv: "minv sys_boot view3" "running sys_boot (Pool 1)" "ticks sys_boot = 0"
proof -
  show "running sys_boot (Pool 1)" "ticks sys_boot = 0"
    using run3_running[of objects] run3_inv(4)[of objects] by (simp_all add: sys_boot_def)
  have "qinv sys_boot view3"
    using run3_inv(1,2)[of objects] by (simp add: qinv_def sinv_def sys_boot_def)
  moreover have "held_ok sys_boot view3 t" if "user_task sys_boot t" for t
  proof -
    have "unat (tsk_cnt sys_boot) = 2" using sys_boot_tasks(3) by simp
    then have "t = Pool 0 \<or> t = Pool 1" using that by (auto simp: user_task_def less_2_cases_iff)
    then show ?thesis using sys_boot_tasks(1,2) by (auto simp: held_ok_def held_by_def fresh_tcb_def)
  qed
  ultimately show "minv sys_boot view3" by (simp add: minv_def)
qed

lemma queue_run_inv:
  assumes "c = 1 \<or> c = 2"
  shows "qinv (queue_run c) queue_view" "running (queue_run c) (Pool 1)" "ticks (queue_run c) = 0"
    "queues (queue_run c) 0 = \<lparr>q_count = 0, q_capacity = c, q_read_index = 0, q_write_index = 0, q_item_size = 4, q_storage = 0x20004000\<rparr>"
proof -
  let ?q = "(queues sys_boot 0)\<lparr>q_count := 0, q_item_size := 4, q_capacity := c, q_read_index := 0, q_write_index := 0, q_storage := 0x20004000\<rparr>"
  have ck: "\<not> SIZE_MAX div 4 < c" using assms by (auto simp: SIZE_MAX_def)
  have e: "queue_run c = sys_boot\<lparr>queues := (queues sys_boot)(0 := ?q),
      lists := rtos_init_list (Some (QueueWriteL 0)) (rtos_init_list (Some (QueueReadL 0)) (lists sys_boot))\<rparr>"
  proof -
    have "c \<noteq> 0" using assms by auto
    then show ?thesis using ck unfolding queue_run_def artos_queue_init_def upd_queue_def by simp
  qed
  have wf: "queue_wf ?q" using assms by (auto simp: queue_wf_def)
  show "qinv (queue_run c) queue_view" unfolding e queue_view_def
    by (rule qinv_new_queue[OF minvD(1)[OF sys_boot_inv(1)] _ _ wf]) simp_all
  show "running (queue_run c) (Pool 1)" "ticks (queue_run c) = 0"
    using sys_boot_inv(2,3) unfolding e by (simp_all add: running_def user_task_def init_list_fields)
  show "queues (queue_run c) 0 = \<lparr>q_count = 0, q_capacity = c, q_read_index = 0, q_write_index = 0, q_item_size = 4, q_storage = 0x20004000\<rparr>"
    unfolding e by simp
qed

lemmas queue1 = queue_run_inv[of 1, simplified] and queue2 = queue_run_inv[of 2, simplified]

lemma queue_view_live: "queue_live queue_view 0" by simp

text \<open>A queue of one item that is full, and one of two with a single item.\<close>

definition queue_full :: mutex_kernel where "queue_full = queue_store 0 0x20005000 (queue_run 1)"
definition queue_some :: mutex_kernel where "queue_some = queue_store 0 0x20005000 (queue_run 2)"

lemma queue_full_inv: "qinv queue_full queue_view" "running queue_full (Pool 1)" "ticks queue_full = 0"
    "q_count (queues queue_full 0) = 1" "q_capacity (queues queue_full 0) = 1" "queue_wf (queues queue_full 0)"
proof -
  show q: "qinv queue_full queue_view" unfolding queue_full_def
    by (rule qinv_store(1)[OF queue1(1) queue_view_live]) (simp add: queue1(4))
  show "running queue_full (Pool 1)" "ticks queue_full = 0"
    using queue1(2,3) by (simp_all add: queue_full_def running_def user_task_def queue_store_eq)
  show "q_count (queues queue_full 0) = 1" "q_capacity (queues queue_full 0) = 1"
    using queue1(4) by (simp_all add: queue_full_def queue_store_eq)
  show "queue_wf (queues queue_full 0)" by (rule qinvD(2)[OF q queue_view_live])
qed

lemma queue_some_inv: "qinv queue_some queue_view"
    "length (contents (queue_abs queue_some queue_view 0)) = 1" "room (queue_abs queue_some queue_view 0) = 2"
    "q_item_size (queues queue_some 0) = 4" "q_count (queues queue_some 0) = 1"
    "queue_region (queues queue_some 0) = region 0x20004000 8"
proof -
  show "qinv queue_some queue_view" unfolding queue_some_def
    by (rule qinv_store(1)[OF queue2(1) queue_view_live]) (simp add: queue2(4))
  show "length (contents (queue_abs queue_some queue_view 0)) = 1" "room (queue_abs queue_some queue_view 0) = 2"
    "q_item_size (queues queue_some 0) = 4" "q_count (queues queue_some 0) = 1" "queue_region (queues queue_some 0) = region 0x20004000 8"
    using queue2(4) by (simp_all add: queue_some_def queue_store_eq queue_abs_def queue_items_length queue_region_def)
qed

lemma queue_some_safe: "dst_safe 0 queue_some queue_view 0x20006000"
proof -
  have "region 0x20006000 4 \<inter> region 0x20004000 8 = {}" by (simp add: region_def lessThan_nat_numeral lessThan_Suc)
  then show ?thesis using queue_some_inv(4,6) by (simp add: dst_safe_def)
qed

theorem queue_enqueue_refines_witness:
  "\<exists>s' C'. artos_queue_enqueue_from_isr (Some 0) 0x20005004 (Some False) queue_some = Ret (True, Some False, s') \<and> qinv s' C' \<and>
     length (contents (queue_abs s' C' 0)) = 2"
proof -
  let ?x = "buffer (mem queue_some) 0x20005004 (unat (q_item_size (queues queue_some 0)))"
  have nz: "(0x20005004 :: u32) \<noteq> 0" by simp
  have a: "fst (spec_put ?x (queue_abs queue_some queue_view 0)) = True"
      "length (contents (snd (spec_put ?x (queue_abs queue_some queue_view 0)))) = 2"
    using queue_some_inv(2,3) by (simp_all add: spec_put_def)
  have b: "\<not> beats queue_some queue_view (QueueReadL 0)" by (simp add: beats_def queue_view_def waiters_def)
  obtain s' C' where "artos_queue_enqueue_from_isr (Some 0) 0x20005004 (Some False) queue_some =
        Ret (fst (spec_put ?x (queue_abs queue_some queue_view 0)),
          if fst (spec_put ?x (queue_abs queue_some queue_view 0)) \<and> Some False \<noteq> None \<and> beats queue_some queue_view (QueueReadL 0)
          then Some True else Some False, s')" "qinv s' C'"
      "queue_abs s' C' 0 = snd (spec_put ?x (queue_abs queue_some queue_view 0))"
    using queue_enqueue_refines[OF queue_some_inv(1) queue_view_live nz, of "Some False" Ret 0] by blast
  then show ?thesis using a b by (intro exI[of _ s'] exI[of _ C']) simp
qed

theorem queue_dequeue_refines_witness:
  "\<exists>s' C'. artos_queue_dequeue_from_isr (Some 0) 0x20006000 None queue_some = Ret (True, None, s') \<and> qinv s' C' \<and>
     contents (queue_abs s' C' 0) = []"
proof -
  have nz: "(0x20006000 :: u32) \<noteq> 0" by simp
  have d: "\<forall>k. queue_live queue_view k \<longrightarrow> region 0x20006000 (unat (q_item_size (queues queue_some 0))) \<inter> queue_region (queues queue_some k) = {}"
    using queue_some_safe by (simp add: dst_safe_def)
  obtain x where x: "contents (queue_abs queue_some queue_view 0) = [x]" using queue_some_inv(2) by (auto simp: length_Suc_conv)
  then have a: "spec_get (queue_abs queue_some queue_view 0) = (Some x, (queue_abs queue_some queue_view 0)\<lparr>contents := [],
      writers := tl (writers (queue_abs queue_some queue_view 0))\<rparr>)" by (simp add: spec_get_def)
  obtain s' C' where "artos_queue_dequeue_from_isr (Some 0) 0x20006000 None queue_some =
        Ret (fst (spec_get (queue_abs queue_some queue_view 0)) \<noteq> None, None, s')" "qinv s' C'"
      "queue_abs s' C' 0 = snd (spec_get (queue_abs queue_some queue_view 0))"
    using queue_dequeue_refines[OF queue_some_inv(1) queue_view_live nz d, of None Ret 0] unfolding simp_thms if_False by blast
  then show ?thesis unfolding a by (intro exI[of _ s'] exI[of _ C']) simp
qed

theorem queue_long_timeout_fails_witness:
  "artos_queue_enqueue Ret (Some 0) 0x20005004 0x90000000 queue_full = Ret (False, queue_full)"
  using queue_long_timeout_fails[OF queue_full_inv(6), of "0x20005004" "0x90000000" Ret] queue_full_inv(4,5)
  by (simp add: ARTOS_DELAY_INFINITY_def)

theorem queue_init_correct_witness:
  "\<exists>s'. artos_queue_init (Some 0) 0x20004000 4 2 sys_boot = (Some 0, s') \<and> qinv s' queue_view"
proof -
  have a: "view3 (QueueReadL 0) = None \<or> view3 (QueueReadL 0) = Some []" "view3 (QueueWriteL 0) = None \<or> view3 (QueueWriteL 0) = Some []" by simp_all
  show ?thesis
    using queue_init_correct[OF minvD(1)[OF sys_boot_inv(1)] a, of "0x20004000" 4 2] by (simp add: queue_view_def) blast
qed

theorem queue_enqueue_blocks_witness:
  "\<exists>s1 C1. qinv s1 C1 \<and> blocked_on queue_full (Pool 1) (QueueWriteL 0) 5 s1"
proof -
  have "(5 :: u32) = ARTOS_DELAY_INFINITY \<or> (5 :: u32) \<noteq> 0 \<and> (5 :: u32) < 0x80000000" "(0x20005004 :: u32) \<noteq> 0"
    "q_count (queues queue_full 0) = q_capacity (queues queue_full 0)" using queue_full_inv(4,5) by simp_all
  then show ?thesis using queue_enqueue_blocks[OF queue_full_inv(1,2) queue_view_live, of "0x20005004" 5 Ret] by blast
qed

theorem queue_dequeue_blocks_witness:
  "\<exists>s1 C1. qinv s1 C1 \<and> blocked_on (queue_run 2) (Pool 1) (QueueReadL 0) 5 s1"
proof -
  have "(5 :: u32) = ARTOS_DELAY_INFINITY \<or> (5 :: u32) \<noteq> 0 \<and> (5 :: u32) < 0x80000000" "(0x20006000 :: u32) \<noteq> 0"
    "q_count (queues (queue_run 2) 0) = 0" using queue2(4) by simp_all
  then show ?thesis unfolding One_nat_def using queue_dequeue_blocks[OF queue2(1,2) queue_view_live, of "0x20006000" 5 Ret] by blast
qed

theorem queue_fifo_witness:
  "\<exists>es s' C'. exec_queue (item_bytes 0) (isr_put 0) (isr_get 0) [Put 0x20005004, Get 0x20006000, Get 0x20006000] queue_some = Ret (es, s') \<and>
     contents (queue_abs queue_some queue_view 0) @ stored es = fetched es @ contents (queue_abs s' C' 0)"
proof -
  have "list_all (allowed (dst_safe 0 queue_some queue_view)) [Put 0x20005004, Get 0x20006000, Get 0x20006000]"
    using queue_some_safe by (simp add: allowed_def)
  from queue_fifo[OF queue_some_inv(1) queue_view_live this] show ?thesis by blast
qed

section \<open>A mutex\<close>

definition mutex_run :: mutex_kernel where "mutex_run = snd (artos_mutex_init (Some 0) sys_boot)"
definition mutex_view :: list_view where "mutex_view = view3(MutexLockL 0 \<mapsto> [])"

lemma mutex_run_inv: "minv mutex_run mutex_view" "running mutex_run (Pool 1)" "owner_of mutex_run 0 = None"
    "mutexes_held (tcbs mutex_run (Pool 1)) = 0" "mutex_live mutex_view 0"
proof -
  have e: "mutex_run = (set_owner_of 0 None sys_boot)\<lparr>lists := rtos_init_list (Some (MutexLockL 0)) (lists sys_boot)\<rparr>"
    by (simp add: mutex_run_def artos_mutex_init_def)
  have "view3 (MutexLockL 0) = None \<or> view3 (MutexLockL 0) = Some [] \<and> owner_of sys_boot 0 = None" by simp
  from minv_new_mutex[OF sys_boot_inv(1) this] show "minv mutex_run mutex_view" unfolding e mutex_view_def .
  show "running mutex_run (Pool 1)" "owner_of mutex_run 0 = None" "mutexes_held (tcbs mutex_run (Pool 1)) = 0" "mutex_live mutex_view 0"
    using sys_boot_inv(2) sys_boot_tasks(2)
    by (simp_all add: e running_def user_task_def init_list_fields fresh_tcb_def mutex_view_def mutex_live_def)
qed

text \<open>The running task takes the mutex.\<close>

definition mutex_held :: mutex_kernel where
  "mutex_held = set_owner_of 0 (Some (Pool 1)) (set_held (Pool 1) 1 mutex_run)"

lemma mutex_held_inv: "minv mutex_held mutex_view" "running mutex_held (Pool 1)" "owner_of mutex_held 0 = Some (Pool 1)"
    "mutexes_held (tcbs mutex_held (Pool 1)) = 1"
proof -
  have a: "user_task mutex_run (Pool 1)" "mutexes_held (tcbs mutex_run (Pool 1)) \<noteq> 0xFF"
      "\<forall>k. mutex_live mutex_view k \<longrightarrow> Pool 1 \<notin> set (lockers mutex_view k)"
    using mutex_run_inv(2,4) by (simp_all add: running_def mutex_view_def mutex_live_def lockers_def waiters_def)
  show "minv mutex_held mutex_view"
    using minv_acquire[OF mutex_run_inv(1,5,3) a] mutex_run_inv(4) by (simp add: mutex_held_def)
  show "running mutex_held (Pool 1)" "owner_of mutex_held 0 = Some (Pool 1)" "mutexes_held (tcbs mutex_held (Pool 1)) = 1"
    using mutex_run_inv(2) by (simp_all add: mutex_held_def running_def)
qed

theorem mutex_lock_correct_witness:
  "(\<exists>s'. artos_mutex_lock Ret (Some 0) 5 mutex_run = Ret (True, s') \<and> owner_of s' 0 = Some (Pool 1)) \<and>
   artos_mutex_lock Ret (Some 0) 5 mutex_held = Ret (False, mutex_held)"
proof -
  have "mutexes_held (tcbs mutex_run (Pool 1)) \<noteq> 0xFF" using mutex_run_inv(4) by simp
  then show ?thesis
    using mutex_lock_correct[OF mutex_run_inv(1,2,5), of 5 Ret] mutex_run_inv(3)
      mutex_lock_correct[OF mutex_held_inv(1,2) mutex_run_inv(5), of 5 Ret] mutex_held_inv(3) by auto
qed


theorem mutex_init_correct_witness:
  "\<exists>s'. artos_mutex_init (Some 0) sys_boot = (Some 0, s') \<and> minv s' mutex_view"
proof -
  have "view3 (MutexLockL 0) = None \<or> view3 (MutexLockL 0) = Some [] \<and> owner_of sys_boot 0 = None" by simp
  from mutex_init_correct[OF sys_boot_inv(1) this] show ?thesis by (auto simp: mutex_view_def)
qed

theorem mutex_unlock_correct_witness:
  "\<exists>s' C'. artos_mutex_unlock (Some 0) mutex_held = Ret (True, s') \<and> minv s' C' \<and> owner_of s' 0 = None"
proof -
  have "lockers mutex_view 0 = []" by (simp add: mutex_view_def lockers_def waiters_def)
  then show ?thesis using mutex_unlock_correct[OF mutex_held_inv(1,2) mutex_run_inv(5)] mutex_held_inv(3) by auto
qed

end
