(* ===== verification/Samples_System.thy ===== *)
theory Samples_System
  imports Fairness Samples_Sync
begin

unbundle bit_operations_syntax

text \<open>Runs of the whole system from start-up: two tasks are created, the kernel is started and a mutex and a semaphore are made.\<close>

definition sys_live :: mutex_kernel where
  "sys_live = rtos_port_start_first_task (stack_pointer (tcbs (run2 objects) (Pool 1))) (run3 objects)"

lemma sys_live_fields [simp]:
  "cur_task sys_live = Some (Pool 1)" "tsk_cnt sys_live = 2" "tcbs sys_live = tcbs (run3 objects)"
  "stack_mem sys_live = stack_mem (run3 objects)" "lists sys_live = lists (run3 objects)"
  using run3_inv(3,6)[of objects] by (simp_all add: sys_live_def rtos_port_start_first_task_def rtos_port_tick_init_def)

lemma sys_live_tasks: "user_task sys_live (Pool 0)" "user_task sys_live (Pool 1)" "running sys_live (Pool 1)"
  using run3_inv(7)[of objects] by (simp_all add: user_task_def running_def)

lemma sys_live_reachable: "reachable clz_count sys_live {}"
proof -
  have 0: "reachable clz_count (run0 objects) {}"
    using reachable.boot[OF reset_pool_bounded[of objects]] by (simp add: artos_init_def run0_def)
  have c: "artos_task_create 0x08000601 7 0x20001000 64 0 (run0 objects) = Ret (ARTOS_OK, run1 objects)"
     "artos_task_create 0x08000701 9 0x20002000 64 1 (run1 objects) = Ret (ARTOS_OK, run2 objects)"
    using run1_inv(7)[of objects] run2_inv(9)[of objects] by simp_all
  have 1: "reachable clz_count (run1 objects) {}"
    by (rule reachable.event[OF 0, of "Create 0x08000601 7 0x20001000 64 0"]) (simp_all add: with_objects_def c)
  have 2: "reachable clz_count (run2 objects) {}"
    by (rule reachable.event[OF 1, of "Create 0x08000701 9 0x20002000 64 1"]) (simp_all add: with_objects_def c)
  have "artos_start clz_count (run2 objects) = Ret (None, sys_live)"
    using run3_inv(9)[of objects] by (simp add: artos_start_def sys_live_def run3_inv(5))
  then show ?thesis by (intro reachable.event[OF 2, of Start]) (simp_all add: with_objects_def run2_inv(4))
qed

lemma sys_live_switch: "enabled (Switch (stack_pointer (tcbs sys_live (Pool 1)))) sys_live {}"
proof -
  have "artos_task_stack_valid (tcbs sys_live (Pool 1)) (stack_pointer (tcbs sys_live (Pool 1))) sys_live"
    using run3_stack_valid[of objects] by (simp add: artos_task_stack_valid_def)
  moreover have "stack_pointer (tcbs sys_live (Pool 1)) \<noteq> 0"
    using run2_inv(7)[of objects] by (simp add: run3_inv(5) fresh_tcb_def)
  ultimately show ?thesis by simp
qed

text \<open>The running task makes a mutex.\<close>

definition sys_mutex :: mutex_kernel where "sys_mutex = snd (artos_mutex_init (Some 0) sys_live)"

lemma sys_mutex_reachable: "reachable clz_count sys_mutex {MutexLockL 0}"
  by (rule reachable.event[OF sys_live_reachable, of "MutexInit 0"]) (simp_all add: sys_mutex_def split_beta)

lemma sys_mutex_running: "running sys_mutex (Pool 1)"
  using sys_live_tasks(3) by (simp add: sys_mutex_def artos_mutex_init_def running_def user_task_def init_list_cont)

theorem kernel_never_fails_witness:
  "\<exists>s' L'. exec clz_count (Lock 0 5) sys_mutex {MutexLockL 0} = Ret (s', L') \<and> reachable clz_count s' L'"
proof (rule kernel_never_fails[OF clz_count_spec sys_mutex_reachable])
  show "enabled (Lock 0 5) sys_mutex {MutexLockL 0}" using sys_mutex_running by (auto simp: in_task_def)
qed

theorem reachable_tasks_ok_witness:
  "priority (tcbs sys_live (Pool 1)) \<le> effective_priority (tcbs sys_live (Pool 1)) \<and>
   unat (effective_priority (tcbs sys_live (Pool 0))) < ARTOS_PRIORITY_COUNT"
  using reachable_tasks_ok[OF clz_count_spec sys_live_reachable sys_live_tasks(1)]
    reachable_tasks_ok[OF clz_count_spec sys_live_reachable sys_live_tasks(2)] by blast

theorem reachable_objects_ok_witness:
  "card {n. n = 0 \<and> owner_of sys_mutex n = Some (Pool 1)} = unat (mutexes_held (tcbs sys_mutex (Pool 1)))"
proof -
  have "user_task sys_mutex (Pool 1)" using sys_mutex_running by (simp add: running_def)
  then show ?thesis using reachable_objects_ok[OF clz_count_spec sys_mutex_reachable] by simp
qed

theorem highest_priority_runs_witness:
  "\<exists>s' n. exec clz_count (Switch (stack_pointer (tcbs sys_live (Pool 1)))) sys_live {} = Ret (s', {}) \<and> cur_task s' = Some n"
  using highest_priority_runs[OF clz_count_spec sys_live_reachable sys_live_switch] by blast

section \<open>A run with two tasks of the same priority\<close>

definition intact :: "'z kernel_scheme \<Rightarrow> bool" where
  "intact s \<longleftrightarrow> (\<forall>u. user_task s u \<longrightarrow>
     stack_pointer (tcbs s u) \<noteq> 0 \<and> artos_task_stack_valid (tcbs s u) (stack_pointer (tcbs s u)) s)"

lemma init_tcb_outside:
  assumes "17 \<le> unat words" "\<And>j. j < unat words \<Longrightarrow> a \<noteq> stack + 4 * of_nat j"
  shows "stack_mem (rtos_init_tcb t entry argument stack words prio s) a = stack_mem s a"
proof -
  obtain f where f: "rtos_init_tcb t entry argument stack words prio s =
     s\<lparr>stack_mem := f, tcbs := (tcbs s)(t := fresh_tcb entry argument stack words prio), lists := fresh_items t (lists s)\<rparr>"
    "\<And>a. a \<notin> (\<lambda>i. stack + 4 * words - 68 + 4 * of_nat i) ` {..<17} \<Longrightarrow>
        f a = (if a \<in> (\<lambda>i. stack + 4 * of_nat i) ` {..<4} then ARTOS_STACK_GUARD_PATTERN
               else if a \<in> (\<lambda>i. stack + 4 * of_nat i) ` {4..<unat words} then ARTOS_STACK_FILL_PATTERN
               else stack_mem s a)"
    using init_tcb_eq[of t entry argument stack words prio s] by blast
  have e: "stack + 4 * words - 68 + 4 * of_nat i = stack + 4 * of_nat (unat words - 17 + i)" for i
    using assms(1) by (simp add: of_nat_diff)
  have "a \<noteq> stack + 4 * words - 68 + 4 * of_nat i" if "i < 17" for i unfolding e using assms(1) that by (intro assms(2)) simp
  then have "a \<notin> (\<lambda>i. stack + 4 * words - 68 + 4 * of_nat i) ` {..<17}" by blast
  moreover have ne: "a \<noteq> stack + 4 * of_nat i" if "i < 4 \<or> i < unat words" for i using assms(1) that by (intro assms(2)) auto
  have ni: "a \<notin> (\<lambda>i. stack + 4 * of_nat i) ` A" if "A \<subseteq> {i. i < 4 \<or> i < unat words}" for A using that ne by blast
  have "a \<notin> (\<lambda>i. stack + 4 * of_nat i) ` {..<4}" "a \<notin> (\<lambda>i. stack + 4 * of_nat i) ` {4..<unat words}" by (rule ni; auto)+
  ultimately show ?thesis using f by simp
qed

lemma create_intact:
  assumes k: "kinv s C" "tick_ok s C" and n: "unat (tsk_cnt s) < ARTOS_MAX_TASKS"
    and a: "stack \<noteq> 0" "entry \<noteq> 0" "unat prio < ARTOS_PRIORITY_COUNT" "(stack + 4 * words) AND 7 = 0" "64 \<le> unat words"
      "unat stack + 4 * unat words < 2 ^ 32"
    and i: "intact s" and d: "\<And>u i j. user_task s u \<Longrightarrow> i < 4 \<Longrightarrow> j < unat words \<Longrightarrow> stack_buffer (tcbs s u) + 4 * of_nat i \<noteq> stack + 4 * of_nat j"
    and c: "artos_task_create entry argument stack words prio s = Ret (ARTOS_OK, s')"
  shows "intact s'"
proof -
  let ?t = "Pool (unat (tsk_cnt s))" and ?i = "rtos_init_tcb (Pool (unat (tsk_cnt s))) entry argument stack words prio (s\<lparr>primask := 1\<rparr>)"
  have w: "ARTOS_MIN_STACK_WORDS \<le> words" using a(5) by (simp add: ARTOS_MIN_STACK_WORDS_def word_le_nat_alt)
  have s': "tsk_cnt s' = tsk_cnt s + 1" "tcbs s' = (tcbs s)(?t := fresh_tcb entry argument stack words prio)" "stack_mem s' = stack_mem ?i"
    using task_create_ok[OF k n a(1-4) w, of argument] c by auto
  have t: "tcbs ?i ?t = fresh_tcb entry argument stack words prio"
    using init_tcb_eq[of ?t entry argument stack words prio "s\<lparr>primask := 1\<rparr>"] by auto
  have "artos_task_stack_valid (tcbs s' ?t) (stack_pointer (tcbs s' ?t)) s'"
    using init_tcb_stack[OF a(6,5), of ?t entry argument prio "s\<lparr>primask := 1\<rparr>"] t s'(2,3) by (simp add: artos_task_stack_valid_def)
  moreover have "stack + 4 * words - 68 \<noteq> 0"
  proof -
    have "unat (4 * words) = 4 * unat words" using a(6) by (simp add: unat_word_ariths(2))
    then have "unat (stack + 4 * words) = unat stack + 4 * unat words" using a(6) by (simp add: unat_word_ariths(1))
    then have "68 < unat (stack + 4 * words)" using a(5) by simp
    then have "stack + 4 * words \<noteq> 68" by auto
    then show ?thesis by simp
  qed
  then have "stack_pointer (tcbs s' ?t) \<noteq> 0" using s'(2) by (simp add: fresh_tcb_def)
  moreover have "stack_pointer (tcbs s' u) \<noteq> 0 \<and> artos_task_stack_valid (tcbs s' u) (stack_pointer (tcbs s' u)) s'"
    if u: "user_task s u" "u \<noteq> ?t" for u
  proof -
    have "stack_mem s' (stack_buffer (tcbs s u) + 4 * of_nat i) = stack_mem s (stack_buffer (tcbs s u) + 4 * of_nat i)" if "i < 4" for i
      unfolding s'(3) using init_tcb_outside[of words "stack_buffer (tcbs s u) + 4 * of_nat i" stack ?t entry argument prio "s\<lparr>primask := 1\<rparr>"] d[OF u(1) that] a(5) by simp
    then show ?thesis using i u s'(2) by (auto simp: intact_def artos_task_stack_valid_def list_all_iff ARTOS_STACK_GUARD_WORDS_def)
  qed
  moreover have "u = ?t \<or> user_task s u" if "user_task s' u" for u
    using that s'(1) n unat_inc_small[of "tsk_cnt s"] by (auto simp: user_task_def ARTOS_MAX_TASKS_def less_Suc_eq)
  ultimately show ?thesis unfolding intact_def by blast
qed

text \<open>With intact stacks, any number of context switches can follow each other.\<close>

lemma switch_intact:
  assumes c: "clz_spec clz" and r: "reachable clz s L" and run: "running s t" and i: "intact s"
  shows "\<exists>s' n. enabled (Switch (stack_pointer (tcbs s t))) s L \<and> exec clz (Switch (stack_pointer (tcbs s t))) s L = Ret (s', L) \<and>
     reachable clz s' L \<and> running s' n \<and> intact s' \<and> tsk_cnt s' = tsk_cnt s \<and> tcbs s' = tcbs s"
proof -
  let ?sp = "stack_pointer (tcbs s t)"
  have t: "cur_task s = Some t" "user_task s t" "cont (lists s) (StateItem t) = None" using run by (auto simp: running_def)
  have v: "?sp \<noteq> 0" "artos_task_stack_valid (tcbs s t) ?sp s" using i t(2) by (auto simp: intact_def)
  obtain C where C: "minv s C" "objects_of C = L" "placed s" using reachable_ok[OF r c] by (rule system_okE)
  note k = minvD(5,6)[OF C(1)]
  obtain n s' C' where s': "rtos_scheduler_switch_context clz ?sp s = Ret (stack_pointer (tcbs s' n), s')"
      "cur_task s' = Some n" "scheduled (requeued t s C) n C'" "tcbs s' = (tcbs s)(t := (tcbs s t)\<lparr>stack_pointer := ?sp\<rparr>)"
      "\<forall>j. \<not> is_sentinel j \<longrightarrow> cont (lists s') j = (if n \<noteq> IdleTask \<and> j = StateItem n then None else requeued_cont t s j)"
      "stack_mem s' = stack_mem s" "quiet s C s' C'"
    using switch_context_runs[OF k c t(1) v] by blast
  have e: "enabled (Switch ?sp) s L" "exec clz (Switch ?sp) s L = Ret (s', L)" using t(1) v s'(1) by (simp_all add: with_objects_def)
  have "requeued t s C (ReadyL (unat (effective_priority (tcbs s t)))) \<notin> {None, Some []}"
    using t by (auto simp: requeued_def append_to_def user_task_def)
  then have "\<not> none_ready (requeued t s C)" unfolding none_ready_def by blast
  then obtain p xs where "highest_ready (requeued t s C) p n xs" using s'(3) by (auto simp: scheduled_def)
  then have n: "user_task s n" by (rule requeued_head(1)[OF k(1) t(1)])
  have eq: "tcbs s' = tcbs s" using s'(4) by simp
  moreover have "user_task s' = user_task s" using s'(7) by (simp add: fun_eq_iff quiet_def user_task_def)
  ultimately have "intact s'" using i s'(6) by (simp add: intact_def artos_task_stack_valid_def)
  moreover have "running s' n" using n s'(2,5,7) by (auto simp: running_def user_task_def quiet_def)
  moreover have "reachable clz s' L" by (rule reachable.event[OF r e])
  ultimately show ?thesis using e s'(7) eq by (auto simp: quiet_def)
qed

lemma switching_run:
  assumes "clz_spec clz" "reachable clz s L" "running s t" "intact s"
  shows "\<exists>es. switches es = k \<and> (\<forall>e \<in> set es. is_switch e) \<and> run_events clz es s L \<noteq> None \<and>
     (\<forall>es1 es2 s1 L1. es = es1 @ es2 \<and> run_events clz es1 s L = Some (s1, L1) \<longrightarrow> tcbs s1 = tcbs s \<and> tsk_cnt s1 = tsk_cnt s)"
  using assms(2-)
proof (induction k arbitrary: s t)
  case 0
  show ?case by (intro exI[of _ "[]"]) simp
next
  case (Suc k)
  obtain s' n where s': "enabled (Switch (stack_pointer (tcbs s t))) s L" "exec clz (Switch (stack_pointer (tcbs s t))) s L = Ret (s', L)"
      "reachable clz s' L" "running s' n" "intact s'" "tcbs s' = tcbs s" "tsk_cnt s' = tsk_cnt s"
    using switch_intact[OF assms(1) Suc.prems] by blast
  obtain es where es: "switches es = k" "\<forall>e \<in> set es. is_switch e" "run_events clz es s' L \<noteq> None"
      "\<And>es1 es2 s1 L1. es = es1 @ es2 \<Longrightarrow> run_events clz es1 s' L = Some (s1, L1) \<Longrightarrow> tcbs s1 = tcbs s' \<and> tsk_cnt s1 = tsk_cnt s'"
    using Suc.IH[OF s'(3-5)] by blast
  have "tcbs s1 = tcbs s \<and> tsk_cnt s1 = tsk_cnt s"
    if "Switch (stack_pointer (tcbs s t)) # es = es1 @ es2" "run_events clz es1 s L = Some (s1, L1)" for es1 es2 s1 L1
    using that s'(1,2,6,7) es(4)[of "tl es1" es2 s1 L1] by (cases es1) auto
  then show ?case using s'(1,2) es by (intro exI[of _ "Switch (stack_pointer (tcbs s t)) # es"]) auto
qed

lemma aligned_addresses_apart:
  fixes a b :: u32
  assumes "unat a + 4 * m \<le> unat b" "unat b + 4 * n \<le> 2 ^ 32" "i < m" "j < n"
  shows "a + 4 * of_nat i \<noteq> b + 4 * of_nat j"
proof -
  have "unat (4 * of_nat i :: u32) = 4 * i" "unat (4 * of_nat j :: u32) = 4 * j"
    using assms by (simp_all add: unat_word_ariths(2) unat_of_nat_u32)
  then have "unat (a + 4 * of_nat i) = unat a + 4 * i" "unat (b + 4 * of_nat j) = unat b + 4 * j"
    using assms by (simp_all add: unat_word_ariths(1))
  then have "unat (a + 4 * of_nat i) < unat (b + 4 * of_nat j)" using assms by simp
  then show ?thesis by auto
qed

lemma intact_boot: "intact (run0 z)"
  using run0_inv(3)[of z] by (simp add: intact_def user_task_def)

lemma run1_intact: "intact (run1 z)"
  using create_intact[OF run0_inv(1,2)[of z] _ _ _ _ _ _ _ intact_boot _ run1_inv(7)[of z]] run0_inv(3)[of z]
  by (simp add: ARTOS_MAX_TASKS_def ARTOS_PRIORITY_COUNT_def user_task_def)

lemma run2_intact: "intact (run2 z)"
proof (rule create_intact[OF run1_inv(1,2)[of z] _ _ _ _ _ _ _ run1_intact _ run2_inv(9)[of z]])
  fix u and i j :: nat assume "user_task (run1 z) u" "i < 4" "j < unat (64 :: u32)"
  then show "stack_buffer (tcbs (run1 z) u) + 4 * of_nat i \<noteq> 0x20002000 + 4 * of_nat j"
    using run1_inv(3,6)[of z] aligned_addresses_apart[of "0x20001000" 4 "0x20002000" 64 i j] by (auto simp: user_task_def fresh_tcb_def)
qed (simp_all add: run1_inv(3) ARTOS_MAX_TASKS_def ARTOS_PRIORITY_COUNT_def)

lemma sys_live_intact: "intact sys_live"
  using run2_intact[of objects] run3_inv(5,8)[of objects] run2_inv(3)[of objects] by (simp add: intact_def user_task_def artos_task_stack_valid_def)

text \<open>The running task creates another one of its priority.\<close>

definition sys_pair :: mutex_kernel where
  "sys_pair = ret_state (artos_task_create 0x08000701 10 0x20003000 64 1 sys_live)"

lemma sys_pair_ok: "reachable clz_count sys_pair {}" "running sys_pair (Pool 1)" "intact sys_pair" "tsk_cnt sys_pair = 3"
  "cont (lists sys_pair) (StateItem (Pool 2)) = Some (ReadyL 1)" "\<forall>u. user_task sys_pair u \<longrightarrow> unat (effective_priority (tcbs sys_pair u)) \<le> 1"
proof -
  obtain C where C: "minv sys_live C" "objects_of C = {}" using reachable_ok[OF sys_live_reachable clz_count_spec] by (rule system_okE)
  note k = minvD(5,6)[OF C(1)]
  obtain s' where s': "artos_task_create 0x08000701 10 0x20003000 64 1 sys_live = Ret (ARTOS_OK, s')" "tsk_cnt s' = 3"
      "tcbs s' = (tcbs sys_live)(Pool 2 := fresh_tcb 0x08000701 10 0x20003000 64 1)"
      "cont (lists s') (StateItem (Pool 2)) = Some (ReadyL 1)" "cur_task s' = Some (Pool 1)" "kinv s' (append_to (ReadyL 1) (StateItem (Pool 2)) C)"
    using task_create_ok[OF k, of "0x20003000" "0x08000701" 1 64 10]
    by (auto simp: ARTOS_MAX_TASKS_def ARTOS_PRIORITY_COUNT_def ARTOS_MIN_STACK_WORDS_def)
  have e: "sys_pair = s'" using s'(1) by (simp add: sys_pair_def ret_state_def)
  show "reachable clz_count sys_pair {}"
    by (rule reachable.event[OF sys_live_reachable, of "Create 0x08000701 10 0x20003000 64 1"]) (simp_all add: with_objects_def s'(1) e)
  show "intact sys_pair" unfolding e
  proof (rule create_intact[OF k _ _ _ _ _ _ _ sys_live_intact _ s'(1)])
    fix u and i j :: nat assume u: "user_task sys_live u" and i: "i < 4" and "j < unat (64 :: u32)"
    then have j: "j < 64" by simp
    have "u = Pool 0 \<or> u = Pool 1" using u less_2_cases by (fastforce simp: user_task_def)
    moreover have "0x20001000 + 4 * of_nat i \<noteq> (0x20003000 :: u32) + 4 * of_nat j" "0x20002000 + 4 * of_nat i \<noteq> (0x20003000 :: u32) + 4 * of_nat j"
      by (rule aligned_addresses_apart[OF _ _ i j]; simp)+
    ultimately show "stack_buffer (tcbs sys_live u) + 4 * of_nat i \<noteq> 0x20003000 + 4 * of_nat j"
      using run2_inv(6,7)[of objects] run3_inv(5)[of objects] by (elim disjE) (simp_all add: fresh_tcb_def)
  qed (simp_all add: ARTOS_MAX_TASKS_def ARTOS_PRIORITY_COUNT_def)
  show "tsk_cnt sys_pair = 3" "cont (lists sys_pair) (StateItem (Pool 2)) = Some (ReadyL 1)" using s' e by simp_all
  have "i = 0 \<or> i = 1 \<or> i = 2" if "i < 3" for i :: nat using that by linarith
  then show "\<forall>u. user_task sys_pair u \<longrightarrow> unat (effective_priority (tcbs sys_pair u)) \<le> 1"
    using s'(2,3) run_priorities[of objects] unfolding e by (fastforce simp: user_task_def fresh_tcb_def)
  have "cont (lists s') (StateItem (Pool 1)) \<noteq> Some l" for l
  proof
    assume "cont (lists s') (StateItem (Pool 1)) = Some l"
    then obtain xs where "append_to (ReadyL 1) (StateItem (Pool 2)) C l = Some xs" "StateItem (Pool 1) \<in> set xs"
      using rl.member[OF kinv_wf[OF s'(6)], of "StateItem (Pool 1)" l] by auto
    moreover have "C (ReadyL 1) \<noteq> None" using k(1) by (auto simp: kinv_def kernel_lists_def ARTOS_PRIORITY_COUNT_def)
    ultimately obtain ys where "C l = Some ys" "StateItem (Pool 1) \<in> set ys" by (auto simp: append_to_def split: if_splits)
    then have "cont (lists sys_live) (StateItem (Pool 1)) = Some l" using rl.member[OF kinv_wf[OF k(1)], of "StateItem (Pool 1)" l] by simp
    then show False using sys_live_tasks(3) by (simp add: running_def)
  qed
  then show "running sys_pair (Pool 1)" using s'(2,5) e by (auto simp: running_def user_task_def)
qed

theorem round_robin_fair_witness:
  "\<exists>es s1 L1. run_events clz_count es sys_pair {} = Some (s1, L1) \<and> running s1 (Pool 2)"
proof -
  obtain es where es: "switches es = 3" "\<forall>e \<in> set es. is_switch e" "run_events clz_count es sys_pair {} \<noteq> None"
      "\<And>es1 es2 s1 L1. es = es1 @ es2 \<Longrightarrow> run_events clz_count es1 sys_pair {} = Some (s1, L1) \<Longrightarrow>
         tcbs s1 = tcbs sys_pair \<and> tsk_cnt s1 = tsk_cnt sys_pair"
    using switching_run[OF clz_count_spec sys_pair_ok(1-3), of 3] by blast
  obtain es1 es2 s1 L1 where r: "es = es1 @ es2" "run_events clz_count es1 sys_pair {} = Some (s1, L1)" "running s1 (Pool 2) \<or> outranked s1 1"
    using round_robin_fair[OF clz_count_spec sys_pair_ok(1) es(3) _ sys_pair_ok(5)] es(1,2) sys_pair_ok(4) by auto
  have "tcbs s1 = tcbs sys_pair" "user_task s1 = user_task sys_pair" using es(4)[OF r(1,2)] by (auto simp: user_task_def)
  then have "\<not> outranked s1 1" using sys_pair_ok(6) unfolding outranked_def by (metis leD)
  then show ?thesis using r(2,3) by blast
qed

end
