(* ===== verification/Samples_Demos.thy ===== *)
theory Samples_Demos
  imports Demos Samples_Board Samples_System
begin

text \<open>The demos on concrete boards, with concrete addresses.\<close>

definition demo_api :: "((f446_reg \<Rightarrow> u32) \<times> u8 list) board board_api" where
  "demo_api = f446_api f446_masks f446_dev (replicate 10 0)"

lemma demo_api_ok: "api_ok demo_api"
  unfolding demo_api_def by (rule f446_api_ok[OF f446_dev_ok(2)])

definition priority_addresses :: priority_image where
  "priority_addresses = \<lparr>p_worker_task = 0x08000601, p_high_task = 0x08000701, p_worker_a = 0x20000010, p_worker_b = 0x20000018,
     p_worker_a_stack = 0x20001000, p_worker_b_stack = 0x20001200, p_high_stack = 0x20001400\<rparr>"

definition mutex_addresses :: mutex_image where
  "mutex_addresses = \<lparr>m_low_task = 0x08000601, m_high_task = 0x08000701, m_low_stack = 0x20001000, m_high_stack = 0x20001200\<rparr>"

definition showcase_addresses :: showcase_image where
  "showcase_addresses = \<lparr>s_led_task = 0x08000601, s_heartbeat_task = 0x08000701, s_logger_task = 0x08000801,
     s_button_logger_task = 0x08000901, s_load_task = 0x08000A01, s_button_event_isr = 0x08000B01,
     s_led_stack = 0x20001000, s_heartbeat_stack = 0x20001200, s_logger_stacks = (\<lambda>i. [0x20001400, 0x20001600, 0x20001800] ! i),
     s_button_logger_stack = 0x20001A00, s_load_stack = 0x20001C00, s_consumer_arguments = (\<lambda>i. [0x20000010, 0x20000018, 0x20000020] ! i),
     s_queue_items = 0x20004000, s_button_queue_items = 0x20005000\<rparr>"

theorem small_demos_start_witness:
  "(\<exists>s' b'. priority_main priority_addresses demo_api clz_count sim_board (reset_state objects) = Ret (s', b') \<and> running s' (Pool 2)) \<and>
   (\<exists>s' b'. mutex_main mutex_addresses demo_api clz_count sim_board (reset_state objects) = Ret (s', b') \<and> running s' (Pool 1))"
proof -
  have "task_ok_at (p_worker_task priority_addresses) (p_worker_a_stack priority_addresses)"
    "task_ok_at (p_worker_task priority_addresses) (p_worker_b_stack priority_addresses)"
    "task_ok_at (p_high_task priority_addresses) (p_high_stack priority_addresses)"
    "task_ok_at (m_low_task mutex_addresses) (m_low_stack mutex_addresses)"
    "task_ok_at (m_high_task mutex_addresses) (m_high_stack mutex_addresses)"
    by (simp_all add: task_ok_at_def priority_addresses_def mutex_addresses_def)
  from small_demos_start[OF reset_pool_bounded[of objects] clz_count_spec demo_api_ok this, where b = sim_board] show ?thesis by blast
qed

lemma region_range:
  assumes "x \<in> region a n" "unat a + n \<le> 2 ^ 32"
  shows "unat a \<le> unat x \<and> unat x < unat a + n"
proof -
  obtain j where j: "j < n" "x = a + of_nat j" using assms(1) by (auto simp: region_def)
  have "unat x = unat a + j" unfolding j(2) using j(1) assms(2) unat_add_lem[of a "of_nat j"] unat_of_nat_u32[of j] by simp
  then show ?thesis using j(1) by simp
qed

lemma regions_apart:
  assumes "unat a + n \<le> unat b" "unat b + k \<le> 2 ^ 32"
  shows "region a n \<inter> region b k = {}" "region b k \<inter> region a n = {}"
proof -
  show "region a n \<inter> region b k = {}"
  proof (rule equals0I)
    fix x assume "x \<in> region a n \<inter> region b k"
    then show False using region_range[of x a n] region_range[of x b k] assms by simp
  qed
  then show "region b k \<inter> region a n = {}" by blast
qed


text \<open>Two empty queues for messages of twelve bytes.\<close>

definition showcase_queues :: mutex_kernel where
  "showcase_queues = snd (artos_queue_init (Some 1) 0x20005000 12 4 (snd (artos_queue_init (Some 0) 0x20004000 12 8 (artos_init (reset_state objects)))))"

lemma showcase_queues_ok:
  "\<exists>C. qinv showcase_queues C \<and> queue_live C 0 \<and> queue_live C 1 \<and> q_item_size (queues showcase_queues 0) = 12 \<and>
     q_item_size (queues showcase_queues 1) = 12 \<and>
     (\<forall>k. queue_live C k \<longrightarrow> region 0x20006000 12 \<inter> queue_region (queues showcase_queues k) = {})"
proof -
  let ?C1 = "boot_view(QueueReadL 0 \<mapsto> [], QueueWriteL 0 \<mapsto> [])" let ?C2 = "?C1(QueueReadL 1 \<mapsto> [], QueueWriteL 1 \<mapsto> [])"
  have "clear_of_queues 0x20004000 (unat (12 :: u32) * unat (8 :: u32)) {} (artos_init (reset_state objects))"
    by (simp add: clear_of_queues_def queue_created_def)
  from queue_prepared[OF boot_prepared[OF reset_pool_bounded[of objects], of clz_count] _ _ _ _ _ _ this, of 0] obtain s1 where
    s1: "artos_queue_init (Some 0) 0x20004000 12 8 (artos_init (reset_state objects)) = (Some 0, s1)"
      "prepared clz_count s1 ({QueueReadL 0, QueueWriteL 0} \<union> {}) ?C1 0"
      "q_storage (queues s1 0) = 0x20004000" "q_item_size (queues s1 0) = 12" "q_capacity (queues s1 0) = 8"
    by (auto simp: SIZE_MAX_def)
  have "region 0x20005000 48 \<inter> region 0x20004000 96 = {}" by (rule regions_apart) simp_all
  then have "clear_of_queues 0x20005000 (unat (12 :: u32) * unat (4 :: u32)) ({QueueReadL 0, QueueWriteL 0} \<union> {}) s1"
    using s1(3-5) by (auto simp: clear_of_queues_def queue_created_def queue_region_def)
  from queue_prepared[OF s1(2) _ _ _ _ _ _ this, of 1] obtain s2 where
    s2: "artos_queue_init (Some 1) 0x20005000 12 4 s1 = (Some 1, s2)" "minv s2 ?C2" "queues s2 0 = queues s1 0"
      "q_storage (queues s2 1) = 0x20005000" "q_item_size (queues s2 1) = 12" "q_capacity (queues s2 1) = 4"
    by (auto simp: SIZE_MAX_def prepared_def)
  have q: "showcase_queues = s2" using s1(1) s2(1) by (simp add: showcase_queues_def)
  have r: "region 0x20006000 12 \<inter> region 0x20004000 96 = {}" "region 0x20006000 12 \<inter> region 0x20005000 48 = {}"
    by (rule regions_apart; simp)+
  have "region 0x20006000 12 \<inter> queue_region (queues s2 k) = {}" if "queue_live ?C2 k" for k
  proof -
    have "k = 0 \<or> k = 1" using that by (auto simp: queue_live_def boot_view_def split: if_splits)
    then show ?thesis using r s1(3-5) s2(3-6) by (elim disjE) (simp_all add: queue_region_def)
  qed
  then show ?thesis unfolding q using minvD(1)[OF s2(2)] s1(4) s2(3,5) by (intro exI[of _ ?C2]) (simp add: queue_live_def)
qed

theorem button_isr_correct_witness:
  "\<exists>s'. button_event_isr [0, 0, 0] 0x20006000 \<lparr>button_sequence = 0, last_button_tick = 0, button_seen = False\<rparr> showcase_queues =
     Ret (\<lparr>button_sequence = 1, last_button_tick = ticks showcase_queues, button_seen = True\<rparr>, s')"
proof -
  obtain C where C: "qinv showcase_queues C" "queue_live C 0" "queue_live C 1" "q_item_size (queues showcase_queues 0) = 12"
      "q_item_size (queues showcase_queues 1) = 12"
      "\<forall>k. queue_live C k \<longrightarrow> region 0x20006000 12 \<inter> queue_region (queues showcase_queues k) = {}"
    using showcase_queues_ok by blast
  from button_isr_correct[OF C(1-5) _ _ C(6), of "[0, 0, 0]" "\<lparr>button_sequence = 0, last_button_tick = 0, button_seen = False\<rparr>"]
  show ?thesis by auto
qed

end
