(* ===== verification/Samples_Apps.thy ===== *)
theory Samples_Apps
  imports Showcase_Tasks Priority_Tasks Mutex_Tasks Samples_Demos
begin

text \<open>Concrete runs in time, and concrete tasks at work in the systems that the demos set up.\<close>

section \<open>Delays, timeouts and ownership\<close>

lemma ticks_run: "clz_spec clz \<Longrightarrow> system_ok s L \<Longrightarrow> \<forall>e \<in> set es. e = Tick \<Longrightarrow> run_events clz es s L \<noteq> None"
proof (induction es arbitrary: s L)
  case (Cons e es)
  then have e: "e = Tick" by simp
  then obtain s' L' where "exec clz e s L = Ret (s', L')" "system_ok s' L'" using event_served[OF Cons.prems(2), of e clz] Cons.prems(1) by auto
  then show ?case using Cons.IH[of s' L'] Cons.prems(1,3) e by auto
qed simp

lemma wait_run:
  assumes "clz_spec clz" "system_ok s L" "in_task s"
  shows "\<exists>s' L'. run_events clz [Wait n, Tick, Tick] s L = Some (s', L')"
proof -
  obtain s1 L1 where 1: "exec clz (Wait n) s L = Ret (s1, L1)" "system_ok s1 L1" using event_served[OF assms(2) _ assms(1), of "Wait n"] assms(3) by auto
  obtain s' L' where "run_events clz [Tick, Tick] s1 L1 = Some (s', L')" using ticks_run[OF assms(1) 1(2), of "[Tick, Tick]"] by auto
  then show ?thesis using 1(1) assms(3) by auto
qed

lemma sys_live_in_task: "in_task sys_live"
  using sys_live_tasks(3) by (auto simp: in_task_def)

theorem delay_exact_witness:
  "\<exists>s' L'. run_events clz_count [Wait 2, Tick, Tick] sys_live {} = Some (s', L') \<and> (\<exists>p. cont (lists s') (StateItem (Pool 1)) = Some (ReadyL p))"
proof -
  obtain s' L' where r: "run_events clz_count [Wait 2, Tick, Tick] sys_live {} = Some (s', L')"
    using wait_run[OF clz_count_spec reachable_ok[OF sys_live_reachable clz_count_spec] sys_live_in_task] by blast
  have e: "Wait 2 = Wait 2 \<and> (2 :: u32) \<noteq> 0 \<and> (2 :: u32) \<noteq> ARTOS_DELAY_INFINITY \<or> Wait 2 = WaitUntil (ticks sys_live + 2) \<and> (2 :: u32) \<noteq> 0 \<and> (2 :: u32) < 0x80000000"
    by (simp add: ARTOS_DELAY_INFINITY_def)
  have "[Tick, Tick] = [Tick] @ [Tick] \<and> ticks_in [Tick, Tick] = unat (2 :: u32)" by simp
  then show ?thesis using delay_exact[OF clz_count_spec sys_live_reachable sys_live_tasks(3) e r] r by blast
qed

text \<open>A semaphore without tokens, and a mutex that the running task takes.\<close>

definition sys_sem :: mutex_kernel where "sys_sem = snd (artos_counting_semaphore_init (Some 0) 1 0 sys_live)"

lemma sys_sem_ok: "reachable clz_count sys_sem {SemWaitL 0}" "running sys_sem (Pool 1)" "sem_count (sems sys_sem 0) = 0"
proof -
  have e: "artos_counting_semaphore_init (Some 0) 1 0 sys_live = (Some 0, sys_sem)"
    by (simp add: sys_sem_def artos_counting_semaphore_init_def Let_def)
  show "reachable clz_count sys_sem {SemWaitL 0}" by (rule reachable.event[OF sys_live_reachable, of "SemInit 0 1 0"]) (simp_all add: e)
  show "running sys_sem (Pool 1)" "sem_count (sems sys_sem 0) = 0"
    using sys_live_tasks(3) by (simp_all add: sys_sem_def artos_counting_semaphore_init_def Let_def running_def user_task_def upd_sem_def init_list_cont)
qed

lemma sys_sem_awaits: "awaits (SemTake 0 2) sys_sem = Some (SemWaitL 0, 2)"
proof -
  obtain C where C: "minv sys_sem C" "objects_of C = {SemWaitL 0}" using reachable_ok[OF sys_sem_ok(1) clz_count_spec] by (rule system_okE)
  have "C (SemWaitL 0) \<noteq> None" using created_live(1)[OF C(2), of "SemWaitL 0"] by simp
  from take_enter_runs[OF qinvD(1)[OF minvD(1)[OF C(1)]] sys_sem_ok(2) this, of 2] sys_sem_ok(3)
  show ?thesis by (auto simp: spec_take_def sem_abs_def joins_def)
qed

theorem timeout_exact_witness:
  "\<exists>s' L'. run_events clz_count [SemTake 0 2, Tick, Tick] sys_sem {SemWaitL 0} = Some (s', L') \<and> timed_out s' (Pool 1)"
proof -
  note ok = reachable_ok[OF sys_sem_ok(1) clz_count_spec]
  have e: "enabled (SemTake 0 2) sys_sem {SemWaitL 0}" using sys_sem_ok(2) by (auto simp: in_task_def)
  obtain s1 L1 where 1: "exec clz_count (SemTake 0 2) sys_sem {SemWaitL 0} = Ret (s1, L1)" "system_ok s1 L1"
    using event_served[OF ok e clz_count_spec] by blast
  obtain s' L' where "run_events clz_count [Tick, Tick] s1 L1 = Some (s', L')" using ticks_run[OF clz_count_spec 1(2), of "[Tick, Tick]"] by auto
  then have r: "run_events clz_count [SemTake 0 2, Tick, Tick] sys_sem {SemWaitL 0} = Some (s', L')" using 1(1) e by simp
  have "[Tick, Tick] = [Tick] @ [Tick] \<and> ticks_in [Tick, Tick] = unat (2 :: u32)" "(2 :: u32) \<noteq> ARTOS_DELAY_INFINITY"
    by (simp_all add: ARTOS_DELAY_INFINITY_def)
  then show ?thesis using timeout_exact[OF clz_count_spec sys_sem_ok(1,2) sys_sem_awaits r] r by auto
qed

lemma sys_owned_ok:
  "\<exists>(s1 :: mutex_kernel). reachable clz_count s1 {MutexLockL 0} \<and> owner_of s1 0 = Some (Pool 1)"
proof -
  obtain C where C: "minv sys_mutex C" "objects_of C = {MutexLockL 0}" using reachable_ok[OF sys_mutex_reachable clz_count_spec] by (rule system_okE)
  have n: "mutex_live C 0" using created_live(3)[OF C(2), of 0] by simp
  have r: "running sys_mutex (Pool 1)" "owner_of sys_mutex 0 = None" "mutexes_held (tcbs sys_mutex (Pool 1)) \<noteq> 0xFF"
    using sys_mutex_running run2_inv(6,7)[of objects] run3_inv(5)[of objects]
    by (simp_all add: sys_mutex_def artos_mutex_init_def owner_of_def set_owner_of_def fresh_tcb_def)
  obtain s1 where s1: "mutex_lock_enter 0 0 sys_mutex = Ret (Some True, s1)" "owner_of s1 0 = Some (Pool 1)"
    using lock_acquires[OF C(1) r(1) n r(3,2), of 0] by blast
  have "reachable clz_count s1 {MutexLockL 0}"
    by (rule reachable.event[OF sys_mutex_reachable, of "Lock 0 0"]) (use r(1) s1(1) in \<open>auto simp: in_task_def with_objects_def\<close>)
  then show ?thesis using s1(2) by blast
qed

theorem mutex_exclusive_witness:
  "\<exists>(s :: mutex_kernel) s' L'. run_events clz_count [Tick, Tick] s {MutexLockL 0} = Some (s', L') \<and> owner_of s' 0 = Some (Pool 1)"
proof -
  obtain s :: mutex_kernel where s: "reachable clz_count s {MutexLockL 0}" "owner_of s 0 = Some (Pool 1)" using sys_owned_ok by blast
  obtain s' L' where r: "run_events clz_count [Tick, Tick] s {MutexLockL 0} = Some (s', L')"
    using ticks_run[OF clz_count_spec reachable_ok[OF s(1) clz_count_spec], of "[Tick, Tick]"] by auto
  have "Unlock 0 \<notin> set [Tick, Tick]" by simp
  then show ?thesis using mutex_exclusive[OF clz_count_spec s(1) _ s(2) r] r by (metis in_set_conv_decomp insertI1)
qed

section \<open>The tasks of the demos\<close>

text \<open>
  A reset state with variables \<open>w\<close>; the state that a \<open>main\<close> leaves, in which the objects \<open>L\<close> are made and in three rests the others do
  nothing but tick.
\<close>

definition app_reset :: "'w \<Rightarrow> 'w app" where
  "app_reset w = reset_state (sem_kernel.sem_kernel_ext (\<lambda>_. \<lparr>sem_count = 0, sem_max = 0\<rparr>)
     (queue_kernel.queue_kernel_ext (\<lambda>_. \<lparr>q_count = 0, q_capacity = 0, q_read_index = 0, q_write_index = 0, q_item_size = 0, q_storage = 0\<rparr>)
        (\<lambda>_. 0) (mutex_kernel.mutex_kernel_ext (\<lambda>_. \<lparr>mutex_owner = None\<rparr>) (app.fields {} w []))))"

lemma app_pool_bounded: "pool_bounded (app_reset w)"
  unfolding app_reset_def by (rule reset_pool_bounded)

definition at_work :: "list_ref set \<Rightarrow> 'w \<Rightarrow> 'w app \<Rightarrow> 'w app" where
  "at_work L w s = s\<lparr>made := L, world := w, future := [[], [Program id], []]\<rparr>"

lemma at_work_fields:
  assumes "reachable clz s L" "running s t"
  shows "reachable clz (at_work L w s) L" "running (at_work L w s) t" "made (at_work L w s) = L"
    "future (at_work L w s) = [[], [Program id], []]" "world (at_work L w s) = w" "queues (at_work L w s) = queues s"
proof -
  have "at_work L w s = s\<lparr>made := L\<rparr>\<lparr>world := w\<rparr>\<lparr>future := [[], [Program id], []]\<rparr>" by (simp add: at_work_def)
  then show "reachable clz (at_work L w s) L"
    using reachable_app(3)[OF reachable_app(2)[OF reachable_app(1)[OF assms(1), of L], of w], of "[[], [Program id], []]"] by metis
  show "running (at_work L w s) t" "made (at_work L w s) = L" "future (at_work L w s) = [[], [Program id], []]" "world (at_work L w s) = w"
    "queues (at_work L w s) = queues s"
    using assms(2) by (simp_all add: at_work_def running_def user_task_def)
qed

lemma at_work_working:
  assumes "reachable clz s L" "running s t" "X \<subseteq> L" "\<forall>q \<in> Q. queue_created L q \<and> q_item_size (queues s q) = message_size"
    and "\<forall>k. queue_created L k \<longrightarrow> region buf (unat message_size) \<inter> queue_region (queues s k) = {}"
  shows "working clz t X Q buf (at_work L w s)"
  using at_work_fields[OF assms(1,2), of w] assms(3-5) by (simp add: working_def paused_def fit_def clear_of_queues_def)

text \<open>While the others do nothing, a running task goes on.\<close>

lemma others_nothing:
  assumes "future a = es # rest" "es = [] \<or> es = [Program id]" "running a t"
  shows "\<exists>b. others clz t a = Ret b \<and> future b = rest \<and> running b t \<and> world b = world a"
  using assms(2,3) by (auto simp: others_def assms(1) running_def user_task_def)

definition showcase_vars :: "((f446_reg \<Rightarrow> u32) \<times> u8 list) board showcase_world" where
  "showcase_vars = \<lparr>device = sim_board, load_sink = 7\<rparr>"

lemma showcase_addresses_ok: "showcase_ok showcase_addresses"
proof -
  have "region 0x20005000 48 \<inter> region 0x20004000 96 = {}" by (rule regions_apart) simp_all
  moreover have "task_ok_at 0x08000801 ([0x20001400, 0x20001600, 0x20001800] ! i)" if "i < 3" for i :: nat
    using that by (auto simp: task_ok_at_def less_Suc_eq numeral_3_eq_3)
  ultimately show ?thesis by (simp add: showcase_ok_def task_ok_at_def showcase_addresses_def)
qed

lemma showcase_at_work:
  "\<exists>s. working clz_count (Pool 0) {SemWaitL 0} {0, 1} 0x20006000
     (at_work {SemWaitL 0, QueueReadL 0, QueueWriteL 0, QueueReadL 1, QueueWriteL 1} showcase_vars s)"
proof -
  let ?L = "{SemWaitL 0, QueueReadL 0, QueueWriteL 0, QueueReadL 1, QueueWriteL 1}"
  obtain s :: "((f446_reg \<Rightarrow> u32) \<times> u8 list) board showcase_world app" where s: "reachable clz_count s ?L" "running s (Pool 0)" "showcase_queues_in showcase_addresses s"
    using showcase_main_runs[OF app_pool_bounded[of showcase_vars] clz_count_spec demo_api_ok showcase_addresses_ok, where b = sim_board] by blast
  have r: "region 0x20006000 12 \<inter> region 0x20004000 96 = {}" "region 0x20006000 12 \<inter> region 0x20005000 48 = {}"
    by (rule regions_apart; simp)+
  have "region 0x20006000 (unat message_size) \<inter> queue_region (queues s k) = {}" if "queue_created ?L k" for k
  proof -
    have "k = 0 \<or> k = 1" using that by (auto simp: queue_created_def)
    then show ?thesis using r s(3) by (auto simp: showcase_queues_in_def showcase_addresses_def message_size_def)
  qed
  then have "working clz_count (Pool 0) {SemWaitL 0} {0, 1} 0x20006000 (at_work ?L showcase_vars s)"
    using s(3) by (intro at_work_working[OF s(1,2)]) (auto simp: showcase_queues_in_def queue_created_def)
  then show ?thesis by blast
qed


text \<open>One round of a worker: it does its computation and yields.\<close>

definition priority_vars :: "((f446_reg \<Rightarrow> u32) \<times> u8 list) board priority_world" where
  "priority_vars = \<lparr>device = sim_board, worker_a = \<lparr>worker_name = CHR ''A'', reports = 0\<rparr>, worker_b = \<lparr>worker_name = CHR ''B'', reports = 0\<rparr>,
     work_sink = 5\<rparr>"

lemma priority_at_work: "\<exists>s. working clz_count (Pool 2) {SemWaitL 0} {} 0 (at_work {SemWaitL 0} priority_vars s)"
proof -
  have "task_ok_at (p_worker_task priority_addresses) (p_worker_a_stack priority_addresses)"
    "task_ok_at (p_worker_task priority_addresses) (p_worker_b_stack priority_addresses)"
    "task_ok_at (p_high_task priority_addresses) (p_high_stack priority_addresses)"
    by (simp_all add: task_ok_at_def priority_addresses_def)
  from priority_demo_runs[OF app_pool_bounded[of priority_vars] clz_count_spec demo_api_ok this, where b = sim_board]
  obtain s :: "((f446_reg \<Rightarrow> u32) \<times> u8 list) board priority_world app" where s: "reachable clz_count s {SemWaitL 0}" "running s (Pool 2)" by blast
  then show ?thesis by (intro exI[of _ s] at_work_working[OF s]) (simp_all add: queue_created_def)
qed


definition mutex_vars :: "((f446_reg \<Rightarrow> u32) \<times> u8 list) board world" where
  "mutex_vars = \<lparr>device = sim_board\<rparr>"

definition no_info :: artos_task_info where
  "no_info = \<lparr>info_entry = 0, info_state = ARTOS_TASK_STATE_READY, info_base_priority = 0, info_effective_priority = 0, info_mutexes_held = 0,
     info_stack_word_count = 0, info_stack_free_words = 0, info_stack_guard_valid = False\<rparr>"

lemma mutex_at_work: "\<exists>s. working clz_count (Pool 1) {MutexLockL 0} {} 0 (at_work {MutexLockL 0} mutex_vars s)"
proof -
  have "task_ok_at (m_low_task mutex_addresses) (m_low_stack mutex_addresses)" "task_ok_at (m_high_task mutex_addresses) (m_high_stack mutex_addresses)"
    by (simp_all add: task_ok_at_def mutex_addresses_def)
  from mutex_demo_runs[OF app_pool_bounded[of mutex_vars] clz_count_spec demo_api_ok this, where b = sim_board]
  obtain s :: "((f446_reg \<Rightarrow> u32) \<times> u8 list) board world app" where s: "reachable clz_count s {MutexLockL 0}" "running s (Pool 1)" by blast
  then show ?thesis by (intro exI[of _ s] at_work_working[OF s]) (simp_all add: queue_created_def)
qed


section \<open>Printing\<close>

text \<open>Between two statements a tick comes; it sends nothing and changes no variable.\<close>

definition tick_by :: "('w, 'z) stmt" where
  "tick_by a = Ret (a\<lparr>ticks := ticks a + 1\<rparr>)"

lemma demo_api_sends: "api_sends demo_api (\<lambda>b. snd (dev b))"
  unfolding demo_api_def by (rule f446_api_sends[OF f446_dev_ok(2)]) simp

lemma tick_by_leaves:
  assumes "\<And>a. J (a\<lparr>ticks := ticks a + 1\<rparr>) = J a"
  shows "leaves_line out J tick_by"
  using assms by (auto simp: leaves_line_def tick_by_def transcript_def)

text \<open>A message in an otherwise empty memory: a button press, the seventh event, at tick 258.\<close>

definition message_state :: "((f446_reg \<Rightarrow> u32) \<times> u8 list) board world app" where
  "message_state = (app_reset mutex_vars)\<lparr>mem := store_bytes 0x20006000 (message_bytes [0, 0, 0] DEMO_BUTTON 7 258) (\<lambda>_. 0)\<rparr>"

lemma message_state_holds: "holds_message 0x20006000 [0, 0, 0] DEMO_BUTTON 7 258 message_state"
proof -
  have "length (message_bytes [0, 0, 0] DEMO_BUTTON 7 258) = 12" by (rule message_length) simp
  then show ?thesis using store_bytes_buffer[of "message_bytes [0, 0, 0] DEMO_BUTTON 7 258" "0x20006000" "\<lambda>_. 0"]
    by (simp add: holds_message_def message_state_def)
qed


theorem priority_prints_lines_witness:
  "\<exists>b :: ((f446_reg \<Rightarrow> u32) \<times> u8 list) board priority_world app. stmts tick_by (worker_line demo_api Worker_B) (app_reset priority_vars) = Ret b \<and>
     reports (worker_b (world b)) = 1 \<and> transcript (\<lambda>b. snd (dev b)) b = worker_text CHR ''B'' 1"
proof -
  let ?out = "\<lambda>b :: ((f446_reg \<Rightarrow> u32) \<times> u8 list) board. snd (dev b)" and ?a = "app_reset priority_vars"
  have l: "leaves_line ?out (at_worker Worker_B x :: ((f446_reg \<Rightarrow> u32) \<times> u8 list) board priority_world app \<Rightarrow> bool) tick_by" for x
    by (rule tick_by_leaves) (simp add: at_worker_def)
  note p = priority_prints_lines[OF demo_api_sends l, of 1 ?a]
  have "\<forall>b :: ((f446_reg \<Rightarrow> u32) \<times> u8 list) board priority_world app. \<exists>b'. tick_by b = Ret b'" by (simp add: tick_by_def)
  then obtain b where b: "stmts tick_by (worker_line demo_api Worker_B) ?a = Ret b" using p by blast
  have "transcript ?out ?a = []" "worker_b (world ?a) = \<lparr>worker_name = CHR ''B'', reports = 0\<rparr>"
    by (simp_all add: transcript_def app_reset_def reset_state_def app.defs priority_vars_def sim_board_def)
  then show ?thesis using b p[of b] by (auto simp: Let_def)
qed

end
